(* ===== verification/Bitstar_Prelude.thy ===== *)
theory Bitstar_Prelude
  imports Main "HOL-Library.Word" "HOL-Library.AList" "HOL-Library.Char_ord"
    "HOL-Library.List_Lexorder" "HOL-Library.Multiset"
begin

text \<open>
  What every component shares: names for Go's machine integers, the two functions of Go's
  standard library on 64-bit words that the sources use (a mask test written
  \<open>uint64(v)&(1<<uint64(i)) > 0\<close>, and \<open>bits.Len64\<close>), the fact collections that carry
  the component proofs, and generic facts about lists, words and association lists.

  Go's \<open>int64\<close> and \<open>uint64\<close> are both 64-bit words here: a conversion between them keeps the
  bits, \<open>sint\<close> reads the signed value and \<open>unat\<close> the unsigned one.
  A Go \<open>string\<close> is its list of bytes, and \<open><\<close> on strings is the lexicographic order of
  the library theory \<open>List_Lexorder\<close> over the byte order of \<open>Char_ord\<close>, as in Go.
\<close>

unbundle bit_operations_syntax

type_synonym u8 = "8 word"
type_synonym u32 = "32 word"
type_synonym u64 = "64 word"
type_synonym i64 = "64 word"

named_theorems bitmap_laws \<open>what a bitmap operation does to membership\<close>
named_theorems bsi_simps \<open>how an operation changes the columns of a bit sliced index\<close>

subsection \<open>Mask tests and bit lengths\<close>

text \<open>\<open>uint64(w) & (1 << uint64(i)) > 0\<close>; in Go the shift gives 0 once \<open>i\<close> is 64 or more.\<close>

definition mask_test :: "u64 \<Rightarrow> nat \<Rightarrow> bool" where
  "mask_test w i \<longleftrightarrow> (w AND push_bit i 1) > 0"

lemma mask_test_bit [simp]: "mask_test w i = bit w i"
  by (simp add: mask_test_def word_gt_0 push_bit_of_1 and_exp_eq_0_iff_not_bit)

lemma mask_test_eq: "mask_test = bit"
  by (intro ext) simp

text \<open>\<open>uint32(uint64(c))\<close> is \<open>c\<close>.\<close>

lemma ucast_u32_u64 [simp]: "ucast (ucast (c :: u32) :: u64) = c"
  by (rule bit_word_eqI) (simp add: bit_simps)

text \<open>\<open>bits.Len64\<close>: the number of bits needed to write the value, 0 for 0.\<close>

fun nat_len :: "nat \<Rightarrow> nat" where
  "nat_len n = (if n = 0 then 0 else Suc (nat_len (n div 2)))"

declare nat_len.simps [simp del]

definition Len64 :: "u64 \<Rightarrow> nat" where
  "Len64 w = nat_len (unat w)"

lemma nat_len_0 [simp]: "nat_len 0 = 0"
  by (simp add: nat_len.simps)

lemma nat_len_le_iff: "nat_len n \<le> k \<longleftrightarrow> n < 2 ^ k"
proof (induction n arbitrary: k rule: nat_len.induct)
  case (1 n)
  show ?case
  proof (cases "n = 0")
    case True
    then show ?thesis by simp
  next
    case False
    show ?thesis
    proof (cases k)
      case 0
      with False show ?thesis by (simp add: nat_len.simps [of n])
    next
      case (Suc j)
      have "nat_len n \<le> k \<longleftrightarrow> n div 2 < 2 ^ j"
        using False Suc 1 by (simp add: nat_len.simps [of n])
      also have "\<dots> \<longleftrightarrow> n < 2 ^ k"
        using Suc by auto
      finally show ?thesis .
    qed
  qed
qed

lemma Len64_le_iff: "Len64 w \<le> k \<longleftrightarrow> unat w < 2 ^ k"
  by (simp add: Len64_def nat_len_le_iff)

lemma Len64_le_64 [simp]: "Len64 w \<le> 64"
  using unsigned_less [of w] by (simp add: Len64_le_iff)

lemma bit_ge_Len64: "Len64 w \<le> i \<Longrightarrow> \<not> bit w i"
proof -
  assume "Len64 w \<le> i"
  then have "unat w < 2 ^ i" by (simp add: Len64_le_iff)
  then have "take_bit i (unat w) = unat w" by (simp add: take_bit_nat_eq_self)
  then have "\<not> bit (unat w) i" by (metis bit_take_bit_iff less_irrefl)
  then show "\<not> bit w i" by (auto simp: bit_unsigned_iff dest: bit_imp_le_length)
qed

lemma unat_split_top_bit:
  fixes w :: u64
  shows "unat w = take_bit 63 (unat w) + (if bit w 63 then 2 ^ 63 else 0)"
proof -
  have "unat w < 2 ^ 64"
    using unsigned_less [of w, where 'a = nat] by simp
  then have "take_bit 64 (unat w) = unat w"
    by (simp add: take_bit_nat_eq_self)
  moreover have "take_bit 64 (unat w) = take_bit 63 (unat w) + (if bit w 63 then 2 ^ 63 else 0)"
    using take_bit_Suc_from_most [of 63 "unat w"] by (cases "bit w 63") (simp_all add: bit_unsigned_iff)
  ultimately show ?thesis by simp
qed

lemma take_bit_63_less: "take_bit 63 (unat (w :: u64)) < 2 ^ 63"
  by (rule take_bit_nat_less_exp)

lemma Len64_less_64_iff: "Len64 w < 64 \<longleftrightarrow> \<not> bit w 63"
proof -
  have "Len64 w < 64 \<longleftrightarrow> unat w < 2 ^ 63"
    using Len64_le_iff [of w 63] by auto
  also have "\<dots> \<longleftrightarrow> \<not> bit w 63"
    using unat_split_top_bit [of w] take_bit_63_less [of w] by (auto split: if_splits)
  finally show ?thesis .
qed

text \<open>The signed reading of a word: its low 63 bits, less \<open>2 ^ 63\<close> when the top bit is set.\<close>

lemma sint_split_top_bit:
  fixes w :: i64
  shows "sint w = int (take_bit 63 (unat w)) - (if bit w 63 then 2 ^ 63 else 0)"
proof -
  have "sint w = signed_take_bit 63 (int (unat w))"
    by (simp add: sint_uint)
  also have "\<dots> = take_bit 63 (int (unat w)) - (if bit (int (unat w)) 63 then 2 ^ 63 else 0)"
    using take_bit_Suc_from_most [of 63 "int (unat w)"]
    by (simp add: signed_take_bit_eq_take_bit_minus)
  finally show ?thesis
    by (simp add: bit_unsigned_iff of_nat_take_bit)
qed

end
