(* ===== verification/Roaring.thy ===== *)
theory Roaring
  imports Bitstar_Prelude
begin

text \<open>
  The interface of the third-party package \<open>github.com/RoaringBitmap/roaring/v2\<close>.

  Its code is not part of the repository, so a bitmap is a value of an arbitrary type
  \<open>'b\<close> and the operations the sources call are the fields of a record \<open>'b roaring\<close>, which
  every definition that uses bitmaps takes as its first argument. An operation that changes
  its receiver in Go returns the changed bitmap here.
  The locale \<open>roaring_bitmap\<close> states the documented behaviour of those operations: a bitmap is
  a set of 32-bit unsigned integers, and its iterators give the members in increasing order.
  The facts proved in the locale are the ones the components use.

  The last section gives an implementation by lists of words and interprets the locale for
  it: the hypotheses can be met, and witnesses compute with it.
\<close>

subsection \<open>The operations\<close>

record 'b roaring =
  bm_new :: 'b                              \<comment> \<open>\<open>roaring.New\<close>, \<open>roaring.NewBitmap\<close>\<close>
  bm_contains :: "'b \<Rightarrow> u32 \<Rightarrow> bool"
  bm_add :: "'b \<Rightarrow> u32 \<Rightarrow> 'b"
  bm_remove :: "'b \<Rightarrow> u32 \<Rightarrow> 'b"
  bm_add_many :: "'b \<Rightarrow> u32 list \<Rightarrow> 'b"
  bm_add_range :: "'b \<Rightarrow> u64 \<Rightarrow> u64 \<Rightarrow> 'b"  \<comment> \<open>half open: start included, end excluded\<close>
  bm_or :: "'b \<Rightarrow> 'b \<Rightarrow> 'b"
  bm_and :: "'b \<Rightarrow> 'b \<Rightarrow> 'b"
  bm_andnot :: "'b \<Rightarrow> 'b \<Rightarrow> 'b"
  bm_xor :: "'b \<Rightarrow> 'b \<Rightarrow> 'b"
  bm_par_or :: "'b list \<Rightarrow> 'b"              \<comment> \<open>\<open>roaring.ParOr\<close>, for any parallelism\<close>
  bm_run_optimize :: "'b \<Rightarrow> 'b"
  bm_to_list :: "'b \<Rightarrow> u32 list"            \<comment> \<open>what \<open>Iterator\<close> and \<open>ManyIterator\<close> yield\<close>
  bm_cardinality :: "'b \<Rightarrow> nat"
  bm_and_cardinality :: "'b \<Rightarrow> 'b \<Rightarrow> nat"
  bm_is_empty :: "'b \<Rightarrow> bool"

text \<open>The set a bitmap stands for.\<close>

definition bm_set :: "'b roaring \<Rightarrow> 'b \<Rightarrow> u32 set" where
  "bm_set R b = {x. bm_contains R b x}"

subsection \<open>The documented behaviour\<close>

locale roaring_bitmap =
  fixes R :: "'b roaring"
  assumes new_contains: "\<not> bm_contains R (bm_new R) x"
    and add_contains: "bm_contains R (bm_add R b y) x \<longleftrightarrow> x = y \<or> bm_contains R b x"
    and remove_contains: "bm_contains R (bm_remove R b y) x \<longleftrightarrow> x \<noteq> y \<and> bm_contains R b x"
    and add_many_contains:
      "bm_contains R (bm_add_many R b ys) x \<longleftrightarrow> x \<in> set ys \<or> bm_contains R b x"
    and add_range_contains: "unat hi \<le> 2 ^ 32 \<Longrightarrow>
      bm_contains R (bm_add_range R b lo hi) x \<longleftrightarrow>
        (unat lo \<le> unat x \<and> unat x < unat hi) \<or> bm_contains R b x"
    and or_contains: "bm_contains R (bm_or R b c) x \<longleftrightarrow> bm_contains R b x \<or> bm_contains R c x"
    and and_contains: "bm_contains R (bm_and R b c) x \<longleftrightarrow> bm_contains R b x \<and> bm_contains R c x"
    and andnot_contains:
      "bm_contains R (bm_andnot R b c) x \<longleftrightarrow> bm_contains R b x \<and> \<not> bm_contains R c x"
    and xor_contains: "bm_contains R (bm_xor R b c) x \<longleftrightarrow> bm_contains R b x \<noteq> bm_contains R c x"
    and par_or_contains:
      "bm_contains R (bm_par_or R bs) x \<longleftrightarrow> (\<exists>b \<in> set bs. bm_contains R b x)"
    and run_optimize_contains: "bm_contains R (bm_run_optimize R b) x \<longleftrightarrow> bm_contains R b x"
    and to_list_sorted: "sorted_wrt (<) (bm_to_list R b)"
    and to_list_contains: "x \<in> set (bm_to_list R b) \<longleftrightarrow> bm_contains R b x"
    and cardinality_card: "bm_cardinality R b = card {x. bm_contains R b x}"
    and and_cardinality_card:
      "bm_and_cardinality R b c = card {x. bm_contains R b x \<and> bm_contains R c x}"
    and is_empty_iff: "bm_is_empty R b \<longleftrightarrow> (\<forall>x. \<not> bm_contains R b x)"
begin

lemmas contains_simps [simp, bitmap_laws] = new_contains add_contains remove_contains
  add_many_contains or_contains and_contains andnot_contains xor_contains par_or_contains
  run_optimize_contains to_list_contains

lemma contains_if [simp]:
  "bm_contains R (if P then b else c) x \<longleftrightarrow>
     (P \<longrightarrow> bm_contains R b x) \<and> (\<not> P \<longrightarrow> bm_contains R c x)"
  by simp

lemma mem_bm_set [simp]: "x \<in> bm_set R b \<longleftrightarrow> bm_contains R b x"
  by (simp add: bm_set_def)

lemma set_to_list [simp]: "set (bm_to_list R b) = bm_set R b"
  by (auto simp: bm_set_def)

lemma distinct_to_list [simp]: "distinct (bm_to_list R b)"
  using to_list_sorted [of b] by (simp add: strict_sorted_iff)

lemma cardinality_length: "bm_cardinality R b = length (bm_to_list R b)"
  using distinct_card [OF distinct_to_list, of b] by (simp add: cardinality_card bm_set_def)

lemma set_simps [simp]:
  "bm_set R (bm_new R) = {}"
  "bm_set R (bm_add R b x) = insert x (bm_set R b)"
  "bm_set R (bm_remove R b x) = bm_set R b - {x}"
  "bm_set R (bm_add_many R b xs) = set xs \<union> bm_set R b"
  "bm_set R (bm_or R b c) = bm_set R b \<union> bm_set R c"
  "bm_set R (bm_and R b c) = bm_set R b \<inter> bm_set R c"
  "bm_set R (bm_andnot R b c) = bm_set R b - bm_set R c"
  "bm_set R (bm_par_or R bs) = (\<Union>b \<in> set bs. bm_set R b)"
  "bm_set R (bm_run_optimize R b) = bm_set R b"
  by (auto simp: bm_set_def)

end

subsection \<open>An implementation by lists\<close>

text \<open>
  A bitmap as the list of its members in any order, with repetitions allowed; the iterators
  sort it. Slow, but every operation computes.
\<close>

definition list_roaring :: "u32 list roaring" where
  "list_roaring = \<lparr>
     bm_new = [],
     bm_contains = (\<lambda>b x. x \<in> set b),
     bm_add = (\<lambda>b x. x # b),
     bm_remove = (\<lambda>b x. removeAll x b),
     bm_add_many = (\<lambda>b xs. xs @ b),
     bm_add_range = (\<lambda>b lo hi. map of_nat [unat lo..<unat hi] @ b),
     bm_or = (\<lambda>b c. b @ c),
     bm_and = (\<lambda>b c. filter (\<lambda>x. x \<in> set c) b),
     bm_andnot = (\<lambda>b c. filter (\<lambda>x. x \<notin> set c) b),
     bm_xor = (\<lambda>b c. filter (\<lambda>x. x \<notin> set c) b @ filter (\<lambda>x. x \<notin> set b) c),
     bm_par_or = concat,
     bm_run_optimize = (\<lambda>b. b),
     bm_to_list = (\<lambda>b. sort (remdups b)),
     bm_cardinality = (\<lambda>b. length (remdups b)),
     bm_and_cardinality = (\<lambda>b c. length (remdups (filter (\<lambda>x. x \<in> set c) b))),
     bm_is_empty = (\<lambda>b. b = []) \<rparr>"

lemma list_roaring_simps [simp]:
  "bm_new list_roaring = []"
  "bm_contains list_roaring b x = (x \<in> set b)"
  "bm_add list_roaring b x = x # b"
  "bm_remove list_roaring b x = removeAll x b"
  "bm_add_many list_roaring b xs = xs @ b"
  "bm_add_range list_roaring b lo hi = map of_nat [unat lo..<unat hi] @ b"
  "bm_or list_roaring b c = b @ c"
  "bm_and list_roaring b c = filter (\<lambda>x. x \<in> set c) b"
  "bm_andnot list_roaring b c = filter (\<lambda>x. x \<notin> set c) b"
  "bm_xor list_roaring b c = filter (\<lambda>x. x \<notin> set c) b @ filter (\<lambda>x. x \<notin> set b) c"
  "bm_par_or list_roaring bs = concat bs"
  "bm_run_optimize list_roaring b = b"
  "bm_to_list list_roaring b = sort (remdups b)"
  "bm_cardinality list_roaring b = length (remdups b)"
  "bm_and_cardinality list_roaring b c = length (remdups (filter (\<lambda>x. x \<in> set c) b))"
  "bm_is_empty list_roaring b = (b = [])"
  by (simp_all add: list_roaring_def)

lemma of_nat_range_u32:
  assumes "hi \<le> 2 ^ 32"
  shows "(x :: u32) \<in> of_nat ` {lo..<hi} \<longleftrightarrow> lo \<le> unat x \<and> unat x < hi"
proof
  assume "x \<in> of_nat ` {lo..<hi}"
  then obtain n where n: "x = of_nat n" "lo \<le> n" "n < hi" by auto
  with assms have "unat x = n" by (simp add: unsigned_of_nat take_bit_nat_eq_self)
  with n show "lo \<le> unat x \<and> unat x < hi" by simp
next
  assume "lo \<le> unat x \<and> unat x < hi"
  then show "x \<in> of_nat ` {lo..<hi}"
    by (intro image_eqI [of _ _ "unat x"]) auto
qed

interpretation list_bm: roaring_bitmap list_roaring
proof
  fix b :: "u32 list" and x :: u32 and lo hi :: u64
  assume "unat hi \<le> 2 ^ 32"
  then show "bm_contains list_roaring (bm_add_range list_roaring b lo hi) x \<longleftrightarrow>
      (unat lo \<le> unat x \<and> unat x < unat hi) \<or> bm_contains list_roaring b x"
    using of_nat_range_u32 [of "unat hi" x "unat lo"] by auto
next
  fix b c :: "u32 list"
  show "bm_cardinality list_roaring b = card {x. bm_contains list_roaring b x}"
    by (simp add: length_remdups_card_conv)
  show "bm_and_cardinality list_roaring b c =
      card {x. bm_contains list_roaring b x \<and> bm_contains list_roaring c x}"
    by (simp add: length_remdups_card_conv)
qed (auto simp: strict_sorted_iff)

lemmas list_roaring_ok = list_bm.roaring_bitmap_axioms

end
