(* ===== verification/Bsi.thy ===== *)
theory Bsi
  imports Roaring
begin

text \<open>
  The bit sliced index of \<open>src/bsi/bsi.go\<close>: its state, constructors, single and bulk
  writes, reads, and the operations that restrict or clear it.

  A BSI stores one 64-bit value per column: slice \<open>i\<close> is the bitmap of the columns whose
  value has bit \<open>i\<close>, and the existence bitmap holds the columns that have a value.
  \<open>bsi_val\<close> is the abstraction: the partial function from columns to values a BSI stands for.
  \<open>bsi_wf\<close> is the invariant all operations rely on: no slice holds a column that the existence
  bitmap does not. Each operation is shown to keep the invariant and to be a simple
  operation on the abstraction.

  \<open>None\<close> as the result of an operation is a Go panic (an index out of range).
\<close>

subsection \<open>State and constructors\<close>

record 'b bsi =
  bA :: "'b list"
  eBM :: 'b
  MaxValue :: i64
  MinValue :: i64
  runOptimized :: bool

definition BitCount :: "'b bsi \<Rightarrow> nat" where
  "BitCount b = length (bA b)"

definition NewBSI :: "'b roaring \<Rightarrow> i64 \<Rightarrow> i64 \<Rightarrow> 'b bsi" where
  "NewBSI R maxValue minValue =
     (let bitsz = Len64 minValue;
          bitsz = (if Len64 maxValue > bitsz then Len64 maxValue else bitsz)
      in \<lparr>bA = replicate bitsz (bm_new R), eBM = bm_new R,
          MaxValue = maxValue, MinValue = minValue, runOptimized = False\<rparr>)"

definition NewDefaultBSI :: "'b roaring \<Rightarrow> 'b bsi" where
  "NewDefaultBSI R = NewBSI R 0 0"

definition RunOptimize :: "'b roaring \<Rightarrow> 'b bsi \<Rightarrow> 'b bsi" where
  "RunOptimize R b = b\<lparr>eBM := bm_run_optimize R (eBM b),
     bA := map (bm_run_optimize R) (bA b), runOptimized := True\<rparr>"

definition HasRunCompression :: "'b bsi \<Rightarrow> bool" where
  "HasRunCompression b = runOptimized b"

definition GetExistenceBitmap :: "'b bsi \<Rightarrow> 'b" where
  "GetExistenceBitmap b = eBM b"

definition ValueExists :: "'b roaring \<Rightarrow> 'b bsi \<Rightarrow> u64 \<Rightarrow> bool" where
  "ValueExists R b columnID = bm_contains R (eBM b) (ucast columnID)"

definition GetCardinality :: "'b roaring \<Rightarrow> 'b bsi \<Rightarrow> nat" where
  "GetCardinality R b = bm_cardinality R (eBM b)"

definition GetBitmaps :: "'b bsi \<Rightarrow> 'b list" where
  "GetBitmaps b = bA b"

definition InitBitmaps :: "'b roaring \<Rightarrow> 'b bsi \<Rightarrow> nat \<Rightarrow> 'b bsi" where
  "InitBitmaps R b bitCount = b\<lparr>bA := replicate bitCount (bm_new R)\<rparr>"

subsection \<open>Writing\<close>

text \<open>
  The loop that widens a BSI, shared by \<open>SetValue\<close> and \<open>SetMany\<close>. It counts \<open>i\<close> down to 1,
  appending an empty slice each time; on a run-optimized BSI it then run-optimizes slice
  \<open>i\<close>, which need not exist yet: Go panics there.
\<close>

fun grow :: "'b roaring \<Rightarrow> bool \<Rightarrow> nat \<Rightarrow> 'b list \<Rightarrow> 'b list option" where
  "grow R ro 0 ba = Some ba"
| "grow R ro (Suc k) ba =
     (let ba = ba @ [bm_new R]; i = Suc k in
      if ro then
        (if i < length ba then grow R ro k (ba[i := bm_run_optimize R (ba ! i)]) else None)
      else grow R ro k ba)"

definition auto_sized :: "'b bsi \<Rightarrow> bool" where
  "auto_sized b \<longleftrightarrow> MaxValue b = 0 \<and> MinValue b = 0"

definition widen :: "'b roaring \<Rightarrow> 'b bsi \<Rightarrow> i64 \<Rightarrow> 'b list option" where
  "widen R b value =
     (if auto_sized b then grow R (runOptimized b) (Len64 value - BitCount b) (bA b)
      else Some (bA b))"

text \<open>\<open>for i := 0; i < b.BitCount(); i++\<close> of \<open>SetValue\<close>, over the slices from number \<open>i\<close> on.\<close>

fun set_slices :: "'b roaring \<Rightarrow> u32 \<Rightarrow> i64 \<Rightarrow> bool \<Rightarrow> nat \<Rightarrow> 'b list \<Rightarrow> 'b list" where
  "set_slices R cid value exists i [] = []"
| "set_slices R cid value exists i (s # ss) =
     (if mask_test value i then bm_add R s cid
      else if exists then bm_remove R s cid else s)
     # set_slices R cid value exists (Suc i) ss"

definition SetValue :: "'b roaring \<Rightarrow> 'b bsi \<Rightarrow> u64 \<Rightarrow> i64 \<Rightarrow> 'b bsi option" where
  "SetValue R b columnID value =
     (case widen R b value of None \<Rightarrow> None
      | Some ba \<Rightarrow>
          let cid = ucast columnID; exists = bm_contains R (eBM b) cid
          in Some (b\<lparr>bA := set_slices R cid value exists 0 ba, eBM := bm_add R (eBM b) cid\<rparr>))"

fun set_many_slices :: "'b roaring \<Rightarrow> 'b \<Rightarrow> i64 \<Rightarrow> nat \<Rightarrow> 'b list \<Rightarrow> 'b list" where
  "set_many_slices R foundSet value i [] = []"
| "set_many_slices R foundSet value i (s # ss) =
     (if mask_test value i then bm_or R s foundSet else bm_andnot R s foundSet)
     # set_many_slices R foundSet value (Suc i) ss"

definition SetMany :: "'b roaring \<Rightarrow> 'b bsi \<Rightarrow> 'b \<Rightarrow> i64 \<Rightarrow> 'b bsi option" where
  "SetMany R b foundSet value =
     (case widen R b value of None \<Rightarrow> None
      | Some ba \<Rightarrow>
          Some (b\<lparr>bA := set_many_slices R foundSet value 0 ba, eBM := bm_or R (eBM b) foundSet\<rparr>))"

subsection \<open>Reading\<close>

text \<open>The loop of \<open>GetValue\<close>: \<open>value |= (1 << uint64(i))\<close> for every slice that has the column.\<close>

fun get_bits :: "'b roaring \<Rightarrow> u32 \<Rightarrow> nat \<Rightarrow> 'b list \<Rightarrow> i64 \<Rightarrow> i64" where
  "get_bits R cid i [] value = value"
| "get_bits R cid i (s # ss) value =
     get_bits R cid (Suc i) ss (if bm_contains R s cid then value OR push_bit i 1 else value)"

definition GetValue :: "'b roaring \<Rightarrow> 'b bsi \<Rightarrow> u64 \<Rightarrow> i64 \<times> bool" where
  "GetValue R b columnID =
     (let cid = ucast columnID; exists = bm_contains R (eBM b) cid
      in if \<not> exists then (0, exists) else (get_bits R cid 0 (bA b) 0, exists))"

subsection \<open>Restricting and clearing\<close>

definition ClearBits :: "'b roaring \<Rightarrow> 'b \<Rightarrow> 'b \<Rightarrow> 'b" where
  "ClearBits R foundSet target = bm_andnot R target foundSet"

text \<open>The goroutines of \<open>ClearValues\<close> clear the existence bitmap and each slice at the same time. They change
  different bitmaps, so any order gives this result when the found set is a bitmap of its own. With the
  existence bitmap of the index itself as the found set they race: it is emptied while the slices
  read it. That call is outside this definition.\<close>

definition ClearValues :: "'b roaring \<Rightarrow> 'b bsi \<Rightarrow> 'b \<Rightarrow> 'b bsi" where
  "ClearValues R b foundSet =
     b\<lparr>eBM := bm_andnot R (eBM b) foundSet, bA := map (\<lambda>s. bm_andnot R s foundSet) (bA b)\<rparr>"

definition NewBSIRetainSet :: "'b roaring \<Rightarrow> 'b bsi \<Rightarrow> 'b \<Rightarrow> 'b bsi" where
  "NewBSIRetainSet R b foundSet =
     (NewBSI R (MaxValue b) (MinValue b))
       \<lparr>bA := map (\<lambda>s. bm_and R s foundSet) (bA b), eBM := bm_and R (eBM b) foundSet\<rparr>"

definition Clone :: "'b roaring \<Rightarrow> 'b bsi \<Rightarrow> 'b bsi" where
  "Clone R b = NewBSIRetainSet R b (eBM b)"

subsection \<open>The abstraction and the invariant\<close>

definition col_word :: "'b roaring \<Rightarrow> 'b list \<Rightarrow> u32 \<Rightarrow> i64" where
  "col_word R ba c = get_bits R c 0 ba 0"

definition bsi_val :: "'b roaring \<Rightarrow> 'b bsi \<Rightarrow> u32 \<Rightarrow> i64 option" where
  "bsi_val R b c = (if bm_contains R (eBM b) c then Some (col_word R (bA b) c) else None)"

definition bsi_wf :: "'b roaring \<Rightarrow> 'b bsi \<Rightarrow> bool" where
  "bsi_wf R b \<longleftrightarrow> (\<forall>s \<in> set (bA b). \<forall>c. bm_contains R s c \<longrightarrow> bm_contains R (eBM b) c)"

text \<open>What a write of \<open>value\<close> leaves in a column: all of it when the BSI sizes itself.\<close>

definition stored :: "'b bsi \<Rightarrow> i64 \<Rightarrow> i64" where
  "stored b value = (if auto_sized b then value else take_bit (BitCount b) value)"

lemma bit_get_bits:
  "bit (get_bits R c i ss v) n \<longleftrightarrow>
     bit v n \<or> (i \<le> n \<and> n < i + length ss \<and> n < 64 \<and> bm_contains R (ss ! (n - i)) c)"
proof (induction ss arbitrary: i v)
  case Nil
  then show ?case by auto
next
  case (Cons s ss)
  have "bit (if bm_contains R s c then v OR push_bit i 1 else v) n \<longleftrightarrow>
      bit v n \<or> (n = i \<and> n < 64 \<and> bm_contains R s c)"
    by (auto simp: bit_simps push_bit_of_1 dest: bit_imp_le_length)
  moreover have "(s # ss) ! (n - i) = (if n = i then s else ss ! (n - Suc i))" if "i \<le> n"
    using that by (auto simp: nth_Cons')
  ultimately show ?case
    using Cons.IH [of "Suc i" "if bm_contains R s c then v OR push_bit i 1 else v"]
    by (cases "n = i") auto
qed

lemma bit_col_word:
  "bit (col_word R ba c) n \<longleftrightarrow> n < length ba \<and> n < 64 \<and> bm_contains R (ba ! n) c"
  by (auto simp: col_word_def bit_get_bits)

lemma col_word_eqI:
  assumes "\<And>n. n < 64 \<Longrightarrow> bit w n \<longleftrightarrow> n < length ba \<and> bm_contains R (ba ! n) c"
  shows "col_word R ba c = w"
  by (rule bit_word_eqI) (simp add: bit_col_word assms)

lemma col_word_cong:
  assumes "\<And>n. n < 64 \<Longrightarrow> (n < length ba \<and> bm_contains R (ba ! n) c) \<longleftrightarrow>
      (n < length ba' \<and> bm_contains R (ba' ! n) c)"
  shows "col_word R ba c = col_word R ba' c"
  by (rule col_word_eqI) (simp add: bit_col_word assms)

lemma GetValue_bsi_val:
  "GetValue R b col =
     (case bsi_val R b (ucast col) of None \<Rightarrow> (0, False) | Some v \<Rightarrow> (v, True))"
  by (simp add: GetValue_def bsi_val_def col_word_def Let_def)

lemma length_set_slices [simp]: "length (set_slices R c v e i ss) = length ss"
  by (induction ss arbitrary: i) auto

lemma nth_set_slices: "n < length ss \<Longrightarrow> set_slices R c v e i ss ! n =
   (if bit v (i + n) then bm_add R (ss ! n) c
    else if e then bm_remove R (ss ! n) c else ss ! n)"
  by (induction ss arbitrary: i n) (auto simp: nth_Cons' gr0_conv_Suc)

lemma length_set_many_slices [simp]: "length (set_many_slices R f v i ss) = length ss"
  by (induction ss arbitrary: i) auto

lemma nth_set_many_slices: "n < length ss \<Longrightarrow> set_many_slices R f v i ss ! n =
   (if bit v (i + n) then bm_or R (ss ! n) f else bm_andnot R (ss ! n) f)"
  by (induction ss arbitrary: i n) (auto simp: nth_Cons' gr0_conv_Suc)

lemma length_grow: "grow R ro k ba = Some ba' \<Longrightarrow> length ba' = length ba + k"
  by (induction R ro k ba rule: grow.induct) (auto simp: Let_def split: if_splits)

lemma grow_defined: "(ro \<longrightarrow> k \<le> length ba) \<Longrightarrow> \<exists>ba'. grow R ro k ba = Some ba'"
  by (induction R ro k ba rule: grow.induct) (auto simp: Let_def)

lemma grow_panics: "length ba < k \<Longrightarrow> grow R True k ba = None"
  by (cases k) (auto simp: Let_def)

lemma widen_defined_iff:
  "(\<exists>ba. widen R b v = Some ba) \<longleftrightarrow>
     \<not> (auto_sized b \<and> runOptimized b \<and> 2 * BitCount b < Len64 v)"
proof (cases "auto_sized b \<and> runOptimized b \<and> 2 * BitCount b < Len64 v")
  case True
  then have "length (bA b) < Len64 v - BitCount b" by (auto simp: BitCount_def)
  with True show ?thesis by (simp add: widen_def grow_panics)
next
  case False
  then have "auto_sized b \<Longrightarrow> runOptimized b \<longrightarrow> Len64 v - BitCount b \<le> length (bA b)"
    by (auto simp: BitCount_def)
  then have "\<exists>ba. widen R b v = Some ba"
    by (cases "auto_sized b") (simp_all add: widen_def grow_defined)
  with False show ?thesis by blast
qed

subsection \<open>Every operation keeps the invariant and acts on the abstraction\<close>

context roaring_bitmap
begin

lemma bsi_wfD: "bsi_wf R b \<Longrightarrow> n < length (bA b) \<Longrightarrow> bm_contains R (bA b ! n) c \<Longrightarrow>
   bm_contains R (eBM b) c"
  by (auto simp: bsi_wf_def)

lemma bsi_wfI: "(\<And>n c. n < length (bA b) \<Longrightarrow> bm_contains R (bA b ! n) c \<Longrightarrow>
   bm_contains R (eBM b) c) \<Longrightarrow> bsi_wf R b"
  by (auto simp: bsi_wf_def in_set_conv_nth)

lemma col_word_absent: "bsi_wf R b \<Longrightarrow> \<not> bm_contains R (eBM b) c \<Longrightarrow> col_word R (bA b) c = 0"
  by (rule col_word_eqI) (auto dest: bsi_wfD)

lemma NewBSI_wf [simp]: "bsi_wf R (NewBSI R mx mn)"
  by (simp add: bsi_wf_def NewBSI_def Let_def)

lemma NewBSI_val [bsi_simps]: "bsi_val R (NewBSI R mx mn) = (\<lambda>_. None)"
  by (rule ext) (simp add: bsi_val_def NewBSI_def Let_def)

lemma InitBitmaps_NewBSI:
  "bsi_wf R (InitBitmaps R (NewBSI R mx mn) k)"
  by (simp add: bsi_wf_def InitBitmaps_def)

text \<open>Widening appends empty slices, so no column changes.\<close>

lemma grow_contains:
  "grow R ro k ba = Some ba' \<Longrightarrow>
     n < length ba' \<and> bm_contains R (ba' ! n) c \<longleftrightarrow> n < length ba \<and> bm_contains R (ba ! n) c"
proof (induction k arbitrary: ba)
  case 0
  then show ?case by simp
next
  case (Suc k)
  let ?ba = "ba @ [bm_new R]"
  let ?ba1 = "if ro then ?ba[Suc k := bm_run_optimize R (?ba ! Suc k)] else ?ba"
  from Suc.prems have "grow R ro k ?ba1 = Some ba'"
    by (auto simp: Let_def split: if_splits)
  then have "n < length ba' \<and> bm_contains R (ba' ! n) c \<longleftrightarrow>
      n < length ?ba1 \<and> bm_contains R (?ba1 ! n) c"
    by (rule Suc.IH)
  also have "\<dots> \<longleftrightarrow> n < length ?ba \<and> bm_contains R (?ba ! n) c"
    by (cases "Suc k < length ?ba") (auto simp: nth_list_update list_update_beyond)
  also have "\<dots> \<longleftrightarrow> n < length ba \<and> bm_contains R (ba ! n) c"
    by (auto simp: nth_append less_Suc_eq)
  finally show ?case .
qed

lemma widen_contains:
  "widen R b v = Some ba \<Longrightarrow>
     n < length ba \<and> bm_contains R (ba ! n) c \<longleftrightarrow>
     n < length (bA b) \<and> bm_contains R (bA b ! n) c"
  by (auto simp: widen_def grow_contains split: if_splits)

lemma widen_length:
  "widen R b v = Some ba \<Longrightarrow>
     length ba = (if auto_sized b then max (BitCount b) (Len64 v) else BitCount b)"
  by (auto simp: widen_def BitCount_def dest: length_grow split: if_splits)

lemma bit_stored:
  assumes "widen R b v = Some ba"
  shows "bit (stored b v) n \<longleftrightarrow> n < length ba \<and> bit v n"
proof -
  have "bit v n \<Longrightarrow> n < Len64 v" using bit_ge_Len64 not_le by blast
  then show ?thesis
    using widen_length [OF assms] by (auto simp: stored_def bit_take_bit_iff)
qed

lemma SetValue_wf:
  assumes "bsi_wf R b" and "SetValue R b col v = Some b'"
  shows "bsi_wf R b'"
proof (rule bsi_wfI)
  fix n c assume n: "n < length (bA b')" and c: "bm_contains R (bA b' ! n) c"
  from assms(2) obtain ba where ba: "widen R b v = Some ba"
    and b': "b' = b\<lparr>bA := set_slices R (ucast col) v (bm_contains R (eBM b) (ucast col)) 0 ba,
                   eBM := bm_add R (eBM b) (ucast col)\<rparr>"
    by (auto simp: SetValue_def Let_def split: option.splits)
  from n c b' have "c = ucast col \<or> bm_contains R (ba ! n) c" and "n < length ba"
    by (auto simp: nth_set_slices split: if_splits)
  then show "bm_contains R (eBM b') c"
    using widen_contains [OF ba, of n c] bsi_wfD [OF assms(1)] b' by auto
qed

lemma SetValue_val [bsi_simps]:
  assumes wf: "bsi_wf R b" and set: "SetValue R b col v = Some b'"
  shows "bsi_val R b' = (bsi_val R b)(ucast col \<mapsto> stored b v)"
proof
  fix c
  let ?c = "ucast col :: u32"
  let ?ex = "bm_contains R (eBM b) ?c"
  from set obtain ba where ba: "widen R b v = Some ba"
    and b': "b' = b\<lparr>bA := set_slices R ?c v ?ex 0 ba, eBM := bm_add R (eBM b) ?c\<rparr>"
    by (auto simp: SetValue_def Let_def split: option.splits)
  show "bsi_val R b' c = ((bsi_val R b)(?c \<mapsto> stored b v)) c"
  proof (cases "c = ?c")
    case True
    have "\<not> ?ex \<Longrightarrow> n < length ba \<Longrightarrow> \<not> bm_contains R (ba ! n) ?c" for n
      using widen_contains [OF ba, of n ?c] bsi_wfD [OF wf, of n ?c] by auto
    then have "col_word R (bA b') ?c = stored b v"
      by (intro col_word_eqI) (auto simp: b' nth_set_slices bit_stored [OF ba] split: if_splits)
    with True show ?thesis by (simp add: bsi_val_def b')
  next
    case False
    have "col_word R (bA b') c = col_word R (bA b) c"
    proof (rule col_word_cong)
      fix n
      show "n < length (bA b') \<and> bm_contains R (bA b' ! n) c \<longleftrightarrow>
          n < length (bA b) \<and> bm_contains R (bA b ! n) c"
        using widen_contains [OF ba, of n c] False by (auto simp: b' nth_set_slices)
    qed
    with False show ?thesis by (simp add: bsi_val_def b')
  qed
qed

lemma SetMany_wf:
  assumes "bsi_wf R b" and "SetMany R b f v = Some b'"
  shows "bsi_wf R b'"
proof (rule bsi_wfI)
  fix n c assume n: "n < length (bA b')" and c: "bm_contains R (bA b' ! n) c"
  from assms(2) obtain ba where ba: "widen R b v = Some ba"
    and b': "b' = b\<lparr>bA := set_many_slices R f v 0 ba, eBM := bm_or R (eBM b) f\<rparr>"
    by (auto simp: SetMany_def Let_def split: option.splits)
  from n c b' have "bm_contains R f c \<or> bm_contains R (ba ! n) c" and "n < length ba"
    by (auto simp: nth_set_many_slices split: if_splits)
  then show "bm_contains R (eBM b') c"
    using widen_contains [OF ba, of n c] bsi_wfD [OF assms(1)] b' by auto
qed

lemma SetMany_val [bsi_simps]:
  assumes wf: "bsi_wf R b" and set: "SetMany R b f v = Some b'"
  shows "bsi_val R b' c = (if bm_contains R f c then Some (stored b v) else bsi_val R b c)"
proof -
  from set obtain ba where ba: "widen R b v = Some ba"
    and b': "b' = b\<lparr>bA := set_many_slices R f v 0 ba, eBM := bm_or R (eBM b) f\<rparr>"
    by (auto simp: SetMany_def Let_def split: option.splits)
  show ?thesis
  proof (cases "bm_contains R f c")
    case True
    then have "col_word R (bA b') c = stored b v"
      by (intro col_word_eqI) (auto simp: b' nth_set_many_slices bit_stored [OF ba] split: if_splits)
    with True show ?thesis by (simp add: bsi_val_def b')
  next
    case False
    have "col_word R (bA b') c = col_word R (bA b) c"
    proof (rule col_word_cong)
      fix n
      show "n < length (bA b') \<and> bm_contains R (bA b' ! n) c \<longleftrightarrow>
          n < length (bA b) \<and> bm_contains R (bA b ! n) c"
        using widen_contains [OF ba, of n c] False by (auto simp: b' nth_set_many_slices)
    qed
    with False show ?thesis by (simp add: bsi_val_def b')
  qed
qed

lemma ClearValues_wf: "bsi_wf R b \<Longrightarrow> bsi_wf R (ClearValues R b f)"
  by (auto simp: bsi_wf_def ClearValues_def)

lemma ClearValues_val [bsi_simps]:
  "bsi_val R (ClearValues R b f) = bsi_val R b |` (- bm_set R f)"
proof
  fix c
  have "\<not> bm_contains R f c \<Longrightarrow>
      col_word R (map (\<lambda>s. bm_andnot R s f) (bA b)) c = col_word R (bA b) c"
    by (rule col_word_cong) auto
  then show "bsi_val R (ClearValues R b f) c = (bsi_val R b |` (- bm_set R f)) c"
    by (simp add: bsi_val_def ClearValues_def restrict_map_def)
qed

lemma NewBSIRetainSet_wf: "bsi_wf R b \<Longrightarrow> bsi_wf R (NewBSIRetainSet R b f)"
  by (auto simp: bsi_wf_def NewBSIRetainSet_def)

lemma NewBSIRetainSet_val [bsi_simps]:
  "bsi_val R (NewBSIRetainSet R b f) = bsi_val R b |` bm_set R f"
proof
  fix c
  have "bm_contains R f c \<Longrightarrow>
      col_word R (map (\<lambda>s. bm_and R s f) (bA b)) c = col_word R (bA b) c"
    by (rule col_word_cong) auto
  then show "bsi_val R (NewBSIRetainSet R b f) c = (bsi_val R b |` bm_set R f) c"
    by (simp add: bsi_val_def NewBSIRetainSet_def restrict_map_def)
qed

lemma Clone_val [bsi_simps]: "bsi_val R (Clone R b) = bsi_val R b"
  by (rule ext) (simp add: Clone_def bsi_simps restrict_map_def, simp add: bsi_val_def)

lemma RunOptimize_wf: "bsi_wf R b \<Longrightarrow> bsi_wf R (RunOptimize R b)"
  by (auto simp: bsi_wf_def RunOptimize_def)

lemma RunOptimize_val [bsi_simps]: "bsi_val R (RunOptimize R b) = bsi_val R b"
proof
  fix c
  have "col_word R (map (bm_run_optimize R) (bA b)) c = col_word R (bA b) c"
    by (rule col_word_cong) auto
  then show "bsi_val R (RunOptimize R b) c = bsi_val R b c"
    by (simp add: bsi_val_def RunOptimize_def)
qed

end

end
