(* ===== verification/Bsi_Compare.thy ===== *)
theory Bsi_Compare
  imports Bsi
begin

text \<open>
  Queries over a bit sliced index (\<open>src/bsi/bsi.go\<close>): the executor that splits a found set
  into batches, the bitwise comparison of every column with one or two values, the test for
  membership in a list of values, and the transposition of values into a bitmap.

  The goroutines of an executor only read the index and each sends one bitmap, so a batch is
  a function call here and the executor is the union of the results; \<open>ParOr_order_irrelevant\<close>
  is the reason their order of arrival does not matter. \<open>None\<close> is a panic in a goroutine.
\<close>

subsection \<open>Tasks and the executor\<close>

datatype Operation = LT | LE | EQ | GE | GT | RANGE | MIN' | MAX'

record 'b task =
  task_bsi :: "'b bsi"
  task_op :: Operation
  valueOrStart :: i64
  task_end :: i64
  task_values :: "i64 list"

text \<open>
  The batches of \<open>parallelExecutor\<close>: \<open>x\<close> columns each, and the remainder with the last. The
  first argument counts the batches left, so it is 1 when Go's \<open>i == n-1\<close>.
\<close>

fun batches :: "nat \<Rightarrow> nat \<Rightarrow> nat \<Rightarrow> u32 list \<Rightarrow> u32 list list" where
  "batches 0 x remainder cols = []"
| "batches (Suc k) x remainder cols =
     (let size = (if k = 0 then x + remainder else x)
      in take size cols # batches k x remainder (drop size cols))"

definition threads :: "nat \<Rightarrow> nat \<Rightarrow> nat" where
  "threads numCPU parallelism = (if parallelism = 0 then numCPU else parallelism)"

definition split_found :: "'b roaring \<Rightarrow> nat \<Rightarrow> 'b \<Rightarrow> u32 list list" where
  "split_found R n foundSet =
     (let card = bm_cardinality R foundSet; x = card div n; remainder = card - x * n
      in batches n x remainder (bm_to_list R foundSet))"

definition parallelExecutor ::
  "'b roaring \<Rightarrow> nat \<Rightarrow> nat \<Rightarrow> 'b task \<Rightarrow> ('b task \<Rightarrow> u32 list \<Rightarrow> 'b option) \<Rightarrow> 'b \<Rightarrow> 'b option" where
  "parallelExecutor R numCPU parallelism t e foundSet =
     (let n = threads numCPU parallelism
      in map_option (bm_par_or R) (those (map (e t) (split_found R n foundSet))))"

subsection \<open>Comparing one column\<close>

record cmp_flags =
  eq1 :: bool
  eq2 :: bool
  lt1 :: bool
  lt2 :: bool
  gt1 :: bool

definition init_flags :: cmp_flags where
  "init_flags = \<lparr>eq1 = True, eq2 = True, lt1 = False, lt2 = False, gt1 = False\<rparr>"

text \<open>
  One round of the loop over the bits, in its two halves: against the (start) value and, for
  RANGE, against the end value. The second component says whether the half ends with a
  \<open>break\<close>.
\<close>

definition start_half ::
  "Operation \<Rightarrow> bool \<Rightarrow> bool \<Rightarrow> bool \<Rightarrow> bool \<Rightarrow> cmp_flags \<Rightarrow> cmp_flags \<times> bool" where
  "start_half op startIsNegative isNegative valueBit sliceContainsBit f =
     (if valueBit then
        (if \<not> sliceContainsBit \<and> eq1 f then
           (let f = (if (op = GT \<or> op = GE \<or> op = RANGE) \<and> startIsNegative \<and> \<not> isNegative
                     then f\<lparr>gt1 := True\<rparr> else f);
                f = (if (op = LT \<or> op = LE) \<and> (\<not> startIsNegative \<or> startIsNegative = isNegative)
                     then f\<lparr>lt1 := True\<rparr> else f)
            in (f\<lparr>eq1 := False\<rparr>, True))
         else (f, False))
      else
        (if sliceContainsBit \<and> eq1 f then
           (let f = (if (op = LT \<or> op = LE) \<and> isNegative \<and> \<not> startIsNegative
                     then f\<lparr>lt1 := True\<rparr> else f);
                f = (if (op = GT \<or> op = GE \<or> op = RANGE) \<and>
                       (startIsNegative \<or> startIsNegative = isNegative)
                     then f\<lparr>gt1 := True\<rparr> else f)
            in (f\<lparr>eq1 := False\<rparr>, op \<noteq> RANGE))
         else (f, False)))"

definition end_half ::
  "Operation \<Rightarrow> bool \<Rightarrow> bool \<Rightarrow> bool \<Rightarrow> bool \<Rightarrow> bool \<Rightarrow> cmp_flags \<Rightarrow> cmp_flags \<times> bool" where
  "end_half op startIsNegative endIsNegative isNegative valueBit sliceContainsBit f =
     (if op = RANGE \<and> valueBit then
        (if \<not> sliceContainsBit \<and> eq2 f then
           (let f = (if \<not> endIsNegative \<or> endIsNegative = isNegative
                     then f\<lparr>lt2 := True\<rparr> else f)
            in (f\<lparr>eq2 := False\<rparr>, startIsNegative \<and> \<not> endIsNegative))
         else (f, False))
      else if op = RANGE then
        (if sliceContainsBit \<and> eq2 f then
           (let f = (if isNegative \<and> \<not> endIsNegative then f\<lparr>lt2 := True\<rparr> else f)
            in (f\<lparr>eq2 := False\<rparr>, True))
         else (f, False))
      else (f, False))"

text \<open>\<open>for ; j >= 0; j--\<close>; the number counts the bits left, so \<open>Suc j\<close> is the round for bit \<open>j\<close>.\<close>

fun compare_bits ::
  "'b roaring \<Rightarrow> 'b list \<Rightarrow> u32 \<Rightarrow> Operation \<Rightarrow> bool \<Rightarrow> bool \<Rightarrow> bool \<Rightarrow> i64 \<Rightarrow> i64 \<Rightarrow>
   nat \<Rightarrow> cmp_flags \<Rightarrow> cmp_flags" where
  "compare_bits R ba cID op sNeg eNeg isNeg compStart compEnd 0 f = f"
| "compare_bits R ba cID op sNeg eNeg isNeg compStart compEnd (Suc j) f =
     (let sliceContainsBit = (if length ba \<le> j then False else bm_contains R (ba ! j) cID);
          (f, stop) = start_half op sNeg isNeg (mask_test compStart j) sliceContainsBit f
      in if stop then f else
         let (f, stop) = end_half op sNeg eNeg isNeg (mask_test compEnd j) sliceContainsBit f
         in if stop then f
            else compare_bits R ba cID op sNeg eNeg isNeg compStart compEnd j f)"

text \<open>The final \<open>switch e.op\<close>: whether the column is added, or a panic for another operation.\<close>

fun select_column :: "Operation \<Rightarrow> bool \<Rightarrow> bool \<Rightarrow> cmp_flags \<Rightarrow> bool option" where
  "select_column LT sNeg isNeg f = Some (lt1 f)"
| "select_column LE sNeg isNeg f = Some (lt1 f \<or> (eq1 f \<and> (\<not> sNeg \<or> (sNeg \<and> isNeg))))"
| "select_column EQ sNeg isNeg f = Some (eq1 f)"
| "select_column GE sNeg isNeg f = Some (gt1 f \<or> (eq1 f \<and> (sNeg \<or> (\<not> sNeg \<and> \<not> isNeg))))"
| "select_column GT sNeg isNeg f = Some (gt1 f)"
| "select_column RANGE sNeg isNeg f = Some ((eq1 f \<or> gt1 f) \<and> (eq2 f \<or> lt2 f))"
| "select_column op sNeg isNeg f = None"

definition compare_width :: "'b task \<Rightarrow> nat" where
  "compare_width t =
     (let bits = Len64 (if task_op t = RANGE then task_end t else valueOrStart t)
      in if bits > BitCount (task_bsi t) then bits else BitCount (task_bsi t))"

definition compare_column :: "'b roaring \<Rightarrow> 'b task \<Rightarrow> u32 \<Rightarrow> bool option" where
  "compare_column R t cID =
     (let b = task_bsi t; op = task_op t; x = compare_width t;
          startIsNegative = (x = 64 \<and> mask_test (valueOrStart t) (x - 1));
          endIsNegative = (x = 64 \<and> mask_test (task_end t) (x - 1));
          isNegative = (x = 64 \<and> 63 < BitCount b \<and> bm_contains R (bA b ! 63) cID);
          bits = (if x = 64 then 63 else x);
          compStartValue = (if isNegative \<noteq> startIsNegative
                            then NOT (valueOrStart t) + 1 else valueOrStart t);
          compEndValue = (if isNegative \<noteq> endIsNegative then NOT (task_end t) + 1 else task_end t);
          f = compare_bits R (bA b) cID op startIsNegative endIsNegative isNegative
                compStartValue compEndValue bits init_flags
      in select_column op startIsNegative isNegative f)"

subsection \<open>Comparing a batch, and the whole index\<close>

fun compare_loop :: "'b roaring \<Rightarrow> 'b task \<Rightarrow> u32 list \<Rightarrow> 'b \<Rightarrow> 'b option" where
  "compare_loop R t [] results = Some results"
| "compare_loop R t (cID # batch) results =
     (case compare_column R t cID of None \<Rightarrow> None
      | Some sel \<Rightarrow> compare_loop R t batch (if sel then bm_add R results cID else results))"

definition new_results :: "'b roaring \<Rightarrow> 'b task \<Rightarrow> 'b" where
  "new_results R t = (if runOptimized (task_bsi t) then bm_run_optimize R (bm_new R) else bm_new R)"

definition compareValue :: "'b roaring \<Rightarrow> 'b task \<Rightarrow> u32 list \<Rightarrow> 'b option" where
  "compareValue R t batch =
     (if batch = [] then Some (new_results R t) else compare_loop R t batch (new_results R t))"

definition CompareValue ::
  "'b roaring \<Rightarrow> nat \<Rightarrow> 'b bsi \<Rightarrow> nat \<Rightarrow> Operation \<Rightarrow> i64 \<Rightarrow> i64 \<Rightarrow> 'b option \<Rightarrow> 'b option" where
  "CompareValue R numCPU b parallelism op start end' foundSet =
     (let comp = \<lparr>task_bsi = b, task_op = op, valueOrStart = start, task_end = end', task_values = []\<rparr>
      in case foundSet of
           None \<Rightarrow> parallelExecutor R numCPU parallelism comp (compareValue R) (eBM b)
         | Some fs \<Rightarrow> parallelExecutor R numCPU parallelism comp (compareValue R) fs)"

subsection \<open>Membership in a list of values, and transposition\<close>

text \<open>
  The fields of a task that these operations do not read (\<open>op\<close>, \<open>valueOrStart\<close>, \<open>end\<close>) are
  left at a default, as in Go.
\<close>

fun batch_equal_loop :: "'b roaring \<Rightarrow> 'b task \<Rightarrow> u32 list \<Rightarrow> 'b \<Rightarrow> 'b" where
  "batch_equal_loop R t [] results = results"
| "batch_equal_loop R t (cID # batch) results =
     (let (value, ok) = GetValue R (task_bsi t) (ucast cID)
      in batch_equal_loop R t batch
           (if ok \<and> value \<in> set (task_values t) then bm_add R results cID else results))"

definition batchEqual :: "'b roaring \<Rightarrow> 'b task \<Rightarrow> u32 list \<Rightarrow> 'b option" where
  "batchEqual R t batch = Some (batch_equal_loop R t batch (new_results R t))"

definition BatchEqual :: "'b roaring \<Rightarrow> nat \<Rightarrow> 'b bsi \<Rightarrow> nat \<Rightarrow> i64 list \<Rightarrow> 'b option" where
  "BatchEqual R numCPU b parallelism values =
     (let comp = \<lparr>task_bsi = b, task_op = LT, valueOrStart = 0, task_end = 0, task_values = values\<rparr>
      in parallelExecutor R numCPU parallelism comp (batchEqual R) (eBM b))"

fun transpose_loop :: "'b roaring \<Rightarrow> 'b task \<Rightarrow> u32 list \<Rightarrow> 'b \<Rightarrow> 'b" where
  "transpose_loop R t [] results = results"
| "transpose_loop R t (cID # batch) results =
     (let (value, ok) = GetValue R (task_bsi t) (ucast cID)
      in transpose_loop R t batch (if ok then bm_add R results (ucast value) else results))"

definition transpose_batch :: "'b roaring \<Rightarrow> 'b task \<Rightarrow> u32 list \<Rightarrow> 'b option" where
  "transpose_batch R t batch = Some (transpose_loop R t batch (new_results R t))"

definition IntersectAndTranspose ::
  "'b roaring \<Rightarrow> nat \<Rightarrow> 'b bsi \<Rightarrow> nat \<Rightarrow> 'b option \<Rightarrow> 'b option" where
  "IntersectAndTranspose R numCPU b parallelism foundSet =
     (let fs = (case foundSet of None \<Rightarrow> eBM b | Some fs \<Rightarrow> fs);
          trans = \<lparr>task_bsi = b, task_op = LT, valueOrStart = 0, task_end = 0, task_values = []\<rparr>
      in parallelExecutor R numCPU parallelism trans (transpose_batch R) fs)"

definition Transpose :: "'b roaring \<Rightarrow> nat \<Rightarrow> 'b bsi \<Rightarrow> 'b option" where
  "Transpose R numCPU b = IntersectAndTranspose R numCPU b 0 (Some (eBM b))"

subsection \<open>Comparing words bit by bit from the top\<close>

lemma take_bit_Suc_cmp:
  fixes a b :: nat
  shows "bit a n = bit b n \<Longrightarrow>
      (take_bit (Suc n) a < take_bit (Suc n) b \<longleftrightarrow> take_bit n a < take_bit n b) \<and>
      (take_bit (Suc n) a = take_bit (Suc n) b \<longleftrightarrow> take_bit n a = take_bit n b)"
    and "\<not> bit a n \<Longrightarrow> bit b n \<Longrightarrow> take_bit (Suc n) a < take_bit (Suc n) b"
  using take_bit_nat_less_exp [of n a] take_bit_nat_less_exp [of n b]
  by (auto simp: take_bit_Suc_from_most trans_less_add1)

text \<open>The low \<open>n\<close> bits of a column, and of a value.\<close>

abbreviation low :: "nat \<Rightarrow> u64 \<Rightarrow> nat" where
  "low n w \<equiv> take_bit n (unat w)"

lemma low_Suc_cmp:
  "n < 64 \<Longrightarrow> bit a n = bit b n \<Longrightarrow> (low (Suc n) a < low (Suc n) b \<longleftrightarrow> low n a < low n b) \<and>
     (low (Suc n) a = low (Suc n) b \<longleftrightarrow> low n a = low n b)"
  "n < 64 \<Longrightarrow> \<not> bit a n \<Longrightarrow> bit b n \<Longrightarrow> low (Suc n) a < low (Suc n) b"
  for a b :: u64
  using take_bit_Suc_cmp [of "unat a" n "unat b"] by (simp_all add: bit_unsigned_iff)

text \<open>What the comparison with one value leaves in the flags: it stops at the topmost bit
  where the column and the value differ.\<close>

definition cmp_result :: "Operation \<Rightarrow> bool \<Rightarrow> bool \<Rightarrow> bool \<Rightarrow> bool \<Rightarrow> cmp_flags" where
  "cmp_result op sNeg isNeg lessv greaterv =
     init_flags\<lparr>eq1 := \<not> lessv \<and> \<not> greaterv,
       lt1 := (op = LT \<or> op = LE) \<and>
              (lessv \<and> (\<not> sNeg \<or> sNeg = isNeg) \<or> greaterv \<and> isNeg \<and> \<not> sNeg),
       gt1 := (op = GT \<or> op = GE) \<and>
              (lessv \<and> sNeg \<and> \<not> isNeg \<or> greaterv \<and> (sNeg \<or> sNeg = isNeg))\<rparr>"

lemma cmp_result_simps [simp]:
  "eq1 (cmp_result op sNeg isNeg l g) \<longleftrightarrow> \<not> l \<and> \<not> g"
  "lt1 (cmp_result op sNeg isNeg l g) \<longleftrightarrow> (op = LT \<or> op = LE) \<and>
     (l \<and> (\<not> sNeg \<or> sNeg = isNeg) \<or> g \<and> isNeg \<and> \<not> sNeg)"
  "gt1 (cmp_result op sNeg isNeg l g) \<longleftrightarrow> (op = GT \<or> op = GE) \<and>
     (l \<and> sNeg \<and> \<not> isNeg \<or> g \<and> (sNeg \<or> sNeg = isNeg))"
  by (simp_all add: cmp_result_def init_flags_def)

lemma half_simps [simp]:
  "start_half op sNeg isNeg v v f = (f, False)"
  "op \<noteq> RANGE \<Longrightarrow> end_half op sNeg eNeg isNeg v sl f = (f, False)"
  by (simp_all add: start_half_def end_half_def)

lemma compare_bits_step:
  assumes "n < 64"
  shows "compare_bits R ba cID op sNeg eNeg isNeg s e (Suc n) f =
    (let (f, stop) = start_half op sNeg isNeg (bit s n) (bit (col_word R ba cID) n) f
     in if stop then f else
        let (f, stop) = end_half op sNeg eNeg isNeg (bit e n) (bit (col_word R ba cID) n) f
        in if stop then f else compare_bits R ba cID op sNeg eNeg isNeg s e n f)"
proof -
  have "(if length ba \<le> n then False else bm_contains R (ba ! n) cID) = bit (col_word R ba cID) n"
    using assms by (auto simp: bit_col_word)
  then show ?thesis
    by (simp only: compare_bits.simps Let_def mask_test_eq)
qed

declare compare_bits.simps(2) [simp del]

lemma compare_bits_single:
  assumes "op \<noteq> RANGE" and "n \<le> 64"
  shows "compare_bits R ba cID op sNeg eNeg isNeg s e n init_flags =
    cmp_result op sNeg isNeg (low n (col_word R ba cID) < low n s)
      (low n s < low n (col_word R ba cID))"
  using assms(2)
proof (induction n)
  case 0
  then show ?case by (simp add: cmp_result_def init_flags_def)
next
  case (Suc n)
  let ?v = "col_word R ba cID"
  have n: "n < 64" using Suc.prems by simp
  consider "bit ?v n = bit s n" | "bit ?v n" "\<not> bit s n" | "\<not> bit ?v n" "bit s n" by blast
  then show ?case
  proof cases
    case 1
    with Suc low_Suc_cmp(1) [OF n, of ?v s] low_Suc_cmp(1) [OF n, of s ?v] assms(1)
    show ?thesis by (simp add: compare_bits_step [OF n])
  next
    case 2
    with low_Suc_cmp(2) [OF n, of s ?v] assms(1) show ?thesis
      by (simp add: compare_bits_step [OF n])
        (auto simp: Let_def start_half_def init_flags_def cmp_result_def)
  next
    case 3
    with low_Suc_cmp(2) [OF n, of ?v s] assms(1) show ?thesis
      by (simp add: compare_bits_step [OF n])
        (auto simp: Let_def start_half_def init_flags_def cmp_result_def)
  qed
qed

text \<open>
  RANGE tracks both bounds at once. Each bound is in one of two live states (still equal, or
  already strictly inside), and the loop stops when a bound is violated.
\<close>

definition range_flags :: "bool \<Rightarrow> bool \<Rightarrow> cmp_flags" where
  "range_flags e1 e2 = \<lparr>eq1 = e1, eq2 = e2, lt1 = False, lt2 = \<not> e2, gt1 = \<not> e1\<rparr>"

definition range_ok :: "cmp_flags \<Rightarrow> bool" where
  "range_ok f \<longleftrightarrow> (eq1 f \<or> gt1 f) \<and> (eq2 f \<or> lt2 f)"

lemma range_step:
  assumes "n < 64"
  shows "range_ok (compare_bits R ba cID RANGE False False False s e (Suc n) (range_flags e1 e2)) \<longleftrightarrow>
    (let v = bit (col_word R ba cID) n in
       \<not> (e1 \<and> bit s n \<and> \<not> v) \<and> \<not> (e2 \<and> \<not> bit e n \<and> v) \<and>
       range_ok (compare_bits R ba cID RANGE False False False s e n
         (range_flags (e1 \<and> bit s n = v) (e2 \<and> bit e n = v))))"
  by (cases "bit (col_word R ba cID) n"; cases "bit s n"; cases "bit e n"; cases e1; cases e2)
    (simp_all add: compare_bits_step [OF assms] start_half_def end_half_def Let_def
      range_flags_def range_ok_def)

lemma compare_bits_range:
  assumes "n \<le> 64"
  shows "range_ok (compare_bits R ba cID RANGE False False False s e n (range_flags e1 e2)) \<longleftrightarrow>
    (e1 \<longrightarrow> low n s \<le> low n (col_word R ba cID)) \<and>
    (e2 \<longrightarrow> low n (col_word R ba cID) \<le> low n e)"
  using assms
proof (induction n arbitrary: e1 e2)
  case 0
  then show ?case by (auto simp: range_ok_def range_flags_def)
next
  case (Suc n)
  let ?v = "col_word R ba cID"
  have n: "n < 64" using Suc.prems by simp
  note cmp = low_Suc_cmp(1) [OF n, of ?v s] low_Suc_cmp(1) [OF n, of e ?v]
    low_Suc_cmp(2) [OF n, of ?v s] low_Suc_cmp(2) [OF n, of s ?v]
    low_Suc_cmp(2) [OF n, of ?v e] low_Suc_cmp(2) [OF n, of e ?v]
  show ?case
    using Suc.prems cmp
    by (cases "bit ?v n"; cases "bit s n"; cases "bit e n")
      (auto simp: range_step [OF n] Suc.IH Let_def not_le [symmetric])
qed

subsection \<open>What a comparison means\<close>

text \<open>
  Two words of opposite signs that agree in the low 63 bits once the second is negated, as
  \<open>5\<close> and \<open>-5\<close> do. On such a pair the loop finds no differing bit: LE and GE still answer by the
  signs, but LT and GT miss the pair and EQ takes it for equal.
\<close>

definition mirrored :: "i64 \<Rightarrow> i64 \<Rightarrow> bool" where
  "mirrored v s \<longleftrightarrow> bit v 63 \<noteq> bit s 63 \<and> low 63 v = low 63 (- s)"

fun cmp_spec :: "Operation \<Rightarrow> i64 \<Rightarrow> i64 \<Rightarrow> bool" where
  "cmp_spec LT v s \<longleftrightarrow> sint v < sint s \<and> \<not> mirrored v s"
| "cmp_spec LE v s \<longleftrightarrow> sint v \<le> sint s"
| "cmp_spec EQ v s \<longleftrightarrow> v = s \<or> mirrored v s"
| "cmp_spec GE v s \<longleftrightarrow> sint s \<le> sint v"
| "cmp_spec GT v s \<longleftrightarrow> sint s < sint v \<and> \<not> mirrored v s"
| "cmp_spec op v s \<longleftrightarrow> False"

lemma sint_less_iff:
  fixes v s :: i64
  shows "sint v < sint s \<longleftrightarrow> (bit v 63 \<and> \<not> bit s 63) \<or> (bit v 63 = bit s 63 \<and> low 63 v < low 63 s)"
  using take_bit_63_less [of v] take_bit_63_less [of s]
  by (auto simp: sint_split_top_bit)

lemma sint_le_iff:
  fixes v s :: i64
  shows "sint v \<le> sint s \<longleftrightarrow> (bit v 63 \<and> \<not> bit s 63) \<or> (bit v 63 = bit s 63 \<and> low 63 v \<le> low 63 s)"
  using sint_less_iff [of s v] by (auto simp: not_less [symmetric])

lemma word_eq_low_iff:
  fixes v s :: u64
  shows "v = s \<longleftrightarrow> bit v 63 = bit s 63 \<and> low 63 v = low 63 s"
proof
  assume "bit v 63 = bit s 63 \<and> low 63 v = low 63 s"
  then have "unat v = unat s"
    using unat_split_top_bit [of v] unat_split_top_bit [of s] by simp
  then show "v = s" by (simp add: word_unat_eq_iff)
qed simp

lemma low_of_width:
  assumes "Len64 w \<le> n"
  shows "low n w = unat w"
  using assms by (simp add: Len64_le_iff take_bit_nat_eq_self)

lemma Len64_col_word: "length ba \<le> 64 \<Longrightarrow> Len64 (col_word R ba c) \<le> length ba"
proof -
  have "take_bit (length ba) (col_word R ba c) = col_word R ba c"
    by (rule bit_word_eqI) (auto simp: bit_take_bit_iff bit_col_word)
  then have "take_bit (length ba) (unat (col_word R ba c)) = unat (col_word R ba c)"
    by (metis unsigned_take_bit_eq)
  then show ?thesis
    using take_bit_nat_less_exp [of "length ba" "unat (col_word R ba c)"]
    by (simp add: Len64_le_iff)
qed

lemma compare_column_single:
  assumes op: "task_op t \<in> {LT, LE, EQ, GE, GT}" and bc: "BitCount (task_bsi t) \<le> 64"
  shows "compare_column R t c =
    Some (cmp_spec (task_op t) (col_word R (bA (task_bsi t)) c) (valueOrStart t))"
proof -
  let ?b = "task_bsi t" and ?s = "valueOrStart t" and ?x = "compare_width t"
  let ?v = "col_word R (bA ?b) c"
  have x: "?x = max (Len64 ?s) (BitCount ?b)"
    using op by (auto simp: compare_width_def Let_def)
  have nR: "task_op t \<noteq> RANGE" using op by auto
  show ?thesis
  proof (cases "?x = 64")
    case True
    have isN: "(63 < BitCount ?b \<and> bm_contains R (bA ?b ! 63) c) = bit ?v 63"
      by (simp add: bit_col_word BitCount_def)
    show ?thesis
      using op True
      by (auto simp: compare_column_def Let_def isN compare_bits_single
          sint_less_iff sint_le_iff word_eq_low_iff [of ?v ?s] mirrored_def
          minus_eq_not_plus_1 [symmetric])
  next
    case False
    then have lt: "Len64 ?s < 64" "BitCount ?b < 64"
      using x bc Len64_le_64 [of ?s] by (auto simp: max_def less_le split: if_splits)
    have v: "Len64 ?v \<le> ?x"
      using Len64_col_word [of "bA ?b" R c] bc x by (simp add: BitCount_def)
    have low: "low ?x ?v = unat ?v" "low ?x ?s = unat ?s"
      using v x by (auto intro!: low_of_width)
    have nb: "\<not> bit ?v 63" "\<not> bit ?s 63"
      using lt v x bit_ge_Len64 [of ?v 63] bit_ge_Len64 [of ?s 63] by auto
    have low63: "low 63 ?v = unat ?v" "low 63 ?s = unat ?s"
      using nb unat_split_top_bit [of ?v] unat_split_top_bit [of ?s] by auto
    have "?x \<le> 64" using x bc by simp
    then show ?thesis
      using op False nb
      by (auto simp: compare_column_def Let_def compare_bits_single low
          sint_less_iff sint_le_iff word_eq_low_iff [of ?v ?s] mirrored_def low63)
  qed
qed

lemma sint_nonneg: "\<not> bit w 63 \<Longrightarrow> sint w = int (unat w)" for w :: i64
  using sint_split_top_bit [of w] unat_split_top_bit [of w] by simp

lemma sint_nonneg_iff: "0 \<le> sint w \<longleftrightarrow> \<not> bit w 63" for w :: i64
  using sint_split_top_bit [of w] take_bit_63_less [of w] by auto

lemma sint_le_unat_iff:
  "\<not> bit v 63 \<Longrightarrow> \<not> bit w 63 \<Longrightarrow> sint v \<le> sint w \<longleftrightarrow> unat v \<le> unat w" for v w :: i64
  using unat_split_top_bit [of v] unat_split_top_bit [of w] by (simp add: sint_le_iff)

text \<open>RANGE answers as documented when every stored value and both bounds are non-negative.\<close>

lemma compare_column_range:
  assumes op: "task_op t = RANGE" and bc: "BitCount (task_bsi t) \<le> 63"
    and bounds: "0 \<le> sint (valueOrStart t)" "sint (valueOrStart t) \<le> sint (task_end t)"
  shows "compare_column R t c =
    (let v = sint (col_word R (bA (task_bsi t)) c)
     in Some (sint (valueOrStart t) \<le> v \<and> v \<le> sint (task_end t)))"
proof -
  let ?b = "task_bsi t" and ?s = "valueOrStart t" and ?e = "task_end t"
  let ?v = "col_word R (bA ?b) c" and ?x = "compare_width t"
  have nb: "\<not> bit ?s 63" "\<not> bit ?e 63"
    using bounds by (auto simp: sint_nonneg_iff [symmetric])
  have x: "?x = max (Len64 ?e) (BitCount ?b)"
    using op by (auto simp: compare_width_def Let_def)
  have lt: "?x < 64"
    using x bc nb Len64_less_64_iff [of ?e] by simp
  have "Len64 ?v \<le> ?x"
    using Len64_col_word [of "bA ?b" R c] bc x by (simp add: BitCount_def)
  moreover have "Len64 ?s \<le> ?x"
  proof -
    have "unat ?s \<le> unat ?e" using bounds(2) nb
      by (simp add: sint_le_unat_iff)
    then have "Len64 ?s \<le> Len64 ?e"
      using Len64_le_iff [of ?e "Len64 ?e"] Len64_le_iff [of ?s "Len64 ?e"] by simp
    then show ?thesis using x by simp
  qed
  ultimately have low: "low ?x ?v = unat ?v" "low ?x ?s = unat ?s" "low ?x ?e = unat ?e"
    using x by (auto intro!: low_of_width)
  have nv: "\<not> bit ?v 63"
    using bc by (simp add: bit_col_word BitCount_def)
  have init: "init_flags = range_flags True True"
    by (simp add: init_flags_def range_flags_def)
  have "range_ok (compare_bits R (bA ?b) c RANGE False False False ?s ?e ?x init_flags) \<longleftrightarrow>
      unat ?s \<le> unat ?v \<and> unat ?v \<le> unat ?e"
    using lt by (simp add: init compare_bits_range low)
  then show ?thesis
    using op lt nv nb
    by (simp add: compare_column_def Let_def range_ok_def sint_le_unat_iff)
qed

subsection \<open>The executor is the union over the found set\<close>

lemma concat_batches:
  "0 < n \<Longrightarrow> length cols = n * x + r \<Longrightarrow> concat (batches n x r cols) = cols"
proof (induction n x r cols rule: batches.induct)
  case (2 k x r cols)
  show ?case
  proof (cases "k = 0")
    case True
    with 2 show ?thesis by simp
  next
    case False
    with 2 have "concat (batches k x r (drop x cols)) = drop x cols" by simp
    with False show ?thesis by simp
  qed
qed simp

context roaring_bitmap
begin

lemma concat_split_found: "0 < n \<Longrightarrow> concat (split_found R n fs) = bm_to_list R fs"
  unfolding split_found_def Let_def
proof (rule concat_batches)
  let ?c = "bm_cardinality R fs"
  have "n * (?c div n) + (?c - ?c div n * n) = ?c"
    by (metis le_add_diff_inverse mult.commute div_times_less_eq_dividend)
  then show "length (bm_to_list R fs) = n * (?c div n) + (?c - ?c div n * n)"
    by (simp only: cardinality_length)
qed

lemma ParOr_order_irrelevant:
  "mset rs = mset rs' \<Longrightarrow> bm_set R (bm_par_or R rs) = bm_set R (bm_par_or R rs')"
  using mset_eq_setD [of rs rs'] by simp

lemma those_union:
  assumes "\<And>batch. batch \<in> set bs \<Longrightarrow> \<exists>r. e batch = Some r \<and> bm_set R r = \<Union> (G ` set batch)"
  shows "\<exists>rs. those (map e bs) = Some rs \<and> (\<Union>r \<in> set rs. bm_set R r) = \<Union> (G ` set (concat bs))"
  using assms
proof (induction bs)
  case (Cons b bs)
  from Cons.prems [of b] obtain r where r: "e b = Some r" "bm_set R r = \<Union> (G ` set b)" by auto
  from Cons obtain rs where "those (map e bs) = Some rs"
    "(\<Union>r \<in> set rs. bm_set R r) = \<Union> (G ` set (concat bs))" by auto
  with r show ?case by (auto simp: image_Un)
qed simp

lemma parallelExecutor_union:
  assumes "0 < threads numCPU p"
    and "\<And>batch. set batch \<subseteq> bm_set R fs \<Longrightarrow>
      \<exists>r. e t batch = Some r \<and> bm_set R r = \<Union> (G ` set batch)"
  shows "\<exists>r. parallelExecutor R numCPU p t e fs = Some r \<and> bm_set R r = \<Union> (G ` bm_set R fs)"
proof -
  let ?bs = "split_found R (threads numCPU p) fs"
  have c: "concat ?bs = bm_to_list R fs" using assms(1) by (rule concat_split_found)
  have "set batch \<subseteq> bm_set R fs" if "batch \<in> set ?bs" for batch
  proof -
    have "set batch \<subseteq> set (concat ?bs)" using that by auto
    then show ?thesis by (simp add: c)
  qed
  then have "\<exists>rs. those (map (e t) ?bs) = Some rs \<and>
      (\<Union>r \<in> set rs. bm_set R r) = \<Union> (G ` set (concat ?bs))"
    by (intro those_union assms(2)) auto
  then show ?thesis
    by (auto simp: parallelExecutor_def Let_def c)
qed

lemma new_results_set [simp]: "bm_set R (new_results R t) = {}"
  by (simp add: new_results_def)

lemma compare_loop_set:
  assumes "\<And>c. c \<in> set batch \<Longrightarrow> compare_column R t c = Some (P c)"
  shows "\<exists>r. compare_loop R t batch res = Some r \<and>
    bm_set R r = bm_set R res \<union> {c \<in> set batch. P c}"
  using assms
proof (induction batch arbitrary: res)
  case (Cons c batch)
  let ?res = "if P c then bm_add R res c else res"
  from Cons.prems have "\<And>d. d \<in> set batch \<Longrightarrow> compare_column R t d = Some (P d)" by simp
  from Cons.IH [OF this, of ?res] obtain r where "compare_loop R t batch ?res = Some r"
    "bm_set R r = bm_set R ?res \<union> {c \<in> set batch. P c}" by blast
  with Cons.prems [of c] show ?case by (auto split: if_splits)
qed simp

lemma compareValue_set:
  assumes "\<And>c. c \<in> set batch \<Longrightarrow> compare_column R t c = Some (P c)"
  shows "\<exists>r. compareValue R t batch = Some r \<and> bm_set R r = {c \<in> set batch. P c}"
  using compare_loop_set [OF assms, of batch "new_results R t"]
  by (auto simp: compareValue_def)

lemma CompareValue_filter:
  assumes n: "0 < threads numCPU p"
    and t: "t = \<lparr>task_bsi = b, task_op = op, valueOrStart = s, task_end = e, task_values = []\<rparr>"
    and P: "\<And>c. compare_column R t c = Some (P c)"
  shows "\<exists>r. CompareValue R numCPU b p op s e found = Some r \<and>
    bm_set R r = {c \<in> (case found of None \<Rightarrow> bm_set R (eBM b) | Some fs \<Rightarrow> bm_set R fs). P c}"
proof -
  have "\<exists>r. parallelExecutor R numCPU p t (compareValue R) fs = Some r \<and>
      bm_set R r = (\<Union>c \<in> bm_set R fs. if P c then {c} else {})" for fs
  proof (rule parallelExecutor_union [OF n])
    fix batch
    show "\<exists>r. compareValue R t batch = Some r \<and>
        bm_set R r = (\<Union>c \<in> set batch. if P c then {c} else {})"
      using compareValue_set [of batch t P] P by fastforce
  qed
  moreover have "(\<Union>c \<in> A. if P c then {c} else {}) = {c \<in> A. P c}" for A
    by (auto split: if_splits)
  ultimately show ?thesis
    by (cases found) (simp_all add: CompareValue_def t)
qed

text \<open>The specification of the single-value comparisons, for every \<open>int64\<close> value.\<close>

lemma CompareValue_single:
  assumes "0 < threads numCPU p" and "op \<in> {LT, LE, EQ, GE, GT}" and "BitCount b \<le> 64"
  shows "\<exists>r. CompareValue R numCPU b p op s e found = Some r \<and>
    bm_set R r = {c \<in> (case found of None \<Rightarrow> bm_set R (eBM b) | Some fs \<Rightarrow> bm_set R fs).
      cmp_spec op (col_word R (bA b) c) s}"
proof (rule CompareValue_filter [OF assms(1) refl])
  fix c
  let ?t = "\<lparr>task_bsi = b, task_op = op, valueOrStart = s, task_end = e, task_values = []\<rparr>"
  show "compare_column R ?t c = Some (cmp_spec op (col_word R (bA b) c) s)"
    using compare_column_single [of ?t R c] assms(2,3) by simp
qed

lemma CompareValue_range:
  assumes "0 < threads numCPU p" and "BitCount b \<le> 63" and "0 \<le> sint s" and "sint s \<le> sint e"
  shows "\<exists>r. CompareValue R numCPU b p RANGE s e found = Some r \<and>
    bm_set R r = {c \<in> (case found of None \<Rightarrow> bm_set R (eBM b) | Some fs \<Rightarrow> bm_set R fs).
      sint s \<le> sint (col_word R (bA b) c) \<and> sint (col_word R (bA b) c) \<le> sint e}"
proof (rule CompareValue_filter [OF assms(1) refl])
  fix c
  let ?t = "\<lparr>task_bsi = b, task_op = RANGE, valueOrStart = s, task_end = e, task_values = []\<rparr>"
  show "compare_column R ?t c = Some (sint s \<le> sint (col_word R (bA b) c) \<and>
      sint (col_word R (bA b) c) \<le> sint e)"
    using compare_column_range [of ?t R c] assms(2-4) by (simp add: Let_def)
qed

lemma batch_equal_loop_set:
  "bm_set R (batch_equal_loop R t batch res) =
     bm_set R res \<union> {c \<in> set batch. \<exists>v \<in> set (task_values t). bsi_val R (task_bsi t) c = Some v}"
  by (induction batch arbitrary: res)
    (auto simp: Let_def GetValue_bsi_val split: option.splits if_splits)

lemma BatchEqual_set:
  assumes "0 < threads numCPU p"
  shows "\<exists>r. BatchEqual R numCPU b p vs = Some r \<and>
    bm_set R r = {c. \<exists>v \<in> set vs. bsi_val R b c = Some v}"
proof -
  let ?t = "\<lparr>task_bsi = b, task_op = LT, valueOrStart = 0, task_end = 0, task_values = vs\<rparr>"
  let ?G = "\<lambda>c. if \<exists>v \<in> set vs. bsi_val R b c = Some v then {c} else {}"
  have "\<exists>r. parallelExecutor R numCPU p ?t (batchEqual R) (eBM b) = Some r \<and>
      bm_set R r = \<Union> (?G ` bm_set R (eBM b))"
    by (rule parallelExecutor_union [OF assms]) (auto simp: batchEqual_def batch_equal_loop_set)
  moreover have "\<Union> (?G ` bm_set R (eBM b)) = {c. \<exists>v \<in> set vs. bsi_val R b c = Some v}"
    by (auto simp: bsi_val_def split: if_splits)
  ultimately show ?thesis by (simp add: BatchEqual_def)
qed

lemma transpose_loop_set:
  "bm_set R (transpose_loop R t batch res) =
     bm_set R res \<union> {ucast v | v c. c \<in> set batch \<and> bsi_val R (task_bsi t) c = Some v}"
proof (induction batch arbitrary: res)
  case (Cons c batch)
  show ?case
    by (cases "bsi_val R (task_bsi t) c")
      (auto simp: Let_def GetValue_bsi_val Cons.IH)
qed simp

lemma IntersectAndTranspose_set:
  assumes "0 < threads numCPU p"
  shows "\<exists>r. IntersectAndTranspose R numCPU b p found = Some r \<and>
    bm_set R r = {ucast v | v c.
      c \<in> (case found of None \<Rightarrow> bm_set R (eBM b) | Some fs \<Rightarrow> bm_set R fs) \<and>
      bsi_val R b c = Some v}"
proof -
  let ?t = "\<lparr>task_bsi = b, task_op = LT, valueOrStart = 0, task_end = 0, task_values = []\<rparr>"
  let ?G = "\<lambda>c. {ucast v | v. bsi_val R b c = Some v}"
  let ?S = "\<lambda>A. {ucast v | v c. c \<in> A \<and> bsi_val R b c = Some v} :: u32 set"
  have S: "\<Union> (?G ` A) = ?S A" for A
    by auto
  have "\<exists>r. parallelExecutor R numCPU p ?t (transpose_batch R) fs = Some r \<and>
      bm_set R r = ?S (bm_set R fs)" for fs
    unfolding S [symmetric]
    by (rule parallelExecutor_union [OF assms]) (auto simp: transpose_batch_def transpose_loop_set)
  then show ?thesis
    by (cases found) (simp_all only: IntersectAndTranspose_def Let_def option.case)
qed

end

end
