(* ===== verification/Bsi_Arith.thy ===== *)
theory Bsi_Arith
  imports Bsi_Compare
begin

text \<open>
  Arithmetic on a bit sliced index (\<open>src/bsi/bsi.go\<close>): the ripple-carry addition of one bitmap
  (\<open>addDigit\<close>), \<open>Add\<close>, \<open>Increment\<close>, \<open>Sum\<close>, the concatenation \<open>ParOr\<close>, and
  \<open>TransposeWithCounts\<close>, which counts how often each value occurs.

  \<open>addDigit\<close> recurses until the carry is empty. It is a partial function with \<open>None\<close> for "panics
  or does not return", and \<open>addDigit_correct\<close> shows that it always returns.
\<close>

subsection \<open>Addition\<close>

partial_function (option) addDigit :: "'b roaring \<Rightarrow> 'b list \<Rightarrow> 'b \<Rightarrow> nat \<Rightarrow> 'b list option" where
  "addDigit R ba foundSet i =
     (let ba = (if length ba \<le> i then ba @ [bm_new R] else ba)
      in if i < length ba then
           (let carry = bm_and R (ba ! i) foundSet;
                ba = ba[i := bm_xor R (ba ! i) foundSet]
            in if \<not> bm_is_empty R carry then
                 addDigit R (if length ba \<le> i + 1 then ba @ [bm_new R] else ba) carry (i + 1)
               else Some ba)
         else None)"

text \<open>The loop of \<open>Add\<close> over the slices of the other index.\<close>

fun add_digits :: "'b roaring \<Rightarrow> 'b list \<Rightarrow> 'b list \<Rightarrow> nat \<Rightarrow> 'b list option" where
  "add_digits R ba [] i = Some ba"
| "add_digits R ba (d # ds) i =
     (case addDigit R ba d i of None \<Rightarrow> None | Some ba \<Rightarrow> add_digits R ba ds (Suc i))"

text \<open>Here \<open>other\<close> is another index, as the comment of the code says. Adding an index to itself is not this
  function: the loop then reads the slices it is writing, each carry appends one more, and a call on an
  index with a set bit does not return.\<close>

definition Add :: "'b roaring \<Rightarrow> 'b bsi \<Rightarrow> 'b bsi \<Rightarrow> 'b bsi option" where
  "Add R b other =
     map_option (\<lambda>ba. b\<lparr>eBM := bm_or R (eBM b) (eBM other), bA := ba\<rparr>)
       (add_digits R (bA b) (bA other) 0)"

definition Increment :: "'b roaring \<Rightarrow> 'b bsi \<Rightarrow> 'b option \<Rightarrow> 'b bsi option" where
  "Increment R b foundSet =
     (let fs = (case foundSet of None \<Rightarrow> eBM b | Some fs \<Rightarrow> fs)
      in map_option (\<lambda>ba. b\<lparr>bA := ba, eBM := bm_or R (eBM b) fs\<rparr>) (addDigit R (bA b) fs 0))"

definition IncrementAll :: "'b roaring \<Rightarrow> 'b bsi \<Rightarrow> 'b bsi option" where
  "IncrementAll R b = Increment R b (Some (GetExistenceBitmap b))"

subsection \<open>Sum\<close>

text \<open>One goroutine per slice adds \<open>int64(foundSet.AndCardinality(b.bA[j])<<uint(j))\<close>.\<close>

fun sum_slices :: "'b roaring \<Rightarrow> 'b \<Rightarrow> nat \<Rightarrow> 'b list \<Rightarrow> i64 \<Rightarrow> i64" where
  "sum_slices R fs j [] acc = acc"
| "sum_slices R fs j (s # ss) acc =
     sum_slices R fs (Suc j) ss (acc + push_bit j (of_nat (bm_and_cardinality R fs s)))"

definition Sum :: "'b roaring \<Rightarrow> 'b bsi \<Rightarrow> 'b option \<Rightarrow> i64 \<times> nat" where
  "Sum R b foundSet =
     (let fs = (case foundSet of None \<Rightarrow> eBM b | Some fs \<Rightarrow> fs)
      in (sum_slices R fs 0 (bA b) 0, bm_cardinality R fs))"

subsection \<open>Concatenation\<close>

text \<open>
  The slices number \<open>i\<close> that \<open>ParOr\<close> collects. When an index has no slice \<open>i\<close>, the list is
  replaced by one empty bitmap, and what was collected before is lost.
\<close>

fun collect_slices :: "'b roaring \<Rightarrow> bool \<Rightarrow> nat \<Rightarrow> 'b bsi list \<Rightarrow> 'b list \<Rightarrow> 'b list" where
  "collect_slices R ro i [] acc = acc"
| "collect_slices R ro i (x # xs) acc =
     collect_slices R ro i xs
       (if length (bA x) > i then acc @ [bA x ! i]
        else [if ro then bm_run_optimize R (bm_new R) else bm_new R])"

definition ParOr :: "'b roaring \<Rightarrow> 'b bsi \<Rightarrow> 'b bsi list \<Rightarrow> 'b bsi" where
  "ParOr R b bsis =
     (let bits = fold (\<lambda>x bits. if length (bA x) > bits then BitCount x else bits) bsis (length (bA b));
          newBm = (if runOptimized b then bm_run_optimize R (bm_new R) else bm_new R);
          ba = bA b @ replicate (bits - BitCount b) newBm;
          a = map (\<lambda>i. collect_slices R (runOptimized b) i bsis []) [0..<bits]
      in b\<lparr>bA := map (\<lambda>j. bm_par_or R (ba ! j # a ! j)) [0..<bits],
           eBM := bm_par_or R (eBM b # map eBM bsis)\<rparr>)"

subsection \<open>Counting values\<close>

fun count_loop :: "'b roaring \<Rightarrow> 'b bsi \<Rightarrow> u32 list \<Rightarrow> 'b bsi \<Rightarrow> 'b bsi option" where
  "count_loop R input [] results = Some results"
| "count_loop R input (cID # batch) results =
     (let (value, ok) = GetValue R input (ucast cID)
      in if ok then
           (let (val, ok2) = GetValue R results value;
                r = (if \<not> ok2 then SetValue R results value 1 else SetValue R results value (val + 1))
            in case r of None \<Rightarrow> None | Some results \<Rightarrow> count_loop R input batch results)
         else count_loop R input batch results)"

definition transposeWithCounts :: "'b roaring \<Rightarrow> 'b bsi \<Rightarrow> u32 list \<Rightarrow> 'b bsi option" where
  "transposeWithCounts R input batch =
     (let results = NewDefaultBSI R;
          results = (if runOptimized input then RunOptimize R results else results)
      in count_loop R input batch results)"

fun add_all :: "'b roaring \<Rightarrow> 'b bsi \<Rightarrow> 'b bsi list \<Rightarrow> 'b bsi option" where
  "add_all R results [] = Some results"
| "add_all R results (v # vs) =
     (case Add R results v of None \<Rightarrow> None | Some results \<Rightarrow> add_all R results vs)"

definition parallelExecutorBSIResults ::
  "'b roaring \<Rightarrow> nat \<Rightarrow> nat \<Rightarrow> 'b bsi \<Rightarrow> ('b bsi \<Rightarrow> u32 list \<Rightarrow> 'b bsi option) \<Rightarrow> 'b \<Rightarrow> bool \<Rightarrow>
   'b bsi option" where
  "parallelExecutorBSIResults R numCPU parallelism input e foundSet sumResults =
     (let n = threads numCPU parallelism
      in case those (map (e input) (split_found R n foundSet)) of
           None \<Rightarrow> None
         | Some ba \<Rightarrow> if sumResults then add_all R (NewDefaultBSI R) ba
                     else Some (ParOr R (NewDefaultBSI R) ba))"

definition TransposeWithCounts ::
  "'b roaring \<Rightarrow> nat \<Rightarrow> 'b bsi \<Rightarrow> nat \<Rightarrow> 'b option \<Rightarrow> 'b bsi option" where
  "TransposeWithCounts R numCPU b parallelism foundSet =
     (let fs = (case foundSet of None \<Rightarrow> eBM b | Some fs \<Rightarrow> fs)
      in parallelExecutorBSIResults R numCPU parallelism b (transposeWithCounts R) fs True)"

subsection \<open>Columns as natural numbers\<close>

definition col_nat :: "'b roaring \<Rightarrow> 'b list \<Rightarrow> u32 \<Rightarrow> nat" where
  "col_nat R ba c = horner_sum of_bool 2 (map (\<lambda>s. bm_contains R s c) ba)"

lemma col_nat_Nil [simp]: "col_nat R [] c = 0"
  by (simp add: col_nat_def)

lemma col_nat_Cons: "col_nat R (s # ba) c = of_bool (bm_contains R s c) + 2 * col_nat R ba c"
  by (simp add: col_nat_def)

lemma col_word_of_nat: "col_word R ba c = of_nat (col_nat R ba c)"
  by (rule bit_word_eqI)
    (auto simp: bit_col_word col_nat_def bit_simps bit_horner_sum_bit_iff)

lemma col_nat_update:
  "i < length ba \<Longrightarrow> col_nat R (ba[i := s]) c + 2 ^ i * of_bool (bm_contains R (ba ! i) c) =
     col_nat R ba c + 2 ^ i * of_bool (bm_contains R s c)"
proof (induction ba arbitrary: i)
  case (Cons t ba)
  show ?case
  proof (cases i)
    case 0
    then show ?thesis by (simp add: col_nat_Cons)
  next
    case (Suc j)
    then have "col_nat R (ba[j := s]) c + 2 ^ j * of_bool (bm_contains R (ba ! j) c) =
        col_nat R ba c + 2 ^ j * of_bool (bm_contains R s c)"
      using Cons by simp
    then show ?thesis using Suc by (simp add: col_nat_Cons)
  qed
qed simp

definition plus_val :: "i64 option \<Rightarrow> i64 option \<Rightarrow> i64 option" where
  "plus_val x y = (case (x, y) of (None, _) \<Rightarrow> y | (_, None) \<Rightarrow> x | (Some v, Some w) \<Rightarrow> Some (v + w))"

definition count_val :: "i64 option \<Rightarrow> nat \<Rightarrow> i64 option" where
  "count_val x n = (if n = 0 then x else Some ((case x of None \<Rightarrow> 0 | Some v \<Rightarrow> v) + of_nat n))"

definition occurrences :: "'b roaring \<Rightarrow> 'b bsi \<Rightarrow> u32 list \<Rightarrow> u32 \<Rightarrow> nat" where
  "occurrences R input batch k =
     length (filter (\<lambda>c. \<exists>v. bsi_val R input c = Some v \<and> ucast v = k) batch)"

context roaring_bitmap
begin

lemma col_nat_append_new [simp]: "col_nat R (ba @ [bm_new R]) c = col_nat R ba c"
  by (induction ba) (simp_all add: col_nat_Cons)

text \<open>Asking for slice \<open>length ba\<close> is the same on \<open>ba\<close> and on \<open>ba\<close> with an empty slice appended.\<close>

lemma addDigit_extend:
  "i \<le> length ba \<Longrightarrow>
     addDigit R (if length ba \<le> i then ba @ [bm_new R] else ba) fs i = addDigit R ba fs i"
  by (cases "length ba \<le> i") (simp_all add: addDigit.simps [of _ _ _ "length ba"] Let_def)

lemma is_empty_set: "bm_is_empty R b \<longleftrightarrow> bm_set R b = {}"
  by (auto simp: is_empty_iff)

lemma addDigit_correct:
  assumes "i \<le> length ba"
  shows "\<exists>ba'. addDigit R ba fs i = Some ba' \<and> i < length ba' \<and> length ba \<le> length ba' \<and>
    (\<forall>c. col_nat R ba' c = col_nat R ba c + 2 ^ i * of_bool (bm_contains R fs c)) \<and>
    (\<forall>s \<in> set ba'. bm_set R s \<subseteq> (\<Union>t \<in> set ba. bm_set R t) \<union> bm_set R fs)"
  using assms
proof (induction "length ba - i" arbitrary: ba fs i)
  case 0
  then have i: "i = length ba" by simp
  let ?ba = "(ba @ [bm_new R])[i := bm_xor R (bm_new R) fs]"
  have "col_nat R ?ba c = col_nat R ba c + 2 ^ i * of_bool (bm_contains R fs c)" for c
    using col_nat_update [of i "ba @ [bm_new R]" R "bm_xor R (bm_new R) fs" c] i
    by (simp add: nth_append)
  moreover have "addDigit R ba fs i = Some ?ba"
    using i by (simp add: addDigit.simps [of _ _ _ "length ba"] Let_def is_empty_set nth_append)
  moreover have "bm_set R s \<subseteq> (\<Union>t \<in> set ba. bm_set R t) \<union> bm_set R fs" if "s \<in> set ?ba" for s
    using that i by (auto simp: list_update_append bm_set_def)
  ultimately show ?case using i by auto
next
  case (Suc n)
  then have i: "i < length ba" by simp
  let ?carry = "bm_and R (ba ! i) fs"
  let ?ba = "ba[i := bm_xor R (ba ! i) fs]"
  have nat: "col_nat R ?ba c + 2 ^ Suc i * of_bool (bm_contains R ?carry c) =
      col_nat R ba c + 2 ^ i * of_bool (bm_contains R fs c)" for c
    using col_nat_update [OF i, of R "bm_xor R (ba ! i) fs" c]
    by (cases "bm_contains R (ba ! i) c"; cases "bm_contains R fs c") simp_all
  have sub: "bm_set R s \<subseteq> (\<Union>t \<in> set ba. bm_set R t) \<union> bm_set R fs" if "s \<in> set ?ba" for s
    using subsetD [OF set_update_subset_insert that] i nth_mem [OF i]
    by (auto simp: bm_set_def)
  have carry: "bm_set R ?carry \<subseteq> bm_set R fs" by auto
  have step: "addDigit R ba fs i =
      (if bm_set R ?carry = {} then Some ?ba else addDigit R ?ba ?carry (Suc i))"
    using i addDigit_extend [of "Suc i" ?ba ?carry]
    by (simp add: addDigit.simps [of R ba fs i] Let_def is_empty_set)
  show ?case
  proof (cases "bm_set R ?carry = {}")
    case True
    then have no: "\<not> bm_contains R ?carry c" for c by (metis empty_iff mem_bm_set)
    have "col_nat R ?ba c = col_nat R ba c + 2 ^ i * of_bool (bm_contains R fs c)" for c
      using nat [of c] unfolding of_bool_eq_0_iff [THEN iffD2, OF no] by simp
    with True step sub i show ?thesis by auto
  next
    case False
    from Suc(2) i have "n = length ?ba - Suc i" "Suc i \<le> length ?ba" by auto
    from Suc(1) [OF this, of ?carry] obtain ba' where ba': "addDigit R ?ba ?carry (Suc i) = Some ba'"
      "Suc i < length ba'" "length ?ba \<le> length ba'"
      "\<forall>c. col_nat R ba' c = col_nat R ?ba c + 2 ^ Suc i * of_bool (bm_contains R ?carry c)"
      "\<forall>s \<in> set ba'. bm_set R s \<subseteq> (\<Union>t \<in> set ?ba. bm_set R t) \<union> bm_set R ?carry" by blast
    have "(\<Union>t \<in> set ?ba. bm_set R t) \<union> bm_set R ?carry \<subseteq>
        (\<Union>t \<in> set ba. bm_set R t) \<union> bm_set R fs"
      using sub carry by blast
    then have "\<forall>s \<in> set ba'. bm_set R s \<subseteq> (\<Union>t \<in> set ba. bm_set R t) \<union> bm_set R fs"
      by (meson ba'(5) subset_trans)
    moreover have "col_nat R ba' c = col_nat R ba c + 2 ^ i * of_bool (bm_contains R fs c)" for c
      by (rule trans [OF spec [OF ba'(4)] nat])
    moreover have "addDigit R ba fs i = Some ba'" "i < length ba'" "length ba \<le> length ba'"
      using ba'(1-3) step False by auto
    ultimately show ?thesis by blast
  qed
qed

text \<open>The executable slices and the natural number of a column, under the invariant.\<close>

lemma bsi_wf_iff: "bsi_wf R b \<longleftrightarrow> (\<forall>s \<in> set (bA b). bm_set R s \<subseteq> bm_set R (eBM b))"
  unfolding bsi_wf_def bm_set_def by blast

lemma Increment_val:
  assumes "bsi_wf R b"
  shows "\<exists>b'. Increment R b found = Some b' \<and> bsi_wf R b' \<and>
    (let fs = (case found of None \<Rightarrow> eBM b | Some fs \<Rightarrow> fs)
     in \<forall>c. bsi_val R b' c =
       (if bm_contains R fs c then Some (case bsi_val R b c of None \<Rightarrow> 1 | Some v \<Rightarrow> v + 1)
        else bsi_val R b c))"
proof -
  let ?fs = "case found of None \<Rightarrow> eBM b | Some fs \<Rightarrow> fs"
  obtain ba' where ba': "addDigit R (bA b) ?fs 0 = Some ba'"
    and nat: "\<And>c. col_nat R ba' c = col_nat R (bA b) c + of_bool (bm_contains R ?fs c)"
    and sub: "\<forall>s \<in> set ba'. bm_set R s \<subseteq> (\<Union>t \<in> set (bA b). bm_set R t) \<union> bm_set R ?fs"
    using addDigit_correct [of 0 "bA b" ?fs] by auto
  let ?b = "b\<lparr>bA := ba', eBM := bm_or R (eBM b) ?fs\<rparr>"
  have inc: "Increment R b found = Some ?b"
    by (simp add: Increment_def ba')
  have wf: "bsi_wf R ?b"
    using assms sub by (fastforce simp: bsi_wf_iff)
  have "bsi_val R ?b c = (if bm_contains R ?fs c
      then Some (case bsi_val R b c of None \<Rightarrow> 1 | Some v \<Rightarrow> v + 1) else bsi_val R b c)" for c
    using col_word_absent [OF assms, of c]
    by (auto simp: bsi_val_def col_word_of_nat nat)
  with inc wf show ?thesis by (simp add: Let_def)
qed

lemma add_digits_correct:
  assumes "i \<le> length ba"
  shows "\<exists>ba'. add_digits R ba ds i = Some ba' \<and>
    (\<forall>c. col_nat R ba' c = col_nat R ba c + 2 ^ i * col_nat R ds c) \<and>
    (\<forall>s \<in> set ba'. bm_set R s \<subseteq> (\<Union>t \<in> set ba. bm_set R t) \<union> (\<Union>t \<in> set ds. bm_set R t))"
  using assms
proof (induction ds arbitrary: ba i)
  case (Cons d ds)
  from addDigit_correct [OF Cons.prems, of d] obtain ba1 where ba1:
    "addDigit R ba d i = Some ba1" "Suc i \<le> length ba1"
    "\<forall>c. col_nat R ba1 c = col_nat R ba c + 2 ^ i * of_bool (bm_contains R d c)"
    "\<forall>s \<in> set ba1. bm_set R s \<subseteq> (\<Union>t \<in> set ba. bm_set R t) \<union> bm_set R d"
    by (auto simp: Suc_le_eq)
  from Cons.IH [OF ba1(2)] obtain ba' where ba':
    "add_digits R ba1 ds (Suc i) = Some ba'"
    "\<forall>c. col_nat R ba' c = col_nat R ba1 c + 2 ^ Suc i * col_nat R ds c"
    "\<forall>s \<in> set ba'. bm_set R s \<subseteq> (\<Union>t \<in> set ba1. bm_set R t) \<union> (\<Union>t \<in> set ds. bm_set R t)"
    by blast
  have "(\<Union>t \<in> set ba1. bm_set R t) \<subseteq> (\<Union>t \<in> set ba. bm_set R t) \<union> bm_set R d"
    using ba1(4) by blast
  then have "\<forall>s \<in> set ba'. bm_set R s \<subseteq>
      (\<Union>t \<in> set ba. bm_set R t) \<union> (\<Union>t \<in> set (d # ds). bm_set R t)"
    using ba'(3) by fastforce
  with ba1 ba' show ?case by (simp add: col_nat_Cons algebra_simps)
qed auto

lemma col_word_add_digits:
  assumes "add_digits R ba ds 0 = Some ba'"
  shows "col_word R ba' c = col_word R ba c + col_word R ds c"
  using add_digits_correct [of 0 ba ds] assms by (auto simp: col_word_of_nat)

lemma Add_val:
  assumes "bsi_wf R b" and "bsi_wf R other"
  shows "\<exists>b'. Add R b other = Some b' \<and> bsi_wf R b' \<and>
    bsi_val R b' = (\<lambda>c. plus_val (bsi_val R b c) (bsi_val R other c))"
proof -
  obtain ba' where ba': "add_digits R (bA b) (bA other) 0 = Some ba'"
    and sub: "\<forall>s \<in> set ba'. bm_set R s \<subseteq>
      (\<Union>t \<in> set (bA b). bm_set R t) \<union> (\<Union>t \<in> set (bA other). bm_set R t)"
    using add_digits_correct [of 0 "bA b" "bA other"] by auto
  let ?b = "b\<lparr>eBM := bm_or R (eBM b) (eBM other), bA := ba'\<rparr>"
  have wf: "bsi_wf R ?b"
    using assms sub by (fastforce simp: bsi_wf_iff)
  have "bsi_val R ?b c = plus_val (bsi_val R b c) (bsi_val R other c)" for c
    using col_word_absent [OF assms(1), of c] col_word_absent [OF assms(2), of c]
    by (auto simp: bsi_val_def col_word_add_digits [OF ba'] plus_val_def)
  with wf show ?thesis by (auto simp: Add_def ba')
qed

lemma add_all_val:
  assumes "bsi_wf R r" and "\<forall>v \<in> set vs. bsi_wf R v"
  shows "\<exists>r'. add_all R r vs = Some r' \<and> bsi_wf R r' \<and>
    bsi_val R r' = (\<lambda>c. foldl plus_val (bsi_val R r c) (map (\<lambda>v. bsi_val R v c) vs))"
  using assms
proof (induction vs arbitrary: r)
  case (Cons v vs)
  then obtain r1 where r1: "Add R r v = Some r1" "bsi_wf R r1"
    "bsi_val R r1 = (\<lambda>c. plus_val (bsi_val R r c) (bsi_val R v c))"
    using Add_val [of r v] by auto
  with Cons.IH [of r1] Cons.prems show ?case by auto
qed auto

text \<open>\<open>Sum\<close> adds the stored values modulo \<open>2 ^ 64\<close>, which is Go's \<open>int64\<close> addition.\<close>

lemma finite_bm_set [simp]: "finite (bm_set R b)"
  by (metis List.finite_set set_to_list)

lemma sum_slices_eq:
  "sum_slices R fs j ss acc =
     acc + push_bit j (\<Sum>c \<in> bm_set R fs. col_word R ss c)"
proof (induction ss arbitrary: j acc)
  case Nil
  then show ?case by (simp add: col_word_of_nat)
next
  case (Cons s ss)
  have "(\<Sum>c \<in> bm_set R fs. col_word R (s # ss) c) =
      (\<Sum>c \<in> bm_set R fs. of_bool (bm_contains R s c)) +
      2 * (\<Sum>c \<in> bm_set R fs. col_word R ss c)"
    by (simp add: col_word_of_nat col_nat_Cons sum.distrib sum_distrib_left)
  moreover have "(\<Sum>c \<in> bm_set R fs. of_bool (bm_contains R s c)) =
      (of_nat (bm_and_cardinality R fs s) :: i64)"
    by (simp add: and_cardinality_card bm_set_def Int_def)
  ultimately show ?case
    by (simp add: Cons.IH push_bit_eq_mult algebra_simps)
qed

lemma Sum_val:
  "Sum R b found =
    (let fs = (case found of None \<Rightarrow> eBM b | Some fs \<Rightarrow> fs)
     in (\<Sum>c \<in> bm_set R fs. col_word R (bA b) c, card (bm_set R fs)))"
  by (simp add: Sum_def sum_slices_eq Let_def cardinality_card bm_set_def)

text \<open>
  \<open>ParOr\<close> is the union slice by slice when the widths of its arguments do not decrease; where a
  narrower index follows, the collected slices are dropped.
\<close>

lemma collect_slices_contains:
  assumes "sorted (map (\<lambda>x. length (bA x)) xs)"
    and "(\<exists>s \<in> set acc. bm_contains R s c) \<Longrightarrow> \<forall>x \<in> set xs. i < length (bA x)"
  shows "(\<exists>s \<in> set (collect_slices R ro i xs acc). bm_contains R s c) \<longleftrightarrow>
    (\<exists>s \<in> set acc. bm_contains R s c) \<or>
    (\<exists>x \<in> set xs. i < length (bA x) \<and> bm_contains R (bA x ! i) c)"
  using assms
proof (induction xs arbitrary: acc)
  case (Cons x xs)
  show ?case
  proof (cases "i < length (bA x)")
    case True
    with Cons.prems(1) have "\<forall>y \<in> set xs. i < length (bA y)" by auto
    with True Cons show ?thesis by auto
  next
    case False
    with Cons.prems(2) have "\<not> (\<exists>s \<in> set acc. bm_contains R s c)" by auto
    moreover have "sorted (map (\<lambda>x. length (bA x)) xs)" using Cons.prems(1) by simp
    ultimately show ?thesis
      using False Cons.IH [of "[if ro then bm_run_optimize R (bm_new R) else bm_new R]"] by auto
  qed
qed simp

lemma fold_width:
  "n \<le> fold (\<lambda>x bits. if length (bA x) > bits then BitCount x else bits) xs n \<and>
   (\<forall>x \<in> set xs. length (bA x) \<le>
     fold (\<lambda>x bits. if length (bA x) > bits then BitCount x else bits) xs n)"
proof (induction xs arbitrary: n)
  case (Cons x xs)
  let ?n = "if length (bA x) > n then BitCount x else n"
  show ?case using Cons.IH [of ?n] by (auto simp: BitCount_def split: if_splits)
qed simp

lemma ParOr_contains:
  assumes "sorted (map (\<lambda>x. length (bA x)) bsis)"
  shows "n < length (bA (ParOr R b bsis)) \<and> bm_contains R (bA (ParOr R b bsis) ! n) c \<longleftrightarrow>
    (\<exists>x \<in> set (b # bsis). n < length (bA x) \<and> bm_contains R (bA x ! n) c)"
proof -
  let ?bits = "fold (\<lambda>x bits. if length (bA x) > bits then BitCount x else bits) bsis (length (bA b))"
  note coll = collect_slices_contains [OF assms, of "[]" c n "runOptimized b", simplified]
  have len: "length (bA x) \<le> ?bits" if "x \<in> set (b # bsis)" for x
    using fold_width [of "length (bA b)" bsis] that by auto
  show ?thesis
  proof (cases "n < ?bits")
    case True
    then have "n < length (bA (ParOr R b bsis)) \<and> bm_contains R (bA (ParOr R b bsis) ! n) c \<longleftrightarrow>
        n < length (bA b) \<and> bm_contains R (bA b ! n) c \<or>
        (\<exists>s \<in> set (collect_slices R (runOptimized b) n bsis []). bm_contains R s c)"
      by (auto simp: ParOr_def Let_def nth_append BitCount_def)
    with coll show ?thesis by auto
  next
    case False
    with len show ?thesis by (fastforce simp: ParOr_def Let_def)
  qed
qed

lemma ParOr_wf:
  assumes "sorted (map (\<lambda>x. length (bA x)) bsis)" and "\<forall>x \<in> set (b # bsis). bsi_wf R x"
  shows "bsi_wf R (ParOr R b bsis)"
proof (rule bsi_wfI)
  fix n c
  assume "n < length (bA (ParOr R b bsis))" "bm_contains R (bA (ParOr R b bsis) ! n) c"
  then obtain x where "x \<in> set (b # bsis)" "n < length (bA x)" "bm_contains R (bA x ! n) c"
    using ParOr_contains [OF assms(1), of n b c] by blast
  then have "\<exists>x \<in> set (b # bsis). bm_contains R (eBM x) c"
    using assms(2) bsi_wfD by blast
  then show "bm_contains R (eBM (ParOr R b bsis)) c"
    by (auto simp: ParOr_def Let_def)
qed

text \<open>Where every index that has a column gives it the same value, \<open>ParOr\<close> gives it that value.\<close>

lemma ParOr_val:
  assumes sorted: "sorted (map (\<lambda>x. length (bA x)) bsis)"
    and wf: "\<forall>x \<in> set (b # bsis). bsi_wf R x"
    and x: "x \<in> set (b # bsis)" "bsi_val R x c = Some v"
    and agree: "\<forall>y \<in> set (b # bsis). bsi_val R y c \<in> {None, Some v}"
  shows "bsi_val R (ParOr R b bsis) c = Some v"
proof -
  have "bit v n" if y: "y \<in> set (b # bsis)" "n < length (bA y)" "bm_contains R (bA y ! n) c"
    and n: "n < 64" for y n
  proof -
    have "bm_contains R (eBM y) c" using wf y bsi_wfD by blast
    then have "col_word R (bA y) c = v"
      using bspec [OF agree y(1)] by (simp add: bsi_val_def)
    with y n show ?thesis using bit_col_word [of R "bA y" c n] by simp
  qed
  moreover have "bit v n \<Longrightarrow> n < length (bA x) \<and> bm_contains R (bA x ! n) c" for n
    using x(2) by (auto simp: bsi_val_def bit_col_word split: if_splits)
  ultimately have "col_word R (bA (ParOr R b bsis)) c = v"
    using x(1) by (intro col_word_eqI) (meson ParOr_contains [OF sorted])
  moreover have "bm_contains R (eBM (ParOr R b bsis)) c"
    using x by (auto simp: ParOr_def Let_def bsi_val_def split: if_splits)
  ultimately show ?thesis by (simp add: bsi_val_def)
qed

subsection \<open>Counting\<close>

lemma count_val_simps [simp]:
  "count_val x 0 = x"
  "count_val (count_val x m) n = count_val x (m + n)"
  "plus_val x (count_val None n) = count_val x n"
  by (auto simp: count_val_def plus_val_def split: option.splits)


lemma count_loop_val:
  assumes "bsi_wf R results" and "auto_sized results" and "\<not> runOptimized results"
  shows "\<exists>r. count_loop R input batch results = Some r \<and> bsi_wf R r \<and>
    bsi_val R r = (\<lambda>k. count_val (bsi_val R results k) (occurrences R input batch k))"
  using assms
proof (induction batch arbitrary: results)
  case Nil
  then show ?case by (simp add: occurrences_def)
next
  case (Cons c batch)
  show ?case
  proof (cases "bsi_val R input c")
    case None
    with Cons.IH [OF Cons.prems] show ?thesis
      by (simp add: GetValue_bsi_val occurrences_def)
  next
    case (Some v)
    let ?w = "case bsi_val R results (ucast v) of None \<Rightarrow> 1 | Some w \<Rightarrow> w + 1"
    obtain r1 where r1: "SetValue R results v ?w = Some r1"
      using Cons.prems(3) widen_defined_iff [of R results ?w]
      by (auto simp: SetValue_def Let_def)
    from r1 have frame: "auto_sized r1" "\<not> runOptimized r1"
      using Cons.prems by (auto simp: SetValue_def Let_def auto_sized_def split: option.splits)
    have val: "bsi_val R r1 = (bsi_val R results)(ucast v \<mapsto> ?w)"
      using SetValue_val [OF Cons.prems(1) r1] Cons.prems(2) by (simp add: stored_def)
    from Cons.IH [OF SetValue_wf [OF Cons.prems(1) r1] frame] obtain r where r:
      "count_loop R input batch r1 = Some r" "bsi_wf R r"
      "bsi_val R r = (\<lambda>k. count_val (bsi_val R r1 k) (occurrences R input batch k))" by auto
    have "count_loop R input (c # batch) results = Some r"
      using r(1) r1 Some by (cases "bsi_val R results (ucast v)") (simp_all add: GetValue_bsi_val)
    moreover have "count_val (bsi_val R r1 k) (occurrences R input batch k) =
        count_val (bsi_val R results k) (occurrences R input (c # batch) k)" for k
      by (auto simp: val occurrences_def Some count_val_def split: option.splits)
    ultimately show ?thesis using r by auto
  qed
qed

lemma transposeWithCounts_val:
  assumes "\<not> runOptimized input"
  shows "\<exists>r. transposeWithCounts R input batch = Some r \<and> bsi_wf R r \<and>
    bsi_val R r = (\<lambda>k. count_val None (occurrences R input batch k))"
proof -
  have "bsi_wf R (NewDefaultBSI R)" "auto_sized (NewDefaultBSI R)"
    "\<not> runOptimized (NewDefaultBSI R)" "bsi_val R (NewDefaultBSI R) = (\<lambda>_. None)"
    by (simp_all add: NewDefaultBSI_def bsi_simps) (simp_all add: NewBSI_def auto_sized_def Let_def)
  with count_loop_val [of "NewDefaultBSI R" input batch] assms show ?thesis
    by (simp add: transposeWithCounts_def)
qed

lemma counts_of_batches:
  assumes "\<not> runOptimized input"
  shows "\<exists>rs. those (map (transposeWithCounts R input) bs) = Some rs \<and> (\<forall>r \<in> set rs. bsi_wf R r) \<and>
    (\<forall>k x. foldl plus_val x (map (\<lambda>r. bsi_val R r k) rs) =
      count_val x (occurrences R input (concat bs) k))"
proof (induction bs)
  case Nil
  then show ?case by (simp add: occurrences_def)
next
  case (Cons b bs)
  from transposeWithCounts_val [OF assms, of b] obtain r where r:
    "transposeWithCounts R input b = Some r" "bsi_wf R r"
    "bsi_val R r = (\<lambda>k. count_val None (occurrences R input b k))" by blast
  with Cons.IH show ?case by (auto simp: occurrences_def)
qed

lemma TransposeWithCounts_val:
  assumes "0 < threads numCPU p" and "\<not> runOptimized b"
  shows "\<exists>r. TransposeWithCounts R numCPU b p found = Some r \<and> bsi_wf R r \<and>
    (let fs = (case found of None \<Rightarrow> eBM b | Some fs \<Rightarrow> fs)
     in \<forall>k. bsi_val R r k = count_val None
       (card {c \<in> bm_set R fs. \<exists>v. bsi_val R b c = Some v \<and> ucast v = k}))"
proof -
  let ?fs = "case found of None \<Rightarrow> eBM b | Some fs \<Rightarrow> fs"
  let ?bs = "split_found R (threads numCPU p) ?fs"
  from counts_of_batches [OF assms(2), of ?bs] obtain rs where rs:
    "those (map (transposeWithCounts R b) ?bs) = Some rs" "\<forall>r \<in> set rs. bsi_wf R r"
    "\<And>k x. foldl plus_val x (map (\<lambda>r. bsi_val R r k) rs) =
      count_val x (occurrences R b (bm_to_list R ?fs) k)"
    unfolding concat_split_found [OF assms(1)] by blast
  have def: "bsi_wf R (NewDefaultBSI R)" "bsi_val R (NewDefaultBSI R) = (\<lambda>_. None)"
    by (simp_all add: NewDefaultBSI_def bsi_simps)
  have "occurrences R b (bm_to_list R ?fs) k =
      card {c \<in> bm_set R ?fs. \<exists>v. bsi_val R b c = Some v \<and> ucast v = k}" for k
    unfolding occurrences_def
    by (subst distinct_card [symmetric]) (auto simp: bm_set_def)
  with add_all_val [OF def(1) rs(2)] rs(1,3) def(2) show ?thesis
    by (auto simp: TransposeWithCounts_def parallelExecutorBSIResults_def Let_def)
qed

text \<open>On a run-optimized index the counts are written to a run-optimized empty index, whose
  first widening reads a slice past the end.\<close>

lemma transposeWithCounts_panics:
  assumes "runOptimized input" and "c \<in> set batch" and "bsi_val R input c = Some v"
  shows "transposeWithCounts R input batch = None"
proof -
  let ?r = "RunOptimize R (NewDefaultBSI R)"
  have empty: "bsi_val R ?r = (\<lambda>_. None)"
    by (simp add: NewDefaultBSI_def bsi_simps)
  have "Len64 1 = 1"
    by (simp add: Len64_def nat_len.simps)
  then have "SetValue R ?r col 1 = None" for col
    by (simp add: SetValue_def widen_def RunOptimize_def NewDefaultBSI_def NewBSI_def auto_sized_def
        BitCount_def Let_def Len64_def grow_panics)
  then have "count_loop R input batch ?r = None"
    using assms(2,3)
  proof (induction batch)
    case (Cons d batch)
    then show ?case
      by (cases "bsi_val R input d") (auto simp: GetValue_bsi_val empty)
  qed simp
  with assms(1) show ?thesis by (simp add: transposeWithCounts_def Let_def)
qed

end

end
