(* ===== verification/Bsi_MinMax.thy ===== *)
theory Bsi_MinMax
  imports Bsi_Compare
begin

text \<open>
  The minimum and maximum of a found set (\<open>MinMax\<close> and \<open>minOrMax\<close> of \<open>src/bsi/bsi.go\<close>).

  Each batch keeps a running value and compares every column with it bit by bit, so a column
  is only looked at modulo \<open>2 ^ BitCount\<close>. On an index of fewer than 64 slices the running value
  starts out equal, in those bits, to the largest (MIN) or smallest (MAX) storable value; such
  columns are never taken. The theorems here are exact about that.
\<close>

subsection \<open>The code\<close>

definition Min64BitSigned :: i64 where
  "Min64BitSigned = -9223372036854775808"

definition Max64BitSigned :: i64 where
  "Max64BitSigned = 9223372036854775807"

text \<open>
  The loop over the bits; \<open>Suc j\<close> is the round for bit \<open>j\<close>. The result is \<open>lt\<close>, \<open>gt\<close> and the
  column's value as far as it was read.
\<close>

fun mm_bits :: "'b roaring \<Rightarrow> 'b list \<Rightarrow> Operation \<Rightarrow> u32 \<Rightarrow> i64 \<Rightarrow> bool \<Rightarrow> bool \<Rightarrow> nat \<Rightarrow>
   bool \<times> bool \<times> bool \<times> i64 \<Rightarrow> bool \<times> bool \<times> i64" where
  "mm_bits R ba op cID compValue vNeg isNeg 0 (eq, lt, gt, cVal) = (lt, gt, cVal)"
| "mm_bits R ba op cID compValue vNeg isNeg (Suc j) (eq, lt, gt, cVal) =
     (let sliceContainsBit = bm_contains R (ba ! j) cID;
          cVal = (if sliceContainsBit then cVal OR push_bit j 1 else cVal)
      in if mask_test compValue j then
           (if \<not> sliceContainsBit \<and> eq then
              (if op = MAX' \<and> vNeg \<and> \<not> isNeg then (lt, True, cVal)
               else mm_bits R ba op cID compValue vNeg isNeg j
                      (False, lt \<or> (op = MIN' \<and> (\<not> vNeg \<or> vNeg = isNeg)), gt, cVal))
            else mm_bits R ba op cID compValue vNeg isNeg j (eq, lt, gt, cVal))
         else
           (if sliceContainsBit \<and> eq then
              mm_bits R ba op cID compValue vNeg isNeg j
                (False, lt \<or> (op = MIN' \<and> isNeg \<and> \<not> vNeg),
                 gt \<or> (op = MAX' \<and> (vNeg \<or> vNeg = isNeg)), cVal)
            else mm_bits R ba op cID compValue vNeg isNeg j (eq, lt, gt, cVal)))"

definition mm_column :: "'b roaring \<Rightarrow> 'b bsi \<Rightarrow> Operation \<Rightarrow> u32 \<Rightarrow> i64 \<Rightarrow> i64" where
  "mm_column R b op cID value =
     (let x = BitCount b;
          valueIsNegative = (0 < x \<and> mask_test value (x - 1) \<and> Len64 value = 64);
          isNegative = (x = 64 \<and> bm_contains R (bA b ! 63) cID);
          cVal = (if isNegative then push_bit 63 1 else 0);
          bits = (if x = 64 then 63 else x);
          compValue = (if isNegative \<noteq> valueIsNegative then NOT value + 1 else value);
          (lt, gt, cVal) = mm_bits R (bA b) op cID compValue valueIsNegative isNegative bits
            (True, False, False, cVal)
      in if lt \<or> gt then cVal else value)"

definition minOrMax :: "'b roaring \<Rightarrow> 'b bsi \<Rightarrow> Operation \<Rightarrow> u32 list \<Rightarrow> i64" where
  "minOrMax R b op batch =
     fold (mm_column R b op) batch (if op = MAX' then Min64BitSigned else Max64BitSigned)"

definition MinMax :: "'b roaring \<Rightarrow> nat \<Rightarrow> 'b bsi \<Rightarrow> nat \<Rightarrow> Operation \<Rightarrow> 'b option \<Rightarrow> i64" where
  "MinMax R numCPU b parallelism op foundSet =
     (let n = threads numCPU parallelism;
          fs = (case foundSet of None \<Rightarrow> eBM b | Some fs \<Rightarrow> fs);
          minMax = (if op = MAX' then Min64BitSigned else Max64BitSigned)
      in fold (\<lambda>val minMax.
           if (op = MAX' \<and> sint minMax < sint val) \<or> (op = MIN' \<and> sint val < sint minMax)
           then val else minMax) (map (minOrMax R b op) (split_found R n fs)) minMax)"

subsection \<open>One column\<close>

lemma take_bit_Suc_or:
  "n < 64 \<Longrightarrow> (if bit v n then cv OR push_bit n 1 else cv) OR take_bit n v = cv OR take_bit (Suc n) v"
  for v cv :: u64
  by (rule bit_word_eqI) (auto simp: bit_simps less_Suc_eq push_bit_of_1)

lemma mm_bits_decided:
  assumes "n \<le> length ba" and "n \<le> 64"
  shows "mm_bits R ba op c s vNeg isNeg n (False, lt, gt, cv) =
    (lt, gt, cv OR take_bit n (col_word R ba c))"
  using assms
proof (induction n arbitrary: cv)
  case (Suc n)
  let ?cv = "if bit (col_word R ba c) n then cv OR push_bit n 1 else cv"
  have "bm_contains R (ba ! n) c = bit (col_word R ba c) n"
    using Suc.prems by (simp add: bit_col_word)
  then have "mm_bits R ba op c s vNeg isNeg (Suc n) (False, lt, gt, cv) =
      mm_bits R ba op c s vNeg isNeg n (False, lt, gt, ?cv)"
    by (simp add: Let_def)
  also have "\<dots> = (lt, gt, ?cv OR take_bit n (col_word R ba c))"
    using Suc.prems by (intro Suc.IH) auto
  also have "\<dots> = (lt, gt, cv OR take_bit (Suc n) (col_word R ba c))"
    using Suc.prems by (simp only: take_bit_Suc_or Suc_le_eq)
  finally show ?case .
qed simp

lemma mm_bits_nonneg:
  assumes "n \<le> length ba" and "n \<le> 64"
  shows "mm_bits R ba op c s False False n (True, False, False, cv) =
    (let v = col_word R ba c
     in (op = MIN' \<and> low n v < low n s, op = MAX' \<and> low n s < low n v, cv OR take_bit n v))"
  using assms
proof (induction n arbitrary: cv)
  case (Suc n)
  let ?v = "col_word R ba c"
  let ?cv = "if bit ?v n then cv OR push_bit n 1 else cv"
  have n: "n < 64" using Suc.prems by simp
  have slice: "bm_contains R (ba ! n) c = bit ?v n" using Suc.prems by (simp add: bit_col_word)
  note orv = take_bit_Suc_or [OF n, of ?v cv]
  have step: "mm_bits R ba op c s False False (Suc n) (True, False, False, cv) =
      (if bit ?v n = bit s n then mm_bits R ba op c s False False n (True, False, False, ?cv)
       else mm_bits R ba op c s False False n
         (False, op = MIN' \<and> bit s n, op = MAX' \<and> bit ?v n, ?cv))"
    by (simp add: Let_def slice)
  show ?case
  proof (cases "bit ?v n = bit s n")
    case True
    have "mm_bits R ba op c s False False n (True, False, False, ?cv) =
        (op = MIN' \<and> low n ?v < low n s, op = MAX' \<and> low n s < low n ?v,
         cv OR take_bit (Suc n) ?v)"
      using Suc.IH [of ?cv] Suc.prems by (simp only: Let_def Suc_leD orv)
    then show ?thesis
      using low_Suc_cmp(1) [OF n True] low_Suc_cmp(1) [OF n True [symmetric]] True
      by (simp only: step Let_def if_True simp_thms)
  next
    case False
    have "mm_bits R ba op c s False False n
        (False, op = MIN' \<and> bit s n, op = MAX' \<and> bit ?v n, ?cv) =
        (op = MIN' \<and> bit s n, op = MAX' \<and> bit ?v n, cv OR take_bit (Suc n) ?v)"
      using Suc.prems unfolding orv [symmetric] by (intro mm_bits_decided) auto
    then have "mm_bits R ba op c s False False (Suc n) (True, False, False, cv) =
        (op = MIN' \<and> bit s n, op = MAX' \<and> bit ?v n, cv OR take_bit (Suc n) ?v)"
      using False by (simp only: step if_False)
    moreover have "bit s n \<longleftrightarrow> low (Suc n) ?v < low (Suc n) s"
      "bit ?v n \<longleftrightarrow> low (Suc n) s < low (Suc n) ?v"
      using False low_Suc_cmp(2) [OF n, of ?v s] low_Suc_cmp(2) [OF n, of s ?v] by auto
    ultimately show ?thesis
      by (simp only: Let_def)
  qed
qed simp

lemma take_bit_col_word: "length ba \<le> n \<Longrightarrow> take_bit n (col_word R ba c) = col_word R ba c"
  by (rule bit_word_eqI) (auto simp: bit_take_bit_iff bit_col_word)

lemma bit_Min64 [simp]: "bit Min64BitSigned n \<longleftrightarrow> n = 63"
proof -
  have "Min64BitSigned = push_bit 63 1" by (simp add: Min64BitSigned_def)
  then have "bit Min64BitSigned n = bit (push_bit 63 1 :: i64) n" by (rule arg_cong)
  also have "\<dots> \<longleftrightarrow> n = 63" by (auto simp only: bit_push_bit_iff bit_1_iff) simp
  finally show ?thesis .
qed

lemma mm_column_nonneg:
  assumes bc: "BitCount b \<le> 63" and v: "\<not> bit w 63 \<or> w = Min64BitSigned"
  shows "mm_column R b op c w =
    (let v = col_word R (bA b) c; n = BitCount b
     in if (op = MIN' \<and> unat v < low n w) \<or> (op = MAX' \<and> low n w < unat v) then v else w)"
proof -
  have vneg: "(0 < BitCount b \<and> bit w (BitCount b - 1) \<and> Len64 w = 64) = False"
    using v bc Len64_less_64_iff [of w]
    by auto
  have low: "low (BitCount b) (col_word R (bA b) c) = unat (col_word R (bA b) c)"
    using bc Len64_col_word [of "bA b" R c] by (simp add: low_of_width BitCount_def)
  have bits: "mm_bits R (bA b) op c w False False (BitCount b) (True, False, False, 0) =
      (let v = col_word R (bA b) c
       in (op = MIN' \<and> low (BitCount b) v < low (BitCount b) w,
           op = MAX' \<and> low (BitCount b) w < low (BitCount b) v, v))"
    using bc by (subst mm_bits_nonneg) (simp_all add: BitCount_def take_bit_col_word)
  have "BitCount b \<noteq> 64" using bc by simp
  then have "mm_column R b op c w =
      (let (lt, gt, cVal) = mm_bits R (bA b) op c w False False (BitCount b) (True, False, False, 0)
       in if lt \<or> gt then cVal else w)"
    by (simp only: mm_column_def Let_def vneg mask_test_eq) simp
  then show ?thesis
    by (simp add: bits low Let_def)
qed

subsection \<open>A batch, and the found set\<close>

text \<open>The values MIN and MAX can see: MIN never takes a column whose slices are all set, MAX never
  one whose slices are all clear.\<close>

definition seen :: "'b roaring \<Rightarrow> 'b bsi \<Rightarrow> Operation \<Rightarrow> u32 set \<Rightarrow> int set" where
  "seen R b op cols =
     (\<lambda>c. sint (col_word R (bA b) c)) `
       {c \<in> cols. unat (col_word R (bA b) c) \<noteq> (if op = MIN' then 2 ^ BitCount b - 1 else 0)}"

lemma finite_seen [simp]: "finite cols \<Longrightarrow> finite (seen R b op cols)"
  by (simp add: seen_def)

lemma seen_Un: "seen R b op (A \<union> B) = seen R b op A \<union> seen R b op B"
  by (auto simp: seen_def)

lemma seen_empty [simp]: "seen R b op {} = {}"
  by (simp add: seen_def)

lemma seen_single:
  "seen R b op {c} =
     (if unat (col_word R (bA b) c) = (if op = MIN' then 2 ^ BitCount b - 1 else 0) then {}
      else {sint (col_word R (bA b) c)})"
  by (auto simp: seen_def)

lemma Min_insert_Un:
  "finite S \<Longrightarrow> finite T \<Longrightarrow> Min (insert (Min (insert a S)) T) = Min (insert a (S \<union> T))"
  for a :: int
proof -
  assume fin: "finite S" "finite T"
  have "insert a (S \<union> T) = insert a S \<union> T" by simp
  with fin show ?thesis
    by (cases "T = {}") (simp_all only: Min_Un Min_insert Un_empty_right Min_singleton finite.insertI
        insert_not_empty not_False_eq_True)
qed

lemma Max_insert_Un:
  "finite S \<Longrightarrow> finite T \<Longrightarrow> Max (insert (Max (insert a S)) T) = Max (insert a (S \<union> T))"
  for a :: int
proof -
  assume fin: "finite S" "finite T"
  have "insert a (S \<union> T) = insert a S \<union> T" by simp
  with fin show ?thesis
    by (cases "T = {}") (simp_all only: Max_Un Max_insert Un_empty_right Max_singleton finite.insertI
        insert_not_empty not_False_eq_True)
qed

lemma sint_Max64 [simp]: "sint Max64BitSigned = 2 ^ 63 - 1"
  by (simp add: Max64BitSigned_def)

lemma sint_Min64 [simp]: "sint Min64BitSigned = - (2 ^ 63)"
  by (simp add: Min64BitSigned_def)

lemma low_Max64: "n \<le> 63 \<Longrightarrow> low n Max64BitSigned = 2 ^ n - 1"
proof -
  assume n: "n \<le> 63"
  have "unat Max64BitSigned = mask 63"
    by (simp add: Max64BitSigned_def mask_eq_exp_minus_1)
  with n have "low n Max64BitSigned = mask n"
    by (simp add: min_def)
  then show ?thesis by (simp only: mask_eq_exp_minus_1)
qed

lemma low_Min64: "n \<le> 63 \<Longrightarrow> low n Min64BitSigned = 0"
  by (rule bit_eqI) (simp add: bit_take_bit_iff bit_unsigned_iff)

definition running_min :: "nat \<Rightarrow> i64 \<Rightarrow> bool" where
  "running_min n w \<longleftrightarrow> w = Max64BitSigned \<or> unat w < 2 ^ n - 1"

definition running_max :: "nat \<Rightarrow> i64 \<Rightarrow> bool" where
  "running_max n w \<longleftrightarrow> w = Min64BitSigned \<or> unat w < 2 ^ n"

lemma unat_less_sign:
  assumes "unat w < 2 ^ n" and "n \<le> 63"
  shows "\<not> bit w 63" and "sint w = int (unat w)" and "low n w = unat w"
proof -
  have "Len64 w \<le> n" using assms(1) by (simp add: Len64_le_iff)
  then show "low n w = unat w" by (rule low_of_width)
  show "\<not> bit w 63" using \<open>Len64 w \<le> n\<close> assms(2) bit_ge_Len64 [of w 63] by simp
  then show "sint w = int (unat w)" by (rule sint_nonneg)
qed

lemma unat_col_word_less: "BitCount b \<le> 63 \<Longrightarrow> unat (col_word R (bA b) c) < 2 ^ BitCount b"
  using Len64_col_word [of "bA b" R c] by (simp add: BitCount_def Len64_le_iff)

lemma mm_column_min:
  assumes bc: "BitCount b \<le> 63" and w: "running_min (BitCount b) w"
  shows "running_min (BitCount b) (mm_column R b MIN' c w)"
    and "sint (mm_column R b MIN' c w) = Min (insert (sint w) (seen R b MIN' {c}))"
proof -
  note of_nat_unat [simp del]
  let ?n = "BitCount b" and ?v = "col_word R (bA b) c"
  have v: "unat ?v < 2 ^ ?n" "sint ?v = int (unat ?v)" "unat ?v < 2 ^ 63"
    using unat_col_word_less [OF bc, of R c] unat_less_sign [of ?v ?n] bc
      power_increasing [OF bc, of "2 :: nat"] by auto
  have col: "mm_column R b MIN' c w = (if unat ?v < low ?n w then ?v else w)"
  proof -
    have "\<not> bit w 63 \<or> w = Min64BitSigned"
      using w bc unat_less_sign(1) [of w ?n]
      by (auto simp: running_min_def sint_nonneg_iff [symmetric])
    then show ?thesis by (simp add: mm_column_nonneg [OF bc] Let_def)
  qed
  consider "w = Max64BitSigned" | "unat w < 2 ^ ?n - 1" "w \<noteq> Max64BitSigned"
    using w by (auto simp: running_min_def)
  then have "running_min ?n (mm_column R b MIN' c w) \<and>
      sint (mm_column R b MIN' c w) = Min (insert (sint w) (seen R b MIN' {c}))"
  proof cases
    case 1
    with col v low_Max64 [OF bc] show ?thesis
      by (auto simp: running_min_def seen_single)
  next
    case 2
    then have "sint w = int (unat w)" "low ?n w = unat w"
      using unat_less_sign [of w ?n] bc by auto
    with 2 v show ?thesis
      by (auto simp: col running_min_def seen_single)
  qed
  then show "running_min ?n (mm_column R b MIN' c w)"
    and "sint (mm_column R b MIN' c w) = Min (insert (sint w) (seen R b MIN' {c}))" by auto
qed

lemma mm_column_max:
  assumes bc: "BitCount b \<le> 63" and w: "running_max (BitCount b) w"
  shows "running_max (BitCount b) (mm_column R b MAX' c w)"
    and "sint (mm_column R b MAX' c w) = Max (insert (sint w) (seen R b MAX' {c}))"
proof -
  note of_nat_unat [simp del]
  let ?n = "BitCount b" and ?v = "col_word R (bA b) c"
  have v: "unat ?v < 2 ^ ?n" "sint ?v = int (unat ?v)"
    using unat_col_word_less [OF bc, of R c] unat_less_sign [of ?v ?n] bc by auto
  have col: "mm_column R b MAX' c w = (if low ?n w < unat ?v then ?v else w)"
  proof -
    have "\<not> bit w 63 \<or> w = Min64BitSigned"
      using w bc unat_less_sign(1) [of w ?n] by (auto simp: running_max_def)
    then show ?thesis by (simp add: mm_column_nonneg [OF bc] Let_def)
  qed
  consider "w = Min64BitSigned" | "unat w < 2 ^ ?n" "w \<noteq> Min64BitSigned"
    using w by (auto simp: running_max_def)
  then have "running_max ?n (mm_column R b MAX' c w) \<and>
      sint (mm_column R b MAX' c w) = Max (insert (sint w) (seen R b MAX' {c}))"
  proof cases
    case 1
    with col v low_Min64 [OF bc] show ?thesis
      by (auto simp: running_max_def seen_single)
  next
    case 2
    then have "sint w = int (unat w)" "low ?n w = unat w"
      using unat_less_sign [of w ?n] bc by auto
    with 2 v show ?thesis
      by (auto simp: col running_max_def seen_single)
  qed
  then show "running_max ?n (mm_column R b MAX' c w)"
    and "sint (mm_column R b MAX' c w) = Max (insert (sint w) (seen R b MAX' {c}))" by auto
qed

lemma fold_mm_min:
  assumes bc: "BitCount b \<le> 63" and "running_min (BitCount b) w"
  shows "sint (fold (mm_column R b MIN') batch w) = Min (insert (sint w) (seen R b MIN' (set batch)))"
  using assms(2)
proof (induction batch arbitrary: w)
  case (Cons c batch)
  let ?w = "mm_column R b MIN' c w"
  have "sint (fold (mm_column R b MIN') (c # batch) w) =
      Min (insert (Min (insert (sint w) (seen R b MIN' {c}))) (seen R b MIN' (set batch)))"
    using Cons.IH [OF mm_column_min(1) [OF bc Cons.prems]] mm_column_min(2) [OF bc Cons.prems, of R c]
    by simp
  also have "\<dots> = Min (insert (sint w) (seen R b MIN' {c} \<union> seen R b MIN' (set batch)))"
    by (rule Min_insert_Un) simp_all
  finally show ?case
    by (simp add: seen_Un [symmetric])
qed simp

lemma fold_mm_max:
  assumes bc: "BitCount b \<le> 63" and "running_max (BitCount b) w"
  shows "sint (fold (mm_column R b MAX') batch w) = Max (insert (sint w) (seen R b MAX' (set batch)))"
  using assms(2)
proof (induction batch arbitrary: w)
  case (Cons c batch)
  let ?w = "mm_column R b MAX' c w"
  have "sint (fold (mm_column R b MAX') (c # batch) w) =
      Max (insert (Max (insert (sint w) (seen R b MAX' {c}))) (seen R b MAX' (set batch)))"
    using Cons.IH [OF mm_column_max(1) [OF bc Cons.prems]] mm_column_max(2) [OF bc Cons.prems, of R c]
    by simp
  also have "\<dots> = Max (insert (sint w) (seen R b MAX' {c} \<union> seen R b MAX' (set batch)))"
    by (rule Max_insert_Un) simp_all
  finally show ?case
    by (simp add: seen_Un [symmetric])
qed simp

lemma minOrMax_seen:
  assumes "BitCount b \<le> 63"
  shows "sint (minOrMax R b MIN' batch) = Min (insert (2 ^ 63 - 1) (seen R b MIN' (set batch)))"
    and "sint (minOrMax R b MAX' batch) = Max (insert (- (2 ^ 63)) (seen R b MAX' (set batch)))"
  using fold_mm_min [OF assms, of Max64BitSigned R batch]
    fold_mm_max [OF assms, of Min64BitSigned R batch]
  by (simp_all add: minOrMax_def running_min_def running_max_def)

lemma fold_pick_min:
  fixes acc :: i64
  assumes "BitCount b \<le> 63" and "sint acc \<le> 2 ^ 63 - 1"
  shows "sint (fold (\<lambda>v m. if sint v < sint m then v else m) (map (minOrMax R b MIN') bs) acc) =
    Min (insert (sint acc) (seen R b MIN' (set (concat bs))))"
  using assms(2)
proof (induction bs arbitrary: acc)
  case (Cons x bs)
  let ?S = "seen R b MIN' (set x)" and ?T = "seen R b MIN' (set (concat bs))"
  let ?m = "minOrMax R b MIN' x"
  let ?acc = "if sint ?m < sint acc then ?m else acc"
  have "sint ?acc = min (sint acc) (sint ?m)"
    by (simp add: min_def)
  also have "\<dots> = Min (insert (sint acc) ?S)"
    using Cons.prems minOrMax_seen(1) [OF assms(1), of R x]
    by (cases "?S = {}") (simp_all add: min.assoc [symmetric] min_absorb1 max_absorb1)
  finally have acc: "sint ?acc = Min (insert (sint acc) ?S)" .
  have le: "sint ?acc \<le> 2 ^ 63 - 1"
    unfolding acc by (rule order_trans [OF Min_le Cons.prems]) simp_all
  have "sint (fold (\<lambda>v m. if sint v < sint m then v else m) (map (minOrMax R b MIN') (x # bs)) acc) =
      Min (insert (Min (insert (sint acc) ?S)) ?T)"
    using Cons.IH [OF le] acc by simp
  also have "\<dots> = Min (insert (sint acc) (?S \<union> ?T))"
    by (rule Min_insert_Un) simp_all
  finally show ?case
    by (simp add: seen_Un [symmetric])
qed simp

lemma fold_pick_max:
  fixes acc :: i64
  assumes "BitCount b \<le> 63" and "- (2 ^ 63) \<le> sint acc"
  shows "sint (fold (\<lambda>v m. if sint m < sint v then v else m) (map (minOrMax R b MAX') bs) acc) =
    Max (insert (sint acc) (seen R b MAX' (set (concat bs))))"
  using assms(2)
proof (induction bs arbitrary: acc)
  case (Cons x bs)
  let ?S = "seen R b MAX' (set x)" and ?T = "seen R b MAX' (set (concat bs))"
  let ?m = "minOrMax R b MAX' x"
  let ?acc = "if sint acc < sint ?m then ?m else acc"
  have "sint ?acc = max (sint acc) (sint ?m)"
    by (simp add: max_def)
  also have "\<dots> = Max (insert (sint acc) ?S)"
    using Cons.prems minOrMax_seen(2) [OF assms(1), of R x]
    by (cases "?S = {}") (simp_all add: max.assoc [symmetric] min_absorb1 max_absorb1)
  finally have acc: "sint ?acc = Max (insert (sint acc) ?S)" .
  have le: "- (2 ^ 63) \<le> sint ?acc"
    unfolding acc by (rule order_trans [OF Cons.prems Max_ge]) simp_all
  have "sint (fold (\<lambda>v m. if sint m < sint v then v else m) (map (minOrMax R b MAX') (x # bs)) acc) =
      Max (insert (Max (insert (sint acc) ?S)) ?T)"
    using Cons.IH [OF le] acc by simp
  also have "\<dots> = Max (insert (sint acc) (?S \<union> ?T))"
    by (rule Max_insert_Un) simp_all
  finally show ?case
    by (simp add: seen_Un [symmetric])
qed simp

context roaring_bitmap
begin

lemma MinMax_seen:
  assumes n: "0 < threads numCPU p" and bc: "BitCount b \<le> 63"
  shows "sint (MinMax R numCPU b p MIN' found) =
      Min (insert (2 ^ 63 - 1)
        (seen R b MIN' (bm_set R (case found of None \<Rightarrow> eBM b | Some fs \<Rightarrow> fs))))"
    and "sint (MinMax R numCPU b p MAX' found) =
      Max (insert (- (2 ^ 63))
        (seen R b MAX' (bm_set R (case found of None \<Rightarrow> eBM b | Some fs \<Rightarrow> fs))))"
proof -
  let ?fs = "case found of None \<Rightarrow> eBM b | Some fs \<Rightarrow> fs"
  let ?bs = "split_found R (threads numCPU p) ?fs"
  have "set (concat ?bs) = bm_set R ?fs"
    using concat_split_found [OF n] by simp
  then show "sint (MinMax R numCPU b p MIN' found) =
      Min (insert (2 ^ 63 - 1) (seen R b MIN' (bm_set R ?fs)))"
    "sint (MinMax R numCPU b p MAX' found) =
      Max (insert (- (2 ^ 63)) (seen R b MAX' (bm_set R ?fs)))"
    using fold_pick_min [OF bc, of Max64BitSigned R ?bs] fold_pick_max [OF bc, of Min64BitSigned R ?bs]
    by (simp_all add: MinMax_def Let_def)
qed

end

end
