(* ===== verification/Bsi_Marshal.thy ===== *)
theory Bsi_Marshal
  imports Bsi
begin

text \<open>
  Serialisation of a bit sliced index (\<open>MarshalBinary\<close> and \<open>UnmarshalBinary\<close> of
  \<open>src/bsi/bsi.go\<close>). The serialisation of one bitmap belongs to the roaring package: it is a
  pair of parameters \<open>enc\<close> and \<open>dec\<close> here, whose documented behaviour is the locale
  \<open>bitmap_codec\<close>. A byte slice is \<open>None\<close> for Go's \<open>nil\<close>.
\<close>

subsection \<open>The code\<close>

fun marshal_slices :: "('b \<Rightarrow> 'e + u8 list) \<Rightarrow> 'b list \<Rightarrow> 'e + u8 list list" where
  "marshal_slices enc [] = Inr []"
| "marshal_slices enc (s # ss) =
     (case enc s of Inl e \<Rightarrow> Inl e
      | Inr d \<Rightarrow> (case marshal_slices enc ss of Inl e \<Rightarrow> Inl e | Inr ds \<Rightarrow> Inr (d # ds)))"

definition MarshalBinary :: "('b \<Rightarrow> 'e + u8 list) \<Rightarrow> 'b bsi \<Rightarrow> 'e + u8 list option list" where
  "MarshalBinary enc b =
     (case marshal_slices enc (bA b) of Inl e \<Rightarrow> Inl e
      | Inr ds \<Rightarrow> (case enc (eBM b) of Inl e \<Rightarrow> Inl e | Inr d \<Rightarrow> Inr (Some d # map Some ds)))"

text \<open>
  The loop over \<open>bitData[i]\<close> for \<open>i \<ge> 1\<close>. An empty entry is skipped without adding a slice, and
  at most one slice is added per entry, so an entry after a skipped one may index past the
  end: the result is \<open>None\<close>, a panic.
\<close>

fun unmarshal_slices :: "'b roaring \<Rightarrow> ('b \<Rightarrow> u8 list \<Rightarrow> 'e + 'b) \<Rightarrow> bool \<Rightarrow> nat \<Rightarrow>
   u8 list option list \<Rightarrow> 'b list \<Rightarrow> ('e + 'b list) option" where
  "unmarshal_slices R dec ro i [] ba = Some (Inr ba)"
| "unmarshal_slices R dec ro i (d # ds) ba =
     (if d = None \<or> d = Some [] then unmarshal_slices R dec ro (Suc i) ds ba
      else
        let ba = (if length ba < i
                  then ba @ [if ro then bm_run_optimize R (bm_new R) else bm_new R] else ba)
        in if i - 1 < length ba then
             (case dec (ba ! (i - 1)) (the d) of
                Inl e \<Rightarrow> Some (Inl e)
              | Inr s \<Rightarrow> unmarshal_slices R dec ro (Suc i) ds
                  (ba[i - 1 := if ro then bm_run_optimize R s else s]))
           else None)"

text \<open>An error is the whole result here; the receiver the code leaves behind, with the slices read before
  the error replaced, is not part of it.\<close>

definition UnmarshalBinary :: "'b roaring \<Rightarrow> ('b \<Rightarrow> u8 list \<Rightarrow> 'e + 'b) \<Rightarrow> 'b bsi \<Rightarrow>
   u8 list option list \<Rightarrow> ('e + 'b bsi) option" where
  "UnmarshalBinary R dec b bitData =
     (case unmarshal_slices R dec (runOptimized b) 1 (tl bitData) (bA b) of
        None \<Rightarrow> None
      | Some (Inl e) \<Rightarrow> Some (Inl e)
      | Some (Inr ba) \<Rightarrow>
          (case bitData of
             [] \<Rightarrow> None
           | None # _ \<Rightarrow>
               Some (Inr (b\<lparr>bA := ba, eBM := if runOptimized b then bm_run_optimize R (bm_new R)
                                              else bm_new R\<rparr>))
           | Some d # _ \<Rightarrow>
               (case dec (eBM b) d of
                  Inl e \<Rightarrow> Some (Inl e)
                | Inr s \<Rightarrow> Some (Inr (b\<lparr>bA := ba,
                    eBM := if runOptimized b then bm_run_optimize R s else s\<rparr>)))))"

subsection \<open>The codec of one bitmap, and the round trip\<close>

locale bitmap_codec = roaring_bitmap R for R :: "'b roaring" +
  fixes enc :: "'b \<Rightarrow> 'e + u8 list" and dec :: "'b \<Rightarrow> u8 list \<Rightarrow> 'e + 'b"
  assumes enc_total: "\<exists>d. enc s = Inr d"
    and enc_nonempty: "enc s = Inr d \<Longrightarrow> d \<noteq> []"
    and dec_enc: "enc s = Inr d \<Longrightarrow> \<exists>t. dec r d = Inr t \<and> bm_set R t = bm_set R s"
begin

lemma marshal_slices_total:
  "\<exists>ds. marshal_slices enc ss = Inr ds \<and> list_all2 (\<lambda>s d. enc s = Inr d) ss ds"
proof (induction ss)
  case (Cons s ss)
  obtain d where "enc s = Inr d" using enc_total by blast
  with Cons show ?case by auto
qed simp

text \<open>Reading the entries over the slices from \<open>i - 1\<close> on, when there are not more of them than entries.\<close>

lemma unmarshal_slices_over:
  assumes "list_all2 (\<lambda>s d. enc s = Inr d) ss ds" and "length pre + 1 = i" and "length old \<le> length ss"
  shows "\<exists>ts. unmarshal_slices R dec ro i (map Some ds) (pre @ old) = Some (Inr (pre @ ts)) \<and>
    map (bm_set R) ts = map (bm_set R) ss"
  using assms
proof (induction ss ds arbitrary: pre old i rule: list_all2_induct)
  case (Cons s ss d ds)
  let ?new = "if ro then bm_run_optimize R (bm_new R) else bm_new R"
  let ?o = "case old of [] \<Rightarrow> ?new | o' # _ \<Rightarrow> o'"
  from dec_enc [OF Cons(1)] obtain t where t: "dec ?o d = Inr t" "bm_set R t = bm_set R s"
    by blast
  let ?t = "if ro then bm_run_optimize R t else t"
  from Cons.IH [of "pre @ [?t]" "Suc i" "tl old"] Cons.prems obtain ts where ts:
    "unmarshal_slices R dec ro (Suc i) (map Some ds) ((pre @ [?t]) @ tl old) = Some (Inr ((pre @ [?t]) @ ts))"
    "map (bm_set R) ts = map (bm_set R) ss" by (cases old) auto
  have d: "d \<noteq> []" using enc_nonempty [OF Cons(1)] by simp
  let ?ba = "if length (pre @ old) < i then (pre @ old) @ [?new] else pre @ old"
  have ba: "?ba = pre @ ?o # tl old" using Cons.prems(1) by (cases old) simp_all
  have i: "i - 1 = length pre" using Cons.prems(1) by simp
  have "unmarshal_slices R dec ro i (map Some (d # ds)) (pre @ old) = Some (Inr (pre @ (?t # ts)))"
    using t(1) ts(1) d by (simp only: list.map unmarshal_slices.simps ba Let_def i) (simp split del: if_split)
  moreover have "map (bm_set R) (?t # ts) = map (bm_set R) (s # ss)"
    using t ts by simp
  ultimately show ?case by blast
qed simp

lemma col_word_sets:
  assumes "map (bm_set R) ts = map (bm_set R) ss"
  shows "col_word R ts c = col_word R ss c"
proof (rule col_word_cong)
  fix n
  have len: "length ts = length ss" using assms by (rule map_eq_imp_length_eq)
  then have "n < length ts \<Longrightarrow> bm_set R (ts ! n) = bm_set R (ss ! n)"
    using assms by (metis nth_map)
  with len show "n < length ts \<and> bm_contains R (ts ! n) c \<longleftrightarrow>
      n < length ss \<and> bm_contains R (ss ! n) c"
    by (metis mem_bm_set)
qed

lemma unmarshal_marshal_over:
  assumes "length (bA old) \<le> length (bA b)"
  shows "\<exists>data b'. MarshalBinary enc b = Inr data \<and> UnmarshalBinary R dec old data = Some (Inr b') \<and>
    map (bm_set R) (bA b') = map (bm_set R) (bA b) \<and> bm_set R (eBM b') = bm_set R (eBM b)"
proof -
  obtain ds where ds: "marshal_slices enc (bA b) = Inr ds"
    "list_all2 (\<lambda>s d. enc s = Inr d) (bA b) ds"
    using marshal_slices_total by blast
  obtain d where d: "enc (eBM b) = Inr d" using enc_total by blast
  from unmarshal_slices_over [OF ds(2), of "[]" 1 "bA old" "runOptimized old"] assms obtain ts where ts:
    "unmarshal_slices R dec (runOptimized old) 1 (map Some ds) (bA old) = Some (Inr ts)"
    "map (bm_set R) ts = map (bm_set R) (bA b)" by auto
  from dec_enc [OF d] obtain e where e: "dec (eBM old) d = Inr e" "bm_set R e = bm_set R (eBM b)"
    by blast
  let ?b = "old\<lparr>bA := ts, eBM := if runOptimized old then bm_run_optimize R e else e\<rparr>"
  have "UnmarshalBinary R dec old (Some d # map Some ds) = Some (Inr ?b)"
    using ts(1) e by (simp add: UnmarshalBinary_def)
  moreover have "MarshalBinary enc b = Inr (Some d # map Some ds)"
    using ds d by (simp add: MarshalBinary_def)
  moreover have "map (bm_set R) (bA ?b) = map (bm_set R) (bA b) \<and> bm_set R (eBM ?b) = bm_set R (eBM b)"
    using ts(2) e(2) by simp
  ultimately show ?thesis by blast
qed

lemma unmarshal_marshal:
  shows "\<exists>data b'. MarshalBinary enc b = Inr data \<and>
    UnmarshalBinary R dec (NewDefaultBSI R) data = Some (Inr b') \<and> bsi_val R b' = bsi_val R b"
proof -
  have "bA (NewDefaultBSI R) = []" by (simp add: NewDefaultBSI_def NewBSI_def Len64_def)
  then obtain data b' where d: "MarshalBinary enc b = Inr data" "UnmarshalBinary R dec (NewDefaultBSI R) data = Some (Inr b')"
    "map (bm_set R) (bA b') = map (bm_set R) (bA b)" "bm_set R (eBM b') = bm_set R (eBM b)"
    using unmarshal_marshal_over [of "NewDefaultBSI R" b] by auto
  have "bsi_val R b' = bsi_val R b"
    using col_word_sets [OF d(3)] d(4) by (auto simp: bsi_val_def fun_eq_iff bm_set_def)
  with d show ?thesis by blast
qed

end

subsection \<open>A codec for the list implementation\<close>

text \<open>Every member as four bytes, lowest first, after one leading byte.\<close>

definition bytes_of_u32 :: "u32 \<Rightarrow> u8 list" where
  "bytes_of_u32 w = [ucast w, ucast (drop_bit 8 w), ucast (drop_bit 16 w), ucast (drop_bit 24 w)]"

fun u32s_of_bytes :: "u8 list \<Rightarrow> u32 list" where
  "u32s_of_bytes (a # b # c # d # bs) =
     (ucast a OR push_bit 8 (ucast b) OR push_bit 16 (ucast c) OR push_bit 24 (ucast d))
     # u32s_of_bytes bs"
| "u32s_of_bytes _ = []"

definition list_enc :: "u32 list \<Rightarrow> unit + u8 list" where
  "list_enc xs = Inr (1 # concat (map bytes_of_u32 xs))"

definition list_dec :: "u32 list \<Rightarrow> u8 list \<Rightarrow> unit + u32 list" where
  "list_dec old bs = Inr (u32s_of_bytes (tl bs))"

lemma u32_of_its_bytes:
  "ucast (ucast w :: u8) OR push_bit 8 (ucast (ucast (drop_bit 8 w) :: u8)) OR
   push_bit 16 (ucast (ucast (drop_bit 16 w) :: u8)) OR
   push_bit 24 (ucast (ucast (drop_bit 24 w) :: u8)) = (w :: u32)" (is "?l = w")
proof (rule bit_word_eqI)
  fix n
  assume "n < LENGTH(32)"
  then consider "n < 8" | "8 \<le> n" "n < 16" | "16 \<le> n" "n < 24" | "24 \<le> n" "n < 32"
    by fastforce
  then show "bit ?l n \<longleftrightarrow> bit w n"
    by cases (auto simp: bit_simps)
qed

lemma u32s_of_bytes_inverse: "u32s_of_bytes (concat (map bytes_of_u32 xs)) = xs"
  by (induction xs) (simp_all add: bytes_of_u32_def u32_of_its_bytes)

interpretation list_codec: bitmap_codec list_roaring list_enc list_dec
  by unfold_locales (auto simp: list_enc_def list_dec_def u32s_of_bytes_inverse)

end
