(* ===== verification/Bsi_Spec.thy ===== *)
theory Bsi_Spec
  imports Bsi_Arith Bsi_MinMax Bsi_Marshal
begin

text \<open>
  What a bit sliced index promises (\<open>src/bsi/bsi.go\<close>): the indices its operations can build,
  the invariant they all satisfy, and the properties of the operations, stated for an
  arbitrary bitmap implementation \<open>R\<close> with the documented behaviour \<open>roaring_bitmap R\<close>.
  Each property is followed by a use of it on the list implementation of bitmaps.
\<close>

subsection \<open>The indices the operations build\<close>

text \<open>A found set is a bitmap of its own here, and the index an addition adds is another one: \<open>ClearValues\<close>
  with the existence bitmap of the index itself empties the set while the slices read it, and
  \<open>b.Add(b)\<close> on an index with slices does not return. Serialised bytes are those of an index, read into an
  index that has not more slices.\<close>

inductive bsi_reachable :: "'b roaring \<Rightarrow> ('b \<Rightarrow> 'e + u8 list) \<Rightarrow> ('b \<Rightarrow> u8 list \<Rightarrow> 'e + 'b) \<Rightarrow> 'b bsi \<Rightarrow> bool"
  for R enc dec where
  new: "bsi_reachable R enc dec (NewBSI R mx mn)"
| init: "bsi_reachable R enc dec b \<Longrightarrow> bsi_reachable R enc dec (InitBitmaps R b k)"
| set_value: "bsi_reachable R enc dec b \<Longrightarrow> SetValue R b col v = Some b' \<Longrightarrow> bsi_reachable R enc dec b'"
| set_many: "bsi_reachable R enc dec b \<Longrightarrow> SetMany R b f v = Some b' \<Longrightarrow> bsi_reachable R enc dec b'"
| clear: "bsi_reachable R enc dec b \<Longrightarrow> bsi_reachable R enc dec (ClearValues R b f)"
| retain: "bsi_reachable R enc dec b \<Longrightarrow> bsi_reachable R enc dec (NewBSIRetainSet R b f)"
| run_optimize: "bsi_reachable R enc dec b \<Longrightarrow> bsi_reachable R enc dec (RunOptimize R b)"
| add: "bsi_reachable R enc dec b \<Longrightarrow> bsi_reachable R enc dec c \<Longrightarrow> Add R b c = Some b' \<Longrightarrow> bsi_reachable R enc dec b'"
| increment: "bsi_reachable R enc dec b \<Longrightarrow> Increment R b f = Some b' \<Longrightarrow> bsi_reachable R enc dec b'"
| par_or: "bsi_reachable R enc dec b \<Longrightarrow> \<forall>c \<in> set cs. bsi_reachable R enc dec c \<Longrightarrow> bsi_reachable R enc dec (ParOr R b cs)"
| transpose: "bsi_reachable R enc dec b \<Longrightarrow> TransposeWithCounts R numCPU b p found = Some b' \<Longrightarrow> bsi_reachable R enc dec b'"
| unmarshal: "bsi_reachable R enc dec b \<Longrightarrow> bsi_reachable R enc dec old \<Longrightarrow> BitCount old \<le> BitCount b \<Longrightarrow>
    MarshalBinary enc b = Inr data \<Longrightarrow> UnmarshalBinary R dec old data = Some (Inr b') \<Longrightarrow> bsi_reachable R enc dec b'"

context roaring_bitmap
begin

lemma InitBitmaps_wf: "bsi_wf R (InitBitmaps R b k)"
  by (simp add: bsi_wf_def InitBitmaps_def)

lemma Clone_wf: "bsi_wf R b \<Longrightarrow> bsi_wf R (Clone R b)"
  by (simp add: Clone_def NewBSIRetainSet_wf)

lemma collect_slices_subset:
  "s \<in> set (collect_slices R ro i xs acc) \<Longrightarrow> bm_contains R s c \<Longrightarrow>
     (\<exists>t \<in> set acc. bm_contains R t c) \<or>
     (\<exists>x \<in> set xs. i < length (bA x) \<and> bm_contains R (bA x ! i) c)"
proof (induction xs arbitrary: acc)
  case (Cons x xs)
  let ?acc = "if length (bA x) > i then acc @ [bA x ! i]
    else [if ro then bm_run_optimize R (bm_new R) else bm_new R]"
  from Cons.prems have "(\<exists>t \<in> set ?acc. bm_contains R t c) \<or>
      (\<exists>x \<in> set xs. i < length (bA x) \<and> bm_contains R (bA x ! i) c)"
    by (intro Cons.IH) simp_all
  then show ?case by (auto split: if_splits)
qed auto

text \<open>Dropping slices loses values but not the invariant.\<close>

lemma ParOr_wf_any:
  assumes "\<forall>x \<in> set (b # bsis). bsi_wf R x"
  shows "bsi_wf R (ParOr R b bsis)"
proof (rule bsi_wfI)
  fix n c
  assume n: "n < length (bA (ParOr R b bsis))" and c: "bm_contains R (bA (ParOr R b bsis) ! n) c"
  from n c have "n < length (bA b) \<and> bm_contains R (bA b ! n) c \<or>
      (\<exists>s \<in> set (collect_slices R (runOptimized b) n bsis []). bm_contains R s c)"
    by (auto simp: ParOr_def Let_def nth_append BitCount_def split: if_splits)
  then have "\<exists>x \<in> set (b # bsis). n < length (bA x) \<and> bm_contains R (bA x ! n) c"
    using collect_slices_subset [of _ "runOptimized b" n bsis "[]" c] by auto
  then have "\<exists>x \<in> set (b # bsis). bm_contains R (eBM x) c"
    using assms bsi_wfD by blast
  then show "bm_contains R (eBM (ParOr R b bsis)) c"
    by (auto simp: ParOr_def Let_def)
qed

lemma count_loop_wf:
  "count_loop R input batch results = Some r \<Longrightarrow> bsi_wf R results \<Longrightarrow> bsi_wf R r"
proof (induction batch arbitrary: results)
  case (Cons c batch)
  then show ?case
    by (auto simp: Let_def split: if_splits option.splits prod.splits dest: SetValue_wf)
qed simp

lemma TransposeWithCounts_wf:
  assumes "TransposeWithCounts R numCPU b p found = Some r"
  shows "bsi_wf R r"
proof -
  from assms obtain rs batches where rs: "those (map (transposeWithCounts R b) batches) = Some rs"
    and r: "add_all R (NewDefaultBSI R) rs = Some r"
    by (auto simp: TransposeWithCounts_def parallelExecutorBSIResults_def Let_def split: option.splits)
  have new: "bsi_wf R (NewDefaultBSI R)" by (simp add: NewDefaultBSI_def NewBSI_wf)
  have "\<forall>x \<in> set rs. bsi_wf R x"
    using rs
  proof (induction batches arbitrary: rs)
    case (Cons batch batches)
    then obtain x xs where x: "transposeWithCounts R b batch = Some x" "rs = x # xs"
      "those (map (transposeWithCounts R b) batches) = Some xs" by (auto split: option.splits)
    have "bsi_wf R x"
      using x(1) count_loop_wf new RunOptimize_wf [OF new] by (auto simp: transposeWithCounts_def Let_def split: if_splits)
    with Cons.IH [OF x(3)] x(2) show ?case by simp
  qed simp
  from add_all_val [OF new this] r show ?thesis by auto
qed

end

context bitmap_codec
begin

lemma Unmarshal_wf:
  assumes "bsi_wf R b" and "BitCount old \<le> BitCount b"
    and "MarshalBinary enc b = Inr data" and "UnmarshalBinary R dec old data = Some (Inr b')"
  shows "bsi_wf R b'"
proof -
  from unmarshal_marshal_over [of old b] assms(2-4) have
    sets: "map (bm_set R) (bA b') = map (bm_set R) (bA b)" and e: "bm_set R (eBM b') = bm_set R (eBM b)"
    by (auto simp: BitCount_def)
  have "bsi_wf R x \<longleftrightarrow> (\<forall>s \<in> set (map (bm_set R) (bA x)). s \<subseteq> bm_set R (eBM x))" for x
    by (auto simp: bsi_wf_def bm_set_def)
  with assms(1) show ?thesis by (simp only: sets e)
qed

lemma reachable_wf: "bsi_reachable R enc dec b \<Longrightarrow> bsi_wf R b"
proof (induction rule: bsi_reachable.induct)
  case (add b c b')
  then show ?case using Add_val [of b c] by auto
next
  case (increment b f b')
  then show ?case using Increment_val [of b f] by auto
next
  case (par_or b cs)
  then show ?case using ParOr_wf_any [of b cs] by auto
next
  case (transpose b numCPU p found b')
  show ?case by (rule TransposeWithCounts_wf [OF transpose(2)])
next
  case (unmarshal b old data b')
  then show ?case using Unmarshal_wf by blast
qed (rule NewBSI_wf, rule InitBitmaps_wf, erule (1) SetValue_wf, erule (1) SetMany_wf,
    erule ClearValues_wf, erule NewBSIRetainSet_wf, erule RunOptimize_wf)

end

text \<open>An index with the values 5 in columns 1 and 7, and 9 in column 2.\<close>

definition sample_bsi :: "u32 list bsi" where
  "sample_bsi = \<lparr>bA = [[1, 2, 7], [], [1, 7], [2]], eBM = [1, 2, 7],
     MaxValue = 0, MinValue = 0, runOptimized = False\<rparr>"

lemma sample_bsi_simps [simp]:
  "bA sample_bsi = [[1, 2, 7], [], [1, 7], [2]]" "eBM sample_bsi = [1, 2, 7]"
  "MaxValue sample_bsi = 0" "MinValue sample_bsi = 0" "\<not> runOptimized sample_bsi"
  "BitCount sample_bsi = 4" "auto_sized sample_bsi"
  by (simp_all add: sample_bsi_def BitCount_def auto_sized_def)

lemma sample_bsi_wf [simp]: "bsi_wf list_roaring sample_bsi"
  by (simp add: bsi_wf_def)

lemma sample_bsi_vals:
  "bsi_val list_roaring sample_bsi 1 = Some 5" "bsi_val list_roaring sample_bsi 7 = Some 5"
  "bsi_val list_roaring sample_bsi 2 = Some 9"
  by (simp_all add: bsi_val_def col_word_def)

subsection \<open>Properties\<close>

text \<open>C19: Every index that the constructors, the writes, \<open>ClearValues\<close>, \<open>NewBSIRetainSet\<close>, \<open>Add\<close>,
  \<open>Increment\<close>, \<open>ParOr\<close>, \<open>TransposeWithCounts\<close>, \<open>RunOptimize\<close> and the reading of a serialised index can
  build satisfies the invariant: no slice holds a column that the existence bitmap does not hold.
  A serialised index is read into one that has not more slices than it;
  \<open>narrow_unmarshal_breaks\<close> shows that reading it into a wider one breaks the invariant. The arguments are distinct objects: a
  found set of \<open>ClearValues\<close> is not the existence bitmap of the index itself.\<close>

theorem bsi_invariant:
  assumes "bitmap_codec R enc dec" and "bsi_reachable R enc dec b"
  shows "bsi_wf R b"
  using assms by (rule bitmap_codec.reachable_wf)

theorem bsi_invariant_witness:
  "bsi_wf list_roaring (RunOptimize list_roaring (NewBSI list_roaring 5 0))"
  by (rule bsi_invariant [OF list_codec.bitmap_codec_axioms bsi_reachable.run_optimize [OF bsi_reachable.new]])

text \<open>The slices of a wider index that are not overwritten stay, while its existence bitmap is replaced.\<close>

theorem narrow_unmarshal_breaks:
  "\<exists>data b'. MarshalBinary list_enc \<lparr>bA = [[3]], eBM = [3], MaxValue = 0, MinValue = 0, runOptimized = False\<rparr> = Inr data \<and>
    UnmarshalBinary list_roaring list_dec sample_bsi data = Some (Inr b') \<and> \<not> bsi_wf list_roaring b'"
proof -
  let ?b = "\<lparr>bA = [[3]], eBM = [3 :: u32], MaxValue = 0, MinValue = 0, runOptimized = False\<rparr>"
  let ?r = "sample_bsi\<lparr>bA := [[3], [], [1, 7], [2]], eBM := [3]\<rparr>"
  have r: "u32s_of_bytes (bytes_of_u32 3) = [3]" using u32s_of_bytes_inverse [of "[3]"] by simp
  have data: "MarshalBinary list_enc ?b = Inr [Some (1 # bytes_of_u32 3), Some (1 # bytes_of_u32 3)]"
    by (simp add: MarshalBinary_def list_enc_def)
  have "UnmarshalBinary list_roaring list_dec sample_bsi [Some (1 # bytes_of_u32 3), Some (1 # bytes_of_u32 3)] = Some (Inr ?r)"
    by (simp add: UnmarshalBinary_def list_dec_def r)
  moreover have "\<not> bsi_wf list_roaring ?r" by (simp add: bsi_wf_def)
  ultimately show ?thesis using data by blast
qed

text \<open>C31: A write panics exactly on an auto-sized, run-optimized index that would have to more
  than double its number of slices.\<close>

theorem SetValue_panics_iff:
  "SetValue R b col v = None \<longleftrightarrow> auto_sized b \<and> runOptimized b \<and> 2 * BitCount b < Len64 v"
  using widen_defined_iff [of R b v] by (auto simp: SetValue_def Let_def split: option.splits)

text \<open>C20: Reading after a write that fits: the written column holds the value, truncated to the
  slices when the index has a fixed size; every other column reads as before. Column ids
  are taken modulo 2 to the 32.\<close>

theorem GetValue_SetValue:
  assumes "roaring_bitmap R" and "bsi_wf R b" and "SetValue R b col v = Some b'"
  shows "GetValue R b' col' =
    (if (ucast col' :: u32) = ucast col then (stored b v, True) else GetValue R b col')"
  using roaring_bitmap.SetValue_val [OF assms] by (simp add: GetValue_bsi_val)

theorem GetValue_SetValue_witness:
  "\<exists>b'. SetValue list_roaring sample_bsi 3 12 = Some b' \<and> GetValue list_roaring b' 3 = (12, True) \<and>
    GetValue list_roaring b' 2 = (9, True)"
proof -
  obtain b' where b': "SetValue list_roaring sample_bsi 3 12 = Some b'"
    using SetValue_panics_iff [of list_roaring sample_bsi 3 12] by auto
  note get = GetValue_SetValue [OF list_roaring_ok sample_bsi_wf b']
  have "GetValue list_roaring sample_bsi 2 = (9, True)"
    by (simp add: GetValue_bsi_val sample_bsi_vals)
  with get [of 3] get [of 2] b' show ?thesis by (simp add: stored_def)
qed

text \<open>A bulk write gives its value to every column of the found set and leaves the others.\<close>

theorem SetMany_columns:
  assumes "roaring_bitmap R" and "bsi_wf R b" and "SetMany R b f v = Some b'"
  shows "bsi_val R b' c = (if bm_contains R f c then Some (stored b v) else bsi_val R b c)"
  using assms by (rule roaring_bitmap.SetMany_val)

theorem SetMany_columns_witness:
  "\<exists>b'. SetMany list_roaring sample_bsi [2, 4] 3 = Some b' \<and>
    bsi_val list_roaring b' 4 = Some 3 \<and> bsi_val list_roaring b' 1 = Some 5"
proof -
  obtain b' where b': "SetMany list_roaring sample_bsi [2, 4] 3 = Some b'"
    using widen_defined_iff [of list_roaring sample_bsi 3] by (auto simp: SetMany_def)
  with SetMany_columns [OF list_roaring_ok sample_bsi_wf b'] show ?thesis
    by (simp add: stored_def sample_bsi_vals)
qed

text \<open>C32: A comparison with one value answers with the columns of the found set whose signed
  value compares with it as asked. LE and GE are exact; LT and GT miss, and EQ adds, the
  columns whose value has the opposite sign and the same low 63 bits as the negated operand.\<close>

theorem CompareValue_one:
  assumes "roaring_bitmap R" and "0 < threads numCPU p" and "op \<in> {LT, LE, EQ, GE, GT}"
    and "BitCount b \<le> 64"
  shows "\<exists>r. CompareValue R numCPU b p op s e found = Some r \<and>
    bm_set R r = {c \<in> (case found of None \<Rightarrow> bm_set R (eBM b) | Some fs \<Rightarrow> bm_set R fs).
      cmp_spec op (col_word R (bA b) c) s}"
  using assms by (rule roaring_bitmap.CompareValue_single)

lemma sample_cols:
  "bm_set list_roaring (eBM sample_bsi) = {1, 2, 7}"
  "col_word list_roaring [[1, 2, 7], [], [1, 7], [2]] 1 = 5"
  "col_word list_roaring [[1, 2, 7], [], [1, 7], [2]] 7 = 5"
  "col_word list_roaring [[1, 2, 7], [], [1, 7], [2]] 2 = 9"
  by (simp_all add: bm_set_def col_word_def set_eq_iff)

theorem CompareValue_one_witness:
  "\<exists>r. CompareValue list_roaring 4 sample_bsi 2 GE 6 0 None = Some r \<and> bm_set list_roaring r = {2}"
proof -
  have "\<exists>r. CompareValue list_roaring 4 sample_bsi 2 GE 6 0 None = Some r \<and>
      bm_set list_roaring r = {c \<in> bm_set list_roaring (eBM sample_bsi).
        cmp_spec GE (col_word list_roaring (bA sample_bsi) c) 6}"
    using CompareValue_one [OF list_roaring_ok, of 4 2 GE sample_bsi 6 0 None]
    by (simp add: threads_def)
  moreover have "{c \<in> bm_set list_roaring (eBM sample_bsi).
      cmp_spec GE (col_word list_roaring (bA sample_bsi) c) 6} = {2}"
    unfolding sample_cols by (auto simp: sample_cols)
  ultimately show ?thesis by simp
qed

text \<open>C33: A range query with a non-negative, ordered range on an index of at most 63 slices
  answers with exactly the columns whose value lies in the range.\<close>

theorem CompareValue_between:
  assumes "roaring_bitmap R" and "0 < threads numCPU p" and "BitCount b \<le> 63"
    and "0 \<le> sint s" and "sint s \<le> sint e"
  shows "\<exists>r. CompareValue R numCPU b p RANGE s e found = Some r \<and>
    bm_set R r = {c \<in> (case found of None \<Rightarrow> bm_set R (eBM b) | Some fs \<Rightarrow> bm_set R fs).
      sint s \<le> sint (col_word R (bA b) c) \<and> sint (col_word R (bA b) c) \<le> sint e}"
  using assms by (rule roaring_bitmap.CompareValue_range)

theorem CompareValue_between_witness:
  "\<exists>r. CompareValue list_roaring 4 sample_bsi 0 RANGE 4 6 (Some [1, 2]) = Some r \<and>
    bm_set list_roaring r = {1}"
proof -
  have "\<exists>r. CompareValue list_roaring 4 sample_bsi 0 RANGE 4 6 (Some [1, 2]) = Some r \<and>
      bm_set list_roaring r = {c \<in> bm_set list_roaring [1, 2].
        4 \<le> sint (col_word list_roaring (bA sample_bsi) c) \<and>
        sint (col_word list_roaring (bA sample_bsi) c) \<le> 6}"
    using CompareValue_between [OF list_roaring_ok, of 4 0 sample_bsi 4 6 "Some [1, 2]"]
    by (simp add: threads_def)
  moreover have "bm_set list_roaring [1, 2] = {1, 2}" by (auto simp: bm_set_def)
  then have "{c \<in> bm_set list_roaring [1, 2]. 4 \<le> sint (col_word list_roaring (bA sample_bsi) c) \<and>
      sint (col_word list_roaring (bA sample_bsi) c) \<le> 6} = {1}"
    by (auto simp: sample_cols)
  ultimately show ?thesis by simp
qed

text \<open>C34: On an index of at most 63 slices, MIN is the least and MAX the greatest value of the
  found set, over the columns it can see: MIN never looks at a column with all slices set,
  MAX never at one with none set. With nothing to see it is the largest, respectively
  smallest, 64-bit value.\<close>

theorem MinMax_extremes:
  assumes "roaring_bitmap R" and "0 < threads numCPU p" and "BitCount b \<le> 63"
    and "fs = (case found of None \<Rightarrow> eBM b | Some fs \<Rightarrow> fs)"
  shows "sint (MinMax R numCPU b p MIN' found) =
      Min (insert (2 ^ 63 - 1) (seen R b MIN' (bm_set R fs))) \<and>
    sint (MinMax R numCPU b p MAX' found) =
      Max (insert (- (2 ^ 63)) (seen R b MAX' (bm_set R fs)))"
  unfolding assms(4) using assms(1-3) by (blast intro: roaring_bitmap.MinMax_seen)

theorem MinMax_extremes_witness:
  "sint (MinMax list_roaring 4 sample_bsi 1 MIN' None) = 5 \<and>
   sint (MinMax list_roaring 4 sample_bsi 1 MAX' None) = 9"
proof -
  have "seen list_roaring sample_bsi op (insert c C) =
      seen list_roaring sample_bsi op {c} \<union> seen list_roaring sample_bsi op C" for op c C
    using seen_Un [of list_roaring sample_bsi op "{c}" C] by simp
  then have "seen list_roaring sample_bsi op {1, 2, 7} = {5, 9}" for op
    by (auto simp: seen_single sample_cols)
  with MinMax_extremes [OF list_roaring_ok, of 4 1 sample_bsi "eBM sample_bsi" None] show ?thesis
    by (simp add: threads_def sample_cols(1) del: sample_bsi_simps(2))
qed

text \<open>\<open>BatchEqual\<close> answers with exactly the columns whose value is in the list, for every
  number of threads.\<close>

theorem BatchEqual_columns:
  assumes "roaring_bitmap R" and "0 < threads numCPU p"
  shows "\<exists>r. BatchEqual R numCPU b p vs = Some r \<and>
    bm_set R r = {c. \<exists>v \<in> set vs. bsi_val R b c = Some v}"
  using assms by (rule roaring_bitmap.BatchEqual_set)

theorem BatchEqual_columns_witness:
  "\<exists>r. BatchEqual list_roaring 4 sample_bsi 3 [5, 6] = Some r \<and> {1, 7} \<subseteq> bm_set list_roaring r"
proof -
  have "{1, 7} \<subseteq> {c. \<exists>v \<in> set [5, 6]. bsi_val list_roaring sample_bsi c = Some v}"
    by (simp add: sample_bsi_vals)
  moreover have "0 < threads 4 3" by (simp add: threads_def)
  note BatchEqual_columns [OF list_roaring_ok this, of sample_bsi "[5, 6]"]
  ultimately show ?thesis by (elim exE conjE) (intro exI conjI, assumption, simp only:)
qed

text \<open>\<open>IntersectAndTranspose\<close> answers with the set of values of the found columns.\<close>

theorem IntersectAndTranspose_values:
  assumes "roaring_bitmap R" and "0 < threads numCPU p"
  shows "\<exists>r. IntersectAndTranspose R numCPU b p found = Some r \<and>
    bm_set R r = {ucast v | v c.
      c \<in> (case found of None \<Rightarrow> bm_set R (eBM b) | Some fs \<Rightarrow> bm_set R fs) \<and>
      bsi_val R b c = Some v}"
  using assms by (rule roaring_bitmap.IntersectAndTranspose_set)

theorem IntersectAndTranspose_values_witness:
  "\<exists>r. IntersectAndTranspose list_roaring 4 sample_bsi 3 (Some [2]) = Some r \<and>
    9 \<in> bm_set list_roaring r"
  using IntersectAndTranspose_values [OF list_roaring_ok, of 4 3 sample_bsi "Some [2]"]
  by (force simp: threads_def sample_bsi_vals bm_set_def)

text \<open>C35: Adding an index adds column-wise modulo 2 to the 64, never panics, always returns and
  keeps the invariant; a column only one of the two has keeps its value.\<close>

theorem Add_columns:
  assumes "roaring_bitmap R" and "bsi_wf R b" and "bsi_wf R other"
  shows "\<exists>b'. Add R b other = Some b' \<and> bsi_wf R b' \<and>
    bsi_val R b' = (\<lambda>c. plus_val (bsi_val R b c) (bsi_val R other c))"
  using assms by (rule roaring_bitmap.Add_val)

theorem Add_columns_witness:
  "\<exists>b'. Add list_roaring sample_bsi \<lparr>bA = [[2]], eBM = [2], MaxValue = 0, MinValue = 0, runOptimized = False\<rparr> = Some b' \<and>
    bsi_val list_roaring b' 2 = Some 10"
  (is "\<exists>b'. Add _ _ ?other = _ \<and> _")
proof -
  have "bsi_wf list_roaring ?other" "bsi_val list_roaring ?other 2 = Some 1" by (simp_all add: bsi_wf_def bsi_val_def col_word_def)
  with Add_columns [OF list_roaring_ok sample_bsi_wf, of ?other] show ?thesis
    by (auto simp: plus_val_def sample_bsi_vals)
qed

text \<open>The ripple-carry addition of one bitmap always returns, and adds \<open>2 ^ i\<close> to exactly
  the columns of the bitmap.\<close>

theorem addDigit_returns:
  assumes "roaring_bitmap R" and "i \<le> length ba"
  shows "\<exists>ba'. addDigit R ba fs i = Some ba' \<and> length ba \<le> length ba' \<and>
    (\<forall>c. col_nat R ba' c = col_nat R ba c + 2 ^ i * of_bool (bm_contains R fs c))"
  using roaring_bitmap.addDigit_correct [OF assms, of fs] by blast

theorem addDigit_returns_witness:
  "\<exists>ba'. addDigit list_roaring [[1, 2], [1]] [1, 3] 0 = Some ba' \<and>
    col_nat list_roaring ba' 1 = 4 \<and> col_nat list_roaring ba' 2 = 1 \<and>
    col_nat list_roaring ba' 3 = 1"
  using addDigit_returns [OF list_roaring_ok, of 0 "[[1, 2], [1]]" "[1, 3]"]
  by (auto simp: col_nat_Cons)

text \<open>\<open>Sum\<close> is the sum of the values of the found columns modulo 2 to the 64, and their
  number.\<close>

theorem Sum_columns:
  assumes "roaring_bitmap R" and "fs = (case found of None \<Rightarrow> eBM b | Some fs \<Rightarrow> fs)"
  shows "Sum R b found = (\<Sum>c \<in> bm_set R fs. col_word R (bA b) c, card (bm_set R fs))"
  using roaring_bitmap.Sum_val [OF assms(1), of b found] assms(2) by (simp add: Let_def)

theorem Sum_columns_witness: "Sum list_roaring sample_bsi None = (19, 3)"
proof -
  have "(\<Sum>c \<in> {1, 2, 7}. col_word list_roaring (bA sample_bsi) c) = 19"
    by (simp add: sample_cols)
  with Sum_columns [OF list_roaring_ok, where b = sample_bsi and found = None] show ?thesis
    by (simp add: sample_cols(1) del: sample_bsi_simps(1,2))
qed

text \<open>On an index that is not run-optimized, \<open>TransposeWithCounts\<close> maps each value to the
  number of found columns that hold it.\<close>

theorem TransposeWithCounts_counts:
  assumes "roaring_bitmap R" and "0 < threads numCPU p" and "\<not> runOptimized b"
    and "fs = (case found of None \<Rightarrow> eBM b | Some fs \<Rightarrow> fs)"
  shows "\<exists>r. TransposeWithCounts R numCPU b p found = Some r \<and> bsi_wf R r \<and>
    (\<forall>k. bsi_val R r k = count_val None
       (card {c \<in> bm_set R fs. \<exists>v. bsi_val R b c = Some v \<and> ucast v = k}))"
  using roaring_bitmap.TransposeWithCounts_val [OF assms(1-3), of found] assms(4)
  by (simp add: Let_def)

theorem TransposeWithCounts_counts_witness:
  "\<exists>r. TransposeWithCounts list_roaring 4 sample_bsi 2 None = Some r \<and>
    bsi_val list_roaring r 5 = Some 2"
proof -
  obtain r where r: "TransposeWithCounts list_roaring 4 sample_bsi 2 None = Some r"
    "\<forall>k. bsi_val list_roaring r k = count_val None (card {c \<in> bm_set list_roaring (eBM sample_bsi).
       \<exists>v. bsi_val list_roaring sample_bsi c = Some v \<and> ucast v = k})"
    using TransposeWithCounts_counts [OF list_roaring_ok, of 4 2 sample_bsi _ None]
    by (auto simp: threads_def)
  have "{c \<in> bm_set list_roaring (eBM sample_bsi).
      \<exists>v. bsi_val list_roaring sample_bsi c = Some v \<and> ucast v = (5 :: u32)} = {1, 7}"
    unfolding sample_cols(1) by (auto simp: sample_bsi_vals)
  then have "bsi_val list_roaring r 5 = count_val None (card {1 :: u32, 7})"
    using spec [OF r(2), of 5] by (simp only:)
  with r(1) show ?thesis by (auto simp: count_val_def)
qed

text \<open>Concatenation keeps every value when the indices agree on the columns they share and
  their widths do not decrease.\<close>

theorem ParOr_columns:
  assumes "roaring_bitmap R" and "sorted (map (\<lambda>x. length (bA x)) bsis)"
    and "\<forall>x \<in> set (b # bsis). bsi_wf R x" and "x \<in> set (b # bsis)" and "bsi_val R x c = Some v"
    and "\<forall>y \<in> set (b # bsis). bsi_val R y c \<in> {None, Some v}"
  shows "bsi_val R (ParOr R b bsis) c = Some v"
  using assms by (rule roaring_bitmap.ParOr_val)

theorem ParOr_columns_witness:
  "bsi_val list_roaring (ParOr list_roaring (NewDefaultBSI list_roaring) [sample_bsi]) 2 = Some 9"
  by (rule ParOr_columns [OF list_roaring_ok, where x = sample_bsi])
    (simp_all add: sample_bsi_vals NewDefaultBSI_def list_bm.NewBSI_val)

text \<open>C36: Serialising an index and reading it back into a new one gives an index with the same
  columns and values, whatever codec the bitmaps have.\<close>

theorem Unmarshal_Marshal:
  assumes "bitmap_codec R enc dec"
  shows "\<exists>data b'. MarshalBinary enc b = Inr data \<and>
    UnmarshalBinary R dec (NewDefaultBSI R) data = Some (Inr b') \<and> bsi_val R b' = bsi_val R b"
  using assms by (rule bitmap_codec.unmarshal_marshal)

theorem Unmarshal_Marshal_witness:
  "\<exists>data b'. MarshalBinary list_enc sample_bsi = Inr data \<and>
    UnmarshalBinary list_roaring list_dec (NewDefaultBSI list_roaring) data = Some (Inr b') \<and>
    bsi_val list_roaring b' 2 = Some 9"
  using Unmarshal_Marshal [OF list_codec.bitmap_codec_axioms, of sample_bsi] sample_bsi_vals(3)
  by metis

text \<open>Clearing removes exactly the found columns, retaining keeps exactly them, and a clone
  has the same columns and values.\<close>

theorem restricted_columns:
  assumes "roaring_bitmap R"
  shows "bsi_val R (ClearValues R b f) = bsi_val R b |` (- bm_set R f) \<and>
    bsi_val R (NewBSIRetainSet R b f) = bsi_val R b |` bm_set R f \<and>
    bsi_val R (Clone R b) = bsi_val R b"
  using roaring_bitmap.ClearValues_val [OF assms] roaring_bitmap.NewBSIRetainSet_val [OF assms]
    roaring_bitmap.Clone_val [OF assms] by blast

theorem restricted_columns_witness:
  "bsi_val list_roaring (ClearValues list_roaring sample_bsi [1]) 2 = Some 9 \<and>
   bsi_val list_roaring (NewBSIRetainSet list_roaring sample_bsi [1]) 2 = None"
  using restricted_columns [OF list_roaring_ok, of sample_bsi "[1]"]
  by (simp add: restrict_map_def bm_set_def sample_bsi_vals)

end
