(* ===== verification/Go_Time.thy ===== *)
theory Go_Time
  imports Bitstar_Prelude
begin

text \<open>
  The part of Go's \<open>time.Time\<close> the sources use: construction from Unix seconds and microseconds,
  the readings \<open>Unix\<close> and \<open>UnixMicro\<close>, the orders \<open>Before\<close>, \<open>After\<close>, \<open>Compare\<close>, and the two
  locations a time can be in. A time without a monotonic reading is a number of seconds since
  the year 1 (a 64-bit word that wraps, as in the library), the nanoseconds within the second,
  and its location. Two times of one instant in different locations are different values, which
  matters where a time is part of a map key.
\<close>

datatype location = UTC | Local

record go_time =
  t_ext :: i64          \<comment> \<open>seconds since January 1, year 1\<close>
  t_nsec :: nat         \<comment> \<open>0 to 999999999\<close>
  t_loc :: location

definition unixToInternal :: i64 where
  "unixToInternal = 62135596800"

text \<open>\<open>time.Unix(sec, nsec)\<close>: nanoseconds outside a second are carried into the seconds.\<close>

definition time_Unix :: "i64 \<Rightarrow> int \<Rightarrow> go_time" where
  "time_Unix sec nsec =
     \<lparr>t_ext = sec + of_int (nsec div 1000000000) + unixToInternal,
      t_nsec = nat (nsec mod 1000000000), t_loc = Local\<rparr>"

text \<open>\<open>time.UnixMicro(usec)\<close>: microseconds, with Go's floor handling of negative remainders.\<close>

definition time_UnixMicro :: "i64 \<Rightarrow> go_time" where
  "time_UnixMicro usec =
     time_Unix (of_int (sint usec div 1000000)) (sint usec mod 1000000 * 1000)"

definition in_UTC :: "go_time \<Rightarrow> go_time" where
  "in_UTC t = t\<lparr>t_loc := UTC\<rparr>"

definition in_Local :: "go_time \<Rightarrow> go_time" where
  "in_Local t = t\<lparr>t_loc := Local\<rparr>"

definition Unix :: "go_time \<Rightarrow> i64" where
  "Unix t = t_ext t - unixToInternal"

definition UnixMicro :: "go_time \<Rightarrow> i64" where
  "UnixMicro t = Unix t * 1000000 + of_nat (t_nsec t div 1000)"

definition Before :: "go_time \<Rightarrow> go_time \<Rightarrow> bool" where
  "Before t u \<longleftrightarrow> sint (t_ext t) < sint (t_ext u) \<or> (t_ext t = t_ext u \<and> t_nsec t < t_nsec u)"

definition After :: "go_time \<Rightarrow> go_time \<Rightarrow> bool" where
  "After t u \<longleftrightarrow> sint (t_ext t) > sint (t_ext u) \<or> (t_ext t = t_ext u \<and> t_nsec t > t_nsec u)"

definition time_Compare :: "go_time \<Rightarrow> go_time \<Rightarrow> int" where
  "time_Compare t u = (if Before t u then -1 else if After t u then 1 else 0)"

subsection \<open>The instant of a time\<close>

text \<open>The pair a time is compared by; the location is not part of it.\<close>

definition instant :: "go_time \<Rightarrow> int \<times> nat" where
  "instant t = (sint (t_ext t), t_nsec t)"

text \<open>The lexicographic order of instants, as a test.\<close>

definition earlier :: "int \<times> nat \<Rightarrow> int \<times> nat \<Rightarrow> bool" where
  "earlier x y \<longleftrightarrow> fst x < fst y \<or> (fst x = fst y \<and> snd x < snd y)"

lemma earlier_irrefl [simp]: "\<not> earlier x x"
  by (simp add: earlier_def)

lemma earlier_trans: "earlier x y \<Longrightarrow> earlier y z \<Longrightarrow> earlier x z"
  by (auto simp: earlier_def)

lemma earlier_asym: "earlier x y \<Longrightarrow> \<not> earlier y x"
  by (auto simp: earlier_def)

lemma earlier_total: "earlier x y \<or> x = y \<or> earlier y x"
  by (cases x; cases y) (auto simp: earlier_def)

lemma Before_instant: "Before t u \<longleftrightarrow> earlier (instant t) (instant u)"
  by (auto simp: Before_def instant_def earlier_def signed_word_eqI)

lemma After_instant: "After t u \<longleftrightarrow> earlier (instant u) (instant t)"
  by (auto simp: After_def instant_def earlier_def intro: signed_word_eqI [OF sym])

lemma After_Before: "After t u \<longleftrightarrow> Before u t"
  by (auto simp: Before_instant After_instant)

lemma time_Compare_instant:
  "time_Compare t u < 0 \<longleftrightarrow> earlier (instant t) (instant u)"
  "time_Compare t u = 0 \<longleftrightarrow> instant t = instant u"
  "time_Compare t u > 0 \<longleftrightarrow> earlier (instant u) (instant t)"
  using earlier_total [of "instant t" "instant u"] earlier_asym [of "instant t" "instant u"]
  by (auto simp: time_Compare_def Before_instant After_instant)

lemma instant_loc [simp]: "instant (in_UTC t) = instant t" "instant (in_Local t) = instant t"
  by (simp_all add: instant_def in_UTC_def in_Local_def)

lemma Unix_loc [simp]: "Unix (in_UTC t) = Unix t" "Unix (in_Local t) = Unix t"
  by (simp_all add: Unix_def in_UTC_def in_Local_def)

lemma Unix_time_Unix: "0 \<le> n \<Longrightarrow> n < 1000000000 \<Longrightarrow> Unix (time_Unix s n) = s"
  by (simp add: Unix_def time_Unix_def)

lemma UnixMicro_time_UnixMicro: "UnixMicro (time_UnixMicro u) = u"
proof -
  have "sint u mod 1000000 * 1000 < 1000000 * 1000" by (simp add: mult_less_cancel_right)
  then have n: "0 \<le> sint u mod 1000000 * 1000" "sint u mod 1000000 * 1000 < 1000000000" by auto
  have "Unix (time_UnixMicro u) = of_int (sint u div 1000000)"
    unfolding time_UnixMicro_def using n by (rule Unix_time_Unix)
  moreover have "t_nsec (time_UnixMicro u) div 1000 = nat (sint u mod 1000000)"
    using n by (simp add: time_UnixMicro_def time_Unix_def nat_mult_distrib)
  ultimately have "UnixMicro (time_UnixMicro u) =
      of_int (sint u div 1000000) * 1000000 + of_int (sint u mod 1000000)"
    by (simp add: UnixMicro_def)
  also have "\<dots> = of_int (sint u div 1000000 * 1000000 + sint u mod 1000000)"
    by (simp only: of_int_add of_int_mult of_int_numeral)
  also have "\<dots> = u"
    by (simp only: div_mult_mod_eq) simp
  finally show ?thesis .
qed

text \<open>Going through microseconds drops the nanoseconds below a microsecond.\<close>

lemma UnixMicro_loses:
  "\<exists>t. t_nsec t < 1000000000 \<and> instant (time_UnixMicro (UnixMicro t)) \<noteq> instant t"
proof (intro exI conjI)
  let ?t = "time_Unix 0 1"
  show "t_nsec ?t < 1000000000" by (simp add: time_Unix_def)
  show "instant (time_UnixMicro (UnixMicro ?t)) \<noteq> instant ?t"
    by (simp add: instant_def time_UnixMicro_def UnixMicro_def time_Unix_def Unix_def
        unixToInternal_def)
qed

end
