(* ===== verification/Event_Model.thy ===== *)
theory Event_Model
  imports Go_Time
begin

text \<open>
  Events and their keys: the protobuf messages \<open>Resource\<close> and \<open>Event\<close> with their nil-safe
  getters (\<open>src/proto/infralenta/storage/v1/event_service.pb.go\<close>), the key of an event
  (\<open>EventKey\<close> and \<open>EventKeyFromProto\<close> of \<open>src/index.go\<close>), and the orders on keys: the two
  comparisons and the heap of \<open>src/compare.go\<close>, and the comparison that orders a mem table
  (\<open>src/memtable.go\<close>).

  A Go pointer is an option. The type of protobuf timestamps and its method \<open>AsTime\<close> belong to
  the protobuf library: the type is the parameter \<open>'ts\<close>, and \<open>AsTime\<close> the argument
  \<open>as_time :: 'ts option \<Rightarrow> go_time\<close> of the definitions that call it (it may be called on nil).
  A Go map is an association list; no definition depends on the order of its entries.
\<close>

subsection \<open>Messages\<close>

record resource =
  rs_TypeCode :: string
  rs_ExternalId :: string

record 'ts event =
  ev_Id :: string
  ev_Title :: string
  ev_Description :: string
  ev_Resource :: "resource option"
  ev_StartTime :: "'ts option"
  ev_EndTime :: "'ts option"
  ev_Tags :: "string list"
  ev_Annotations :: "(string \<times> string) list"
  ev_CreatedBy :: string
  ev_UpdatedBy :: string
  ev_CreateTime :: "'ts option"
  ev_UpdateTime :: "'ts option"
  ev_DeleteTime :: "'ts option"

definition GetTypeCode :: "resource option \<Rightarrow> string" where
  "GetTypeCode x = (case x of None \<Rightarrow> [] | Some r \<Rightarrow> rs_TypeCode r)"

definition GetExternalId :: "resource option \<Rightarrow> string" where
  "GetExternalId x = (case x of None \<Rightarrow> [] | Some r \<Rightarrow> rs_ExternalId r)"

definition GetId :: "'ts event option \<Rightarrow> string" where
  "GetId x = (case x of None \<Rightarrow> [] | Some e \<Rightarrow> ev_Id e)"

definition GetTitle :: "'ts event option \<Rightarrow> string" where
  "GetTitle x = (case x of None \<Rightarrow> [] | Some e \<Rightarrow> ev_Title e)"

definition GetDescription :: "'ts event option \<Rightarrow> string" where
  "GetDescription x = (case x of None \<Rightarrow> [] | Some e \<Rightarrow> ev_Description e)"

definition GetResource :: "'ts event option \<Rightarrow> resource option" where
  "GetResource x = (case x of None \<Rightarrow> None | Some e \<Rightarrow> ev_Resource e)"

definition GetStartTime :: "'ts event option \<Rightarrow> 'ts option" where
  "GetStartTime x = (case x of None \<Rightarrow> None | Some e \<Rightarrow> ev_StartTime e)"

definition GetEndTime :: "'ts event option \<Rightarrow> 'ts option" where
  "GetEndTime x = (case x of None \<Rightarrow> None | Some e \<Rightarrow> ev_EndTime e)"

definition GetTags :: "'ts event option \<Rightarrow> string list" where
  "GetTags x = (case x of None \<Rightarrow> [] | Some e \<Rightarrow> ev_Tags e)"

definition GetAnnotations :: "'ts event option \<Rightarrow> (string \<times> string) list" where
  "GetAnnotations x = (case x of None \<Rightarrow> [] | Some e \<Rightarrow> ev_Annotations e)"

lemmas getters = GetTypeCode_def GetExternalId_def GetId_def GetTitle_def GetDescription_def
  GetResource_def GetStartTime_def GetEndTime_def GetTags_def GetAnnotations_def

subsection \<open>Keys\<close>

record EventKey =
  key_ResourceTypeCode :: string
  key_ResourceExternalID :: string
  key_StartTime :: go_time
  key_ID :: string
  key_Timestamp :: u64
  key_IsDeleted :: bool

definition EventKeyFromProto ::
  "('ts option \<Rightarrow> go_time) \<Rightarrow> 'ts event option \<Rightarrow> u64 \<Rightarrow> bool \<Rightarrow> EventKey" where
  "EventKeyFromProto as_time event ts isDeleted =
     \<lparr>key_ResourceTypeCode = GetTypeCode (GetResource event),
      key_ResourceExternalID = GetExternalId (GetResource event),
      key_StartTime = as_time (GetStartTime event),
      key_ID = GetId event, key_Timestamp = ts, key_IsDeleted = isDeleted\<rparr>"

subsection \<open>Comparisons\<close>

definition compareEventKey :: "EventKey \<Rightarrow> EventKey \<Rightarrow> int" where
  "compareEventKey a b =
     (if After (key_StartTime a) (key_StartTime b) then 1
      else if Before (key_StartTime a) (key_StartTime b) then -1
      else if key_ID a > key_ID b then 1
      else if key_ID a < key_ID b then -1
      else 0)"

definition compareEventKeyTimestamp :: "EventKey \<Rightarrow> EventKey \<Rightarrow> int" where
  "compareEventKeyTimestamp a b =
     (if After (key_StartTime a) (key_StartTime b) then -1
      else if Before (key_StartTime a) (key_StartTime b) then 1
      else if key_ID a > key_ID b then -1
      else if key_ID a < key_ID b then 1
      else if key_Timestamp a < key_Timestamp b then 1
      else if key_Timestamp a > key_Timestamp b then -1
      else 0)"

text \<open>The function \<open>newMemTable\<close> gives to its skip list.\<close>

definition memTable_compare :: "EventKey \<Rightarrow> EventKey \<Rightarrow> int" where
  "memTable_compare a b =
     (if After (key_StartTime a) (key_StartTime b) then 1
      else if Before (key_StartTime a) (key_StartTime b) then -1
      else if key_ID a > key_ID b then 1
      else if key_ID a < key_ID b then -1
      else if key_Timestamp a < key_Timestamp b then -1
      else if key_Timestamp a > key_Timestamp b then 1
      else 0)"

text \<open>The methods of \<open>eventKeyMinHeap\<close>, a slice of keys; \<open>None\<close> is an index out of range.\<close>

definition heap_Len :: "EventKey list \<Rightarrow> nat" where
  "heap_Len h = length h"

definition heap_Less :: "EventKey list \<Rightarrow> nat \<Rightarrow> nat \<Rightarrow> bool option" where
  "heap_Less h i j =
     (if i < length h \<and> j < length h then
        (let timeI = key_StartTime (h ! i); timeJ = key_StartTime (h ! j)
         in Some (if Before timeI timeJ then True
                  else if After timeI timeJ then False
                  else key_ID (h ! i) < key_ID (h ! j)))
      else None)"

definition heap_Swap :: "EventKey list \<Rightarrow> nat \<Rightarrow> nat \<Rightarrow> EventKey list option" where
  "heap_Swap h i j =
     (if i < length h \<and> j < length h then Some (h[i := h ! j, j := h ! i]) else None)"

definition heap_Push :: "EventKey list \<Rightarrow> EventKey \<Rightarrow> EventKey list" where
  "heap_Push h x = h @ [x]"

definition heap_Pop :: "EventKey list \<Rightarrow> (EventKey \<times> EventKey list) option" where
  "heap_Pop h = (if h = [] then None else Some (last h, butlast h))"

subsection \<open>What a comparison function promises\<close>

text \<open>
  A comparison of three outcomes over keys that agrees with a strict linear order on what it
  looks at (\<open>view\<close>). The sorted containers and the merge rely on exactly this.
\<close>

locale three_way =
  fixes cmp :: "'k \<Rightarrow> 'k \<Rightarrow> int" and view :: "'k \<Rightarrow> 'v" and lt :: "'v \<Rightarrow> 'v \<Rightarrow> bool"
  assumes cmp_neg: "cmp a b < 0 \<longleftrightarrow> lt (view a) (view b)"
    and cmp_zero: "cmp a b = 0 \<longleftrightarrow> view a = view b"
    and lt_trans: "lt x y \<Longrightarrow> lt y z \<Longrightarrow> lt x z"
    and lt_irrefl: "\<not> lt x x"
    and lt_total: "lt x y \<or> x = y \<or> lt y x"
begin

lemma cmp_pos: "cmp a b > 0 \<longleftrightarrow> lt (view b) (view a)"
proof -
  have "cmp a b > 0 \<longleftrightarrow> \<not> cmp a b < 0 \<and> cmp a b \<noteq> 0" by linarith
  then show ?thesis
    using cmp_neg [of a b] cmp_zero [of a b] lt_total [of "view a" "view b"]
      lt_trans [of "view a" "view b" "view a"] lt_irrefl [of "view a"] by metis
qed

lemma antisym: "cmp a b > 0 \<longleftrightarrow> cmp b a < 0"
  by (simp add: cmp_pos cmp_neg)

lemma refl: "cmp a a = 0"
  by (simp add: cmp_zero)

lemma trans_le: "cmp a b \<le> 0 \<Longrightarrow> cmp b c \<le> 0 \<Longrightarrow> cmp a c \<le> 0"
proof -
  assume "cmp a b \<le> 0" and "cmp b c \<le> 0"
  then have "lt (view a) (view b) \<or> view a = view b" and "lt (view b) (view c) \<or> view b = view c"
    using cmp_neg cmp_zero by (auto simp: order_le_less)
  then have "lt (view a) (view c) \<or> view a = view c"
    using lt_trans by metis
  then show "cmp a c \<le> 0"
    using cmp_neg cmp_zero by (auto simp: order_le_less)
qed

end

text \<open>What \<open>compareEventKey\<close> looks at: the instant of the start time, then the id.\<close>

definition key_view :: "EventKey \<Rightarrow> (int \<times> nat) \<times> string" where
  "key_view k = (instant (key_StartTime k), key_ID k)"

definition key_less :: "(int \<times> nat) \<times> string \<Rightarrow> (int \<times> nat) \<times> string \<Rightarrow> bool" where
  "key_less x y \<longleftrightarrow> earlier (fst x) (fst y) \<or> (fst x = fst y \<and> snd x < snd y)"

text \<open>The order of the mem table and of the indices: the newest start first, then the greatest id,
  then the newest version.\<close>

definition version_view :: "EventKey \<Rightarrow> ((int \<times> nat) \<times> string) \<times> u64" where
  "version_view k = (key_view k, key_Timestamp k)"

definition version_less ::
  "((int \<times> nat) \<times> string) \<times> u64 \<Rightarrow> ((int \<times> nat) \<times> string) \<times> u64 \<Rightarrow> bool" where
  "version_less x y \<longleftrightarrow> key_less (fst y) (fst x) \<or> (fst x = fst y \<and> snd y < snd x)"

lemma key_less_trans: "key_less x y \<Longrightarrow> key_less y z \<Longrightarrow> key_less x z"
  by (auto simp: key_less_def intro: earlier_trans)

lemma key_less_irrefl [simp]: "\<not> key_less x x"
  by (simp add: key_less_def)

lemma key_less_total: "key_less x y \<or> x = y \<or> key_less y x"
  using earlier_total [of "fst x" "fst y"] by (cases x; cases y) (auto simp: key_less_def)

lemma key_less_asym: "key_less x y \<Longrightarrow> \<not> key_less y x"
  using key_less_trans key_less_irrefl by blast

lemma compareEventKey_cases:
  "compareEventKey a b = (if key_less (key_view b) (key_view a) then 1
     else if key_less (key_view a) (key_view b) then -1 else 0)"
proof -
  let ?i = "instant (key_StartTime a)" and ?j = "instant (key_StartTime b)"
  consider "earlier ?i ?j" "\<not> earlier ?j ?i" "?i \<noteq> ?j" | "earlier ?j ?i" "\<not> earlier ?i ?j" "?i \<noteq> ?j"
    | "?i = ?j"
    using earlier_total [of ?i ?j] earlier_asym earlier_irrefl by metis
  then show ?thesis
    by cases (auto simp: compareEventKey_def key_less_def key_view_def After_instant Before_instant)
qed

lemma three_way_of_cases:
  assumes "\<And>a b. cmp a b = (if lt (view b) (view a) then 1 else if lt (view a) (view b) then -1
      else (0 :: int))"
    and "\<And>x y z. lt x y \<Longrightarrow> lt y z \<Longrightarrow> lt x z" and "\<And>x. \<not> lt x x"
    and "\<And>x y. lt x y \<or> x = y \<or> lt y x"
  shows "three_way cmp view lt"
proof
  have asym: "lt x y \<Longrightarrow> \<not> lt y x" for x y using assms(2,3) by blast
  show "cmp a b < 0 \<longleftrightarrow> lt (view a) (view b)" for a b
    using asym by (simp add: assms(1))
  show "cmp a b = 0 \<longleftrightarrow> view a = view b" for a b
    using assms(3,4) by (simp add: assms(1)) metis
qed (use assms(2-4) in blast)+

interpretation key_order: three_way compareEventKey key_view key_less
  by (rule three_way_of_cases [OF compareEventKey_cases key_less_trans key_less_irrefl
      key_less_total])

lemma version_less_trans: "version_less x y \<Longrightarrow> version_less y z \<Longrightarrow> version_less x z"
  by (auto simp: version_less_def intro: key_less_trans)

lemma version_less_irrefl [simp]: "\<not> version_less x x"
  by (simp add: version_less_def)

lemma version_less_total: "version_less x y \<or> x = y \<or> version_less y x"
proof -
  have "snd x < snd y \<or> snd x = snd y \<or> snd y < snd x" by auto
  then show ?thesis
    using key_less_total [of "fst x" "fst y"] by (auto simp: version_less_def prod_eq_iff)
qed

lemma compareEventKeyTimestamp_cases:
  "compareEventKeyTimestamp a b = (if version_less (version_view b) (version_view a) then 1
     else if version_less (version_view a) (version_view b) then -1 else 0)"
proof -
  let ?i = "instant (key_StartTime a)" and ?j = "instant (key_StartTime b)"
  consider "earlier ?i ?j" "\<not> earlier ?j ?i" "?i \<noteq> ?j" | "earlier ?j ?i" "\<not> earlier ?i ?j" "?i \<noteq> ?j"
    | "?i = ?j"
    using earlier_total [of ?i ?j] earlier_asym earlier_irrefl by metis
  then show ?thesis
    by cases (auto simp: compareEventKeyTimestamp_def version_less_def version_view_def key_less_def
        key_view_def After_instant Before_instant)
qed

interpretation version_order: three_way compareEventKeyTimestamp version_view version_less
  by (rule three_way_of_cases [OF compareEventKeyTimestamp_cases version_less_trans
      version_less_irrefl version_less_total])

text \<open>A skip list built with \<open>LessThanFunc\<close> keeps its keys in the reverse of the given order: that
  reverse is \<open>compareEventKeyTimestamp\<close>, the order the indices are searched with.\<close>

lemma memTable_compare_reverse: "memTable_compare a b = - compareEventKeyTimestamp a b"
  by (simp add: memTable_compare_def compareEventKeyTimestamp_def)

end
