(* ===== verification/Filter_AST.thy ===== *)
theory Filter_AST
  imports Bitstar_Prelude
begin

text \<open>
  The syntax trees of filters (the types of \<open>src/filtering/filtering.go\<close>). A pointer is an
  option, also inside the slices of children, because the evaluators test for nil. The
  predicate \<open>wf_Expression\<close> and its companions describe the trees without nil and without empty
  lists; the parser only builds such trees.
\<close>

datatype Value = Value (Quoted: bool) (Value_Value: string)

datatype Member = Member (Member_Value: "Value option") (Fields: "Value option list")

datatype Comparable = Comparable (Comparable_Member: "Member option")

datatype Expression = Expression (Sequences: "Sequence option list")
  and Sequence = Sequence (Factors: "Factor option list")
  and Factor = Factor (Terms: "Term option list")
  and Term = Term (Negated: bool) (Term_Simple: "Simple option")
  and Simple = Simple (Simple_Restriction: "Restriction option") (Simple_Composite: "Expression option")
  and Restriction =
    Restriction (Restriction_Comparable: "Comparable option") (Comparator: string)
      (Restriction_Arg: "Arg option")
  and Arg = Arg (Arg_Comparable: "Comparable option") (Arg_Composite: "Expression option")

datatype Filter = Filter (Filter_Expression: "Expression option")

subsection \<open>Trees without nil\<close>

definition wf_Value :: "Value option \<Rightarrow> bool" where
  "wf_Value v \<longleftrightarrow> v \<noteq> None"

fun wf_Member :: "Member option \<Rightarrow> bool" where
  "wf_Member None \<longleftrightarrow> False"
| "wf_Member (Some (Member v fs)) \<longleftrightarrow> wf_Value v \<and> list_all wf_Value fs"

fun wf_Comparable :: "Comparable option \<Rightarrow> bool" where
  "wf_Comparable None \<longleftrightarrow> False"
| "wf_Comparable (Some (Comparable m)) \<longleftrightarrow> wf_Member m"

fun wf_Expression :: "Expression option \<Rightarrow> bool"
  and wf_Sequence :: "Sequence option \<Rightarrow> bool"
  and wf_Factor :: "Factor option \<Rightarrow> bool"
  and wf_Term :: "Term option \<Rightarrow> bool"
  and wf_Simple :: "Simple option \<Rightarrow> bool"
  and wf_Restriction :: "Restriction option \<Rightarrow> bool"
  and wf_Arg :: "Arg option \<Rightarrow> bool" where
  "wf_Expression None \<longleftrightarrow> False"
| "wf_Expression (Some (Expression ss)) \<longleftrightarrow> ss \<noteq> [] \<and> list_all wf_Sequence ss"
| "wf_Sequence None \<longleftrightarrow> False"
| "wf_Sequence (Some (Sequence fs)) \<longleftrightarrow> fs \<noteq> [] \<and> list_all wf_Factor fs"
| "wf_Factor None \<longleftrightarrow> False"
| "wf_Factor (Some (Factor ts)) \<longleftrightarrow> ts \<noteq> [] \<and> list_all wf_Term ts"
| "wf_Term None \<longleftrightarrow> False"
| "wf_Term (Some (Term n s)) \<longleftrightarrow> wf_Simple s"
| "wf_Simple None \<longleftrightarrow> False"
| "wf_Simple (Some (Simple r c)) \<longleftrightarrow>
     (case (r, c) of (Some r, None) \<Rightarrow> wf_Restriction (Some r)
      | (None, Some c) \<Rightarrow> wf_Expression (Some c) | _ \<Rightarrow> False)"
| "wf_Restriction None \<longleftrightarrow> False"
| "wf_Restriction (Some (Restriction c op a)) \<longleftrightarrow>
     wf_Comparable c \<and> (case a of None \<Rightarrow> op = [] | Some a \<Rightarrow> op \<noteq> [] \<and> wf_Arg (Some a))"
| "wf_Arg None \<longleftrightarrow> False"
| "wf_Arg (Some (Arg c e)) \<longleftrightarrow>
     (case (c, e) of (Some c, None) \<Rightarrow> wf_Comparable (Some c)
      | (None, Some e) \<Rightarrow> wf_Expression (Some e) | _ \<Rightarrow> False)"

definition wf_Filter :: "Filter \<Rightarrow> bool" where
  "wf_Filter f \<longleftrightarrow> (case Filter_Expression f of None \<Rightarrow> True | Some e \<Rightarrow> wf_Expression (Some e))"

end
