(* ===== verification/Filter_Semantics.thy ===== *)
theory Filter_Semantics
  imports Filter_AST
begin

text \<open>
  What a filter means: the errors its restrictions contain, in evaluation order, and whether it
  holds of an event, given which atomic conditions (a tag, an annotation) hold of it. The bitmap
  evaluator of the indices and the row-by-row matcher of the mem table are both proved against
  this. The errors are those of \<open>evalRestriction\<close> and \<open>matchRestriction\<close> (\<open>src/index.go\<close>,
  \<open>src/match_memtable_item.go\<close>), which check a restriction in the same way.
\<close>

datatype filter_error =
    InvalidRestriction
  | TagsRequiresArgument
  | TagsTypeMismatch
  | AnnotationsRequiresKeyAndValue
  | AnnotationsTypeMismatch
  | UnknownField string
  | NilFieldPanic          \<comment> \<open>\<open>Fields[0].Value\<close> on a nil element\<close>

text \<open>The chain \<open>r.Arg.Comparable.Member.Value\<close>, \<open>None\<close> when a pointer on it is nil.\<close>

definition arg_value :: "Arg option \<Rightarrow> Value option" where
  "arg_value a =
     (case a of None \<Rightarrow> None | Some (Arg c e) \<Rightarrow>
     (case c of None \<Rightarrow> None | Some (Comparable m) \<Rightarrow>
     (case m of None \<Rightarrow> None | Some (Member v fs) \<Rightarrow> v)))"

subsection \<open>Atomic conditions\<close>

datatype atom = HasTag string | HasAnnotation string string

text \<open>The condition a restriction stands for. Its comparator plays no part.\<close>

fun restriction_atom :: "Restriction \<Rightarrow> filter_error + atom" where
  "restriction_atom (Restriction (Some (Comparable (Some (Member (Some v) fs)))) op a) =
     (if Value_Value v = ''tags'' then
        (case arg_value a of
           None \<Rightarrow> Inl TagsRequiresArgument
         | Some w \<Rightarrow> if Quoted w then Inr (HasTag (Value_Value w)) else Inl TagsTypeMismatch)
      else if Value_Value v = ''annotations'' then
        (case (fs, arg_value a) of
           (f # _, Some w) \<Rightarrow>
             if Quoted w then
               (case f of None \<Rightarrow> Inl NilFieldPanic
                | Some k \<Rightarrow> Inr (HasAnnotation (Value_Value k) (Value_Value w)))
             else Inl AnnotationsTypeMismatch
         | _ \<Rightarrow> Inl AnnotationsRequiresKeyAndValue)
      else Inl (UnknownField (Value_Value v)))"
| "restriction_atom r = Inl InvalidRestriction"

definition error_of :: "Restriction \<Rightarrow> filter_error list" where
  "error_of r = (case restriction_atom r of Inl e \<Rightarrow> [e] | Inr _ \<Rightarrow> [])"

definition atom_holds :: "(atom \<Rightarrow> bool) \<Rightarrow> Restriction \<Rightarrow> bool" where
  "atom_holds P r = (case restriction_atom r of Inl _ \<Rightarrow> False | Inr a \<Rightarrow> P a)"

subsection \<open>Errors and truth of a filter\<close>

fun expression_errors :: "Expression option \<Rightarrow> filter_error list"
  and sequence_errors :: "Sequence option \<Rightarrow> filter_error list"
  and factor_errors :: "Factor option \<Rightarrow> filter_error list"
  and term_errors :: "Term option \<Rightarrow> filter_error list"
  and simple_errors :: "Simple option \<Rightarrow> filter_error list" where
  "expression_errors None = []"
| "expression_errors (Some (Expression ss)) = concat (map sequence_errors ss)"
| "sequence_errors None = []"
| "sequence_errors (Some (Sequence fs)) = concat (map factor_errors fs)"
| "factor_errors None = []"
| "factor_errors (Some (Factor ts)) = concat (map term_errors ts)"
| "term_errors None = []"
| "term_errors (Some (Term n s)) = simple_errors s"
| "simple_errors None = []"
| "simple_errors (Some (Simple r c)) =
     (case c of Some c \<Rightarrow> expression_errors (Some c)
      | None \<Rightarrow> (case r of Some r \<Rightarrow> error_of r | None \<Rightarrow> []))"

fun expression_holds :: "(atom \<Rightarrow> bool) \<Rightarrow> Expression option \<Rightarrow> bool"
  and sequence_holds :: "(atom \<Rightarrow> bool) \<Rightarrow> Sequence option \<Rightarrow> bool"
  and factor_holds :: "(atom \<Rightarrow> bool) \<Rightarrow> Factor option \<Rightarrow> bool"
  and term_holds :: "(atom \<Rightarrow> bool) \<Rightarrow> Term option \<Rightarrow> bool"
  and simple_holds :: "(atom \<Rightarrow> bool) \<Rightarrow> Simple option \<Rightarrow> bool" where
  "expression_holds P None \<longleftrightarrow> True"
| "expression_holds P (Some (Expression ss)) \<longleftrightarrow> (\<forall>s \<in> set ss. sequence_holds P s)"
| "sequence_holds P None \<longleftrightarrow> True"
| "sequence_holds P (Some (Sequence fs)) \<longleftrightarrow> (\<forall>f \<in> set fs. factor_holds P f)"
| "factor_holds P None \<longleftrightarrow> True"
| "factor_holds P (Some (Factor ts)) \<longleftrightarrow> (\<exists>t \<in> set ts. term_holds P t)"
| "term_holds P None \<longleftrightarrow> True"
| "term_holds P (Some (Term n s)) \<longleftrightarrow> simple_holds P s \<noteq> n"
| "simple_holds P None \<longleftrightarrow> True"
| "simple_holds P (Some (Simple r c)) \<longleftrightarrow>
     (case c of Some c \<Rightarrow> expression_holds P (Some c)
      | None \<Rightarrow> (case r of Some r \<Rightarrow> atom_holds P r | None \<Rightarrow> True))"

definition filter_errors :: "Filter option \<Rightarrow> filter_error list" where
  "filter_errors f = (case f of None \<Rightarrow> [] | Some f \<Rightarrow> expression_errors (Filter_Expression f))"

definition filter_holds :: "(atom \<Rightarrow> bool) \<Rightarrow> Filter option \<Rightarrow> bool" where
  "filter_holds P f = (case f of None \<Rightarrow> True | Some f \<Rightarrow> expression_holds P (Filter_Expression f))"

definition wf_filter :: "Filter option \<Rightarrow> bool" where
  "wf_filter f \<longleftrightarrow> (case f of None \<Rightarrow> True | Some f \<Rightarrow> wf_Filter f)"

end
