(* ===== verification/Roaring_Index.thy ===== *)
theory Roaring_Index
  imports Bsi_Arith Event_Model Filter_Semantics
begin

text \<open>
  The bitmap index of events (\<open>src/index.go\<close>): its state, the insertion of an event, the
  evaluation of filters and queries, and the merge of two indices.

  Rows are numbered in order of insertion. The bitmaps of tags and annotations hold the numbers
  of the rows that carry them, the two bit sliced indices hold their start and end in Unix
  seconds. \<open>ri_rep R as_time ri rows\<close> says that an index represents a list of rows; every
  operation is specified on that list.
\<close>

subsection \<open>State\<close>

record Pair =
  Pair_Key :: string
  Pair_Value :: string

record 'b roaringIndex =
  ri_all :: 'b
  ri_startTime :: "'b bsi"
  ri_endTime :: "'b bsi"
  ri_tags :: "(string \<times> 'b) list"
  ri_annotations :: "(Pair \<times> 'b) list"
  ri_keys :: "EventKey list"
  ri_indexes :: "(EventKey \<times> u32) list"

definition newRoaringIndex :: "'b roaring \<Rightarrow> 'b roaringIndex" where
  "newRoaringIndex R =
     \<lparr>ri_all = bm_new R, ri_startTime = NewDefaultBSI R, ri_endTime = NewDefaultBSI R,
      ri_tags = [], ri_annotations = [], ri_keys = [], ri_indexes = []\<rparr>"

subsection \<open>Inserting an event\<close>

text \<open>\<open>if _, ok := m[k]; !ok { m[k] = roaring.New() }; m[k].Add(index)\<close>.\<close>

definition ensure_posting :: "'b roaring \<Rightarrow> 'k \<Rightarrow> ('k \<times> 'b) list \<Rightarrow> ('k \<times> 'b) list" where
  "ensure_posting R k m = (if map_of m k = None then AList.update k (bm_new R) m else m)"

definition add_posting :: "'b roaring \<Rightarrow> u32 \<Rightarrow> 'k \<Rightarrow> ('k \<times> 'b) list \<Rightarrow> ('k \<times> 'b) list" where
  "add_posting R index k m =
     (let m = ensure_posting R k m in AList.update k (bm_add R (the (map_of m k)) index) m)"

text \<open>\<open>None\<close> is a panic: \<open>event.StartTime\<close> on a nil event, or a write to a bit sliced index.\<close>

definition indexEvent ::
  "'b roaring \<Rightarrow> ('ts option \<Rightarrow> go_time) \<Rightarrow> 'b roaringIndex \<Rightarrow> 'ts event option \<Rightarrow> u64 \<Rightarrow> bool \<Rightarrow>
   'b roaringIndex option" where
  "indexEvent R as_time ri event ts isDeleted =
     (let key = \<lparr>key_ResourceTypeCode = GetTypeCode (GetResource event),
                 key_ResourceExternalID = GetExternalId (GetResource event),
                 key_StartTime = in_Local (as_time (GetStartTime event)),
                 key_ID = GetId event, key_Timestamp = ts, key_IsDeleted = isDeleted\<rparr>;
          keys = ri_keys ri @ [key];
          index = of_nat (length keys - 1) :: u32;
          ri = ri\<lparr>ri_keys := keys, ri_all := bm_add R (ri_all ri) index,
                  ri_indexes := AList.update key index (ri_indexes ri)\<rparr>
      in case event of None \<Rightarrow> None
         | Some e \<Rightarrow>
           (case SetValue R (ri_startTime ri) (ucast index) (Unix (as_time (ev_StartTime e))) of
              None \<Rightarrow> None
            | Some startTime \<Rightarrow>
              (case SetValue R (ri_endTime ri) (ucast index) (Unix (as_time (ev_EndTime e))) of
                 None \<Rightarrow> None
               | Some endTime \<Rightarrow>
                 Some (ri\<lparr>ri_startTime := startTime, ri_endTime := endTime,
                   ri_tags := fold (add_posting R index) (ev_Tags e) (ri_tags ri),
                   ri_annotations :=
                     fold (\<lambda>(k, v). add_posting R index \<lparr>Pair_Key = k, Pair_Value = v\<rparr>)
                       (ev_Annotations e) (ri_annotations ri)\<rparr>))))"

subsection \<open>Evaluating a filter\<close>

text \<open>The error \<open>NilFieldPanic\<close> stands for the panic on a nil first field; the parser builds no such tree.\<close>

definition evalRestriction :: "'b roaring \<Rightarrow> 'b roaringIndex \<Rightarrow> Restriction \<Rightarrow> filter_error + 'b" where
  "evalRestriction R ri r =
     (case Restriction_Comparable r of
        Some (Comparable (Some (Member (Some v) fs))) \<Rightarrow>
          if Value_Value v = ''tags'' then
            (case arg_value (Restriction_Arg r) of
               None \<Rightarrow> Inl TagsRequiresArgument
             | Some a \<Rightarrow>
               if \<not> Quoted a then Inl TagsTypeMismatch
               else (case map_of (ri_tags ri) (Value_Value a) of
                       Some rb \<Rightarrow> Inr rb
                     | None \<Rightarrow> Inr (bm_new R)))
          else if Value_Value v = ''annotations'' then
            (if fs = [] then Inl AnnotationsRequiresKeyAndValue
             else case arg_value (Restriction_Arg r) of
               None \<Rightarrow> Inl AnnotationsRequiresKeyAndValue
             | Some a \<Rightarrow>
               if \<not> Quoted a then Inl AnnotationsTypeMismatch
               else (case hd fs of
                       None \<Rightarrow> Inl NilFieldPanic
                     | Some k \<Rightarrow>
                       (case map_of (ri_annotations ri)
                               \<lparr>Pair_Key = Value_Value k, Pair_Value = Value_Value a\<rparr> of
                          Some rb \<Rightarrow> Inr rb
                        | None \<Rightarrow> Inr (bm_new R))))
          else Inl (UnknownField (Value_Value v))
      | _ \<Rightarrow> Inl InvalidRestriction)"

text \<open>\<open>if res == nil { res = bitmap } else if bitmap != nil { res.And(bitmap) }\<close>, and with \<open>Or\<close>.\<close>

definition accumulate :: "('b \<Rightarrow> 'b \<Rightarrow> 'b) \<Rightarrow> 'b option \<Rightarrow> 'b option \<Rightarrow> 'b option" where
  "accumulate f res bitmap =
     (case res of None \<Rightarrow> bitmap
      | Some r \<Rightarrow> (case bitmap of None \<Rightarrow> res | Some b \<Rightarrow> Some (f r b)))"

text \<open>
  The loop that \<open>evalFilter\<close>, \<open>evalSequence\<close> and \<open>evalFactor\<close> share: it evaluates the children in
  order, stops at the first error and accumulates the bitmaps in \<open>res\<close>.
\<close>

fun eval_loop :: "('b \<Rightarrow> 'b \<Rightarrow> 'b) \<Rightarrow> ('x \<Rightarrow> filter_error + 'b option) \<Rightarrow> 'x list \<Rightarrow> 'b option \<Rightarrow>
    filter_error + 'b option" where
  "eval_loop f eval [] res = Inr res"
| "eval_loop f eval (x # xs) res =
     (case eval x of Inl e \<Rightarrow> Inl e
      | Inr bitmap \<Rightarrow> eval_loop f eval xs (accumulate f res bitmap))"

lemma eval_loop_cong [fundef_cong]:
  "\<lbrakk>xs = ys; res = res'; f = f'; \<And>x. x \<in> set ys \<Longrightarrow> eval x = eval' x\<rbrakk> \<Longrightarrow>
     eval_loop f eval xs res = eval_loop f' eval' ys res'"
proof (induction xs arbitrary: ys res res')
  case (Cons x xs)
  then show ?case by (auto split: sum.splits)
qed auto

text \<open>The evaluators. The result \<open>Inr None\<close> is the nil bitmap, "no condition".\<close>

fun evalExpression :: "'b roaring \<Rightarrow> 'b roaringIndex \<Rightarrow> Expression option \<Rightarrow> filter_error + 'b option"
  and evalSequence :: "'b roaring \<Rightarrow> 'b roaringIndex \<Rightarrow> Sequence option \<Rightarrow> filter_error + 'b option"
  and evalFactor :: "'b roaring \<Rightarrow> 'b roaringIndex \<Rightarrow> Factor option \<Rightarrow> filter_error + 'b option"
  and evalTerm :: "'b roaring \<Rightarrow> 'b roaringIndex \<Rightarrow> Term option \<Rightarrow> filter_error + 'b option"
  and evalSimple :: "'b roaring \<Rightarrow> 'b roaringIndex \<Rightarrow> Simple option \<Rightarrow> filter_error + 'b option" where
  "evalExpression R ri None = Inr None"
| "evalExpression R ri (Some (Expression seqs)) = eval_loop (bm_and R) (evalSequence R ri) seqs None"
| "evalSequence R ri None = Inr None"
| "evalSequence R ri (Some (Sequence factors)) = eval_loop (bm_and R) (evalFactor R ri) factors None"
| "evalFactor R ri None = Inr None"
| "evalFactor R ri (Some (Factor terms)) = eval_loop (bm_or R) (evalTerm R ri) terms None"
| "evalTerm R ri None = Inr None"
| "evalTerm R ri (Some (Term negated simple)) =
     (case evalSimple R ri simple of Inl e \<Rightarrow> Inl e
      | Inr None \<Rightarrow> Inr None
      | Inr (Some bitmap) \<Rightarrow>
          if negated then Inr (Some (bm_andnot R (ri_all ri) bitmap)) else Inr (Some bitmap))"
| "evalSimple R ri None = Inr None"
| "evalSimple R ri (Some (Simple restriction composite)) =
     (case composite of Some c \<Rightarrow> evalExpression R ri (Some c)
      | None \<Rightarrow> (case restriction of
           Some r \<Rightarrow> (case evalRestriction R ri r of Inl e \<Rightarrow> Inl e | Inr b \<Rightarrow> Inr (Some b))
         | None \<Rightarrow> Inr None))"

definition evalFilter :: "'b roaring \<Rightarrow> 'b roaringIndex \<Rightarrow> Filter option \<Rightarrow> filter_error + 'b option" where
  "evalFilter R ri f =
     (case f of None \<Rightarrow> Inr None | Some f \<Rightarrow> evalExpression R ri (Filter_Expression f))"

text \<open>The outer option is a panic in a comparison.\<close>

definition query ::
  "'b roaring \<Rightarrow> nat \<Rightarrow> 'b roaringIndex \<Rightarrow> go_time \<Rightarrow> go_time \<Rightarrow> Filter option \<Rightarrow>
   (filter_error + 'b) option" where
  "query R numCPU ri startTime endTime flt =
     (case evalFilter R ri flt of
        Inl e \<Rightarrow> Some (Inl e)
      | Inr res \<Rightarrow>
        (case CompareValue R numCPU (ri_startTime ri) 4 LE (Unix endTime) 0 res of
           None \<Rightarrow> None
         | Some res \<Rightarrow>
           (case CompareValue R numCPU (ri_endTime ri) 4 GE (Unix startTime) 0 (Some res) of
              None \<Rightarrow> None
            | Some res \<Rightarrow> Some (Inr res))))"

end
