(* ===== verification/Index_Query.thy ===== *)
theory Index_Query
  imports Roaring_Index
begin

text \<open>
  What an index promises (\<open>src/index.go\<close>). \<open>ri_rep\<close> relates an index to the list of rows it
  stands for: their keys, the postings of their tags and annotations, and their times. It is
  established by inserting events one by one; under it, a filter evaluates to exactly the rows
  it holds of, and a query to those that also overlap the asked time span.
\<close>

subsection \<open>Rows\<close>

type_synonym 'ts row = "'ts event \<times> u64 \<times> bool"

definition row_key :: "('ts option \<Rightarrow> go_time) \<Rightarrow> 'ts row \<Rightarrow> EventKey" where
  "row_key as_time row =
     (case row of (e, ts, d) \<Rightarrow>
        (EventKeyFromProto as_time (Some e) ts d)
          \<lparr>key_StartTime := in_Local (as_time (ev_StartTime e))\<rparr>)"

fun event_sat :: "'ts event \<Rightarrow> atom \<Rightarrow> bool" where
  "event_sat e (HasTag t) \<longleftrightarrow> t \<in> set (ev_Tags e)"
| "event_sat e (HasAnnotation k v) \<longleftrightarrow> (k, v) \<in> set (ev_Annotations e)"

definition row_start :: "('ts option \<Rightarrow> go_time) \<Rightarrow> 'ts row \<Rightarrow> i64" where
  "row_start as_time row = Unix (as_time (ev_StartTime (fst row)))"

definition row_end :: "('ts option \<Rightarrow> go_time) \<Rightarrow> 'ts row \<Rightarrow> i64" where
  "row_end as_time row = Unix (as_time (ev_EndTime (fst row)))"

text \<open>The rows a query asks for.\<close>

definition row_matches ::
  "('ts option \<Rightarrow> go_time) \<Rightarrow> go_time \<Rightarrow> go_time \<Rightarrow> Filter option \<Rightarrow> 'ts row \<Rightarrow> bool" where
  "row_matches as_time startTime endTime flt row \<longleftrightarrow>
     filter_holds (event_sat (fst row)) flt \<and>
     sint (row_start as_time row) \<le> sint (Unix endTime) \<and>
     sint (Unix startTime) \<le> sint (row_end as_time row)"

subsection \<open>The representation\<close>

definition bsi_rows :: "'b roaring \<Rightarrow> 'b bsi \<Rightarrow> ('r \<Rightarrow> i64) \<Rightarrow> 'r list \<Rightarrow> bool" where
  "bsi_rows R b f rows \<longleftrightarrow> bsi_wf R b \<and> auto_sized b \<and> \<not> runOptimized b \<and> BitCount b \<le> 64 \<and>
     (\<forall>c. bsi_val R b c = (if unat c < length rows then Some (f (rows ! unat c)) else None))"

definition postings :: "'b roaring \<Rightarrow> ('k \<times> 'b) list \<Rightarrow> ('r \<Rightarrow> 'k \<Rightarrow> bool) \<Rightarrow> 'r list \<Rightarrow> bool" where
  "postings R m P rows \<longleftrightarrow> distinct (map fst m) \<and>
     (\<forall>k c. (\<exists>b. map_of m k = Some b \<and> bm_contains R b c) \<longleftrightarrow>
       unat c < length rows \<and> P (rows ! unat c) k)"

definition index_of_keys :: "(EventKey \<times> u32) list \<Rightarrow> EventKey list \<Rightarrow> bool" where
  "index_of_keys m ks \<longleftrightarrow> distinct (map fst m) \<and>
     (\<forall>k c. map_of m k = Some c \<longrightarrow> unat c < length ks \<and> ks ! unat c = k) \<and>
     (\<forall>k \<in> set ks. map_of m k \<noteq> None)"

definition ri_rep ::
  "'b roaring \<Rightarrow> ('ts option \<Rightarrow> go_time) \<Rightarrow> 'b roaringIndex \<Rightarrow> 'ts row list \<Rightarrow> bool" where
  "ri_rep R as_time ri rows \<longleftrightarrow> length rows \<le> 2 ^ 32 \<and>
     ri_keys ri = map (row_key as_time) rows \<and>
     (\<forall>c. bm_contains R (ri_all ri) c \<longleftrightarrow> unat c < length rows) \<and>
     bsi_rows R (ri_startTime ri) (row_start as_time) rows \<and>
     bsi_rows R (ri_endTime ri) (row_end as_time) rows \<and>
     postings R (ri_tags ri) (\<lambda>row t. t \<in> set (ev_Tags (fst row))) rows \<and>
     postings R (ri_annotations ri)
       (\<lambda>row p. (Pair_Key p, Pair_Value p) \<in> set (ev_Annotations (fst row))) rows \<and>
     index_of_keys (ri_indexes ri) (ri_keys ri)"

lemma ri_repD:
  assumes "ri_rep R as_time ri rows"
  shows "length rows \<le> 2 ^ 32" and "ri_keys ri = map (row_key as_time) rows"
    and "\<And>c. bm_contains R (ri_all ri) c \<longleftrightarrow> unat c < length rows"
    and "bsi_rows R (ri_startTime ri) (row_start as_time) rows"
    and "bsi_rows R (ri_endTime ri) (row_end as_time) rows"
    and "postings R (ri_tags ri) (\<lambda>row t. t \<in> set (ev_Tags (fst row))) rows"
    and "postings R (ri_annotations ri)
       (\<lambda>row p. (Pair_Key p, Pair_Value p) \<in> set (ev_Annotations (fst row))) rows"
    and "index_of_keys (ri_indexes ri) (ri_keys ri)"
  using assms unfolding ri_rep_def by blast+

context roaring_bitmap
begin

lemma ri_rep_new: "ri_rep R as_time (newRoaringIndex R) []"
  using NewBSI_wf [of 0 0] NewBSI_val [of 0 0]
  by (simp add: ri_rep_def newRoaringIndex_def bsi_rows_def postings_def index_of_keys_def
      NewDefaultBSI_def NewBSI_def Let_def auto_sized_def BitCount_def Len64_def)

subsection \<open>Insertion\<close>

lemma new_id:
  "n < 2 ^ 32 \<Longrightarrow> unat (of_nat n :: u32) = n"
  by (simp add: unat_of_nat take_bit_nat_eq_self)

lemma id_cases:
  assumes "n < 2 ^ 32"
  shows "unat c < Suc n \<longleftrightarrow> unat c < n \<or> c = (of_nat n :: u32)"
proof -
  have "c = of_nat n \<longleftrightarrow> unat c = n"
    using assms by (metis new_id word_unat_eq_iff)
  then show ?thesis by auto
qed

lemma bsi_rows_snoc:
  assumes "bsi_rows R b f rows" and n: "length rows < 2 ^ 32"
  shows "\<exists>b'. SetValue R b (ucast (of_nat (length rows) :: u32)) (f row) = Some b' \<and>
    bsi_rows R b' f (rows @ [row])"
proof -
  let ?c = "of_nat (length rows) :: u32"
  from assms have b: "bsi_wf R b" "auto_sized b" "\<not> runOptimized b" "BitCount b \<le> 64"
    and val: "\<And>c. bsi_val R b c = (if unat c < length rows then Some (f (rows ! unat c)) else None)"
    by (auto simp: bsi_rows_def)
  obtain ba where ba: "widen R b (f row) = Some ba"
    using widen_defined_iff [of R b "f row"] b by auto
  then obtain b' where b': "SetValue R b (ucast ?c) (f row) = Some b'"
    by (simp add: SetValue_def Let_def)
  have "BitCount b' = length ba" "auto_sized b'" "\<not> runOptimized b'"
    using b' ba b by (auto simp: SetValue_def Let_def BitCount_def auto_sized_def)
  moreover have "length ba \<le> 64"
    using widen_length [OF ba] b(2,4) by simp
  moreover have "bsi_wf R b'" using SetValue_wf [OF b(1) b'] .
  moreover have "bsi_val R b' c =
      (if unat c < length (rows @ [row]) then Some (f ((rows @ [row]) ! unat c)) else None)" for c
    using SetValue_val [OF b(1) b'] id_cases [OF n, of c] new_id [OF n] b(2)
    by (auto simp: val stored_def nth_append)
  ultimately show ?thesis using b' by (auto simp: bsi_rows_def)
qed

definition in_posting :: "('k \<times> 'b) list \<Rightarrow> 'k \<Rightarrow> u32 \<Rightarrow> bool" where
  "in_posting m k c \<longleftrightarrow> (\<exists>b. map_of m k = Some b \<and> bm_contains R b c)"

lemma add_posting_distinct: "distinct (map fst m) \<Longrightarrow> distinct (map fst (add_posting R i k m))"
  by (simp add: add_posting_def ensure_posting_def Let_def distinct_update)

lemma in_add_posting:
  "in_posting (add_posting R i k m) k' c \<longleftrightarrow> in_posting m k' c \<or> (k' = k \<and> c = i)"
  by (auto simp: in_posting_def add_posting_def ensure_posting_def Let_def update_conv')

lemma in_add_postings:
  "in_posting (fold (add_posting R i) ks m) k c \<longleftrightarrow> in_posting m k c \<or> (k \<in> set ks \<and> c = i)"
  by (induction ks arbitrary: m) (auto simp: in_add_posting)

lemma add_postings_distinct:
  "distinct (map fst m) \<Longrightarrow> distinct (map fst (fold (add_posting R i) ks m))"
  by (induction ks arbitrary: m) (simp_all add: add_posting_distinct)

lemma postings_iff:
  "postings R m P rows \<longleftrightarrow> distinct (map fst m) \<and>
     (\<forall>k c. in_posting m k c \<longleftrightarrow> unat c < length rows \<and> P (rows ! unat c) k)"
  by (simp add: postings_def in_posting_def)

lemma postings_snoc:
  assumes "postings R m P rows" and n: "length rows < 2 ^ 32" and P: "\<And>k. P row k \<longleftrightarrow> k \<in> set ks"
  shows "postings R (fold (add_posting R (of_nat (length rows))) ks m) P (rows @ [row])"
proof -
  have "in_posting (fold (add_posting R (of_nat (length rows))) ks m) k c \<longleftrightarrow>
      unat c < length (rows @ [row]) \<and> P ((rows @ [row]) ! unat c) k" for k c
    using assms(1) id_cases [OF n, of c] new_id [OF n]
    by (auto simp: in_add_postings postings_iff nth_append P)
  with assms(1) show ?thesis by (simp add: postings_iff add_postings_distinct)
qed

lemma index_of_keys_snoc:
  assumes "index_of_keys m ks" and n: "length ks < 2 ^ 32"
  shows "index_of_keys (AList.update k (of_nat (length ks)) m) (ks @ [k])"
  using assms new_id [OF n]
  by (auto simp: index_of_keys_def update_conv' distinct_update nth_append less_SucI
      split: if_splits)

lemma fold_pairs:
  "fold (\<lambda>(k, v). f \<lparr>Pair_Key = k, Pair_Value = v\<rparr>) kvs m =
   fold f (map (\<lambda>(k, v). \<lparr>Pair_Key = k, Pair_Value = v\<rparr>) kvs) m"
  by (induction kvs arbitrary: m) auto

lemma pair_in_set:
  "p \<in> set (map (\<lambda>(k, v). \<lparr>Pair_Key = k, Pair_Value = v\<rparr>) kvs) \<longleftrightarrow>
     (Pair_Key p, Pair_Value p) \<in> set kvs"
  by (cases p) (auto intro: image_eqI [rotated])

lemma indexEvent_rep:
  assumes rep: "ri_rep R as_time ri rows" and n: "length rows < 2 ^ 32"
  shows "\<exists>ri'. indexEvent R as_time ri (Some e) ts d = Some ri' \<and>
    ri_rep R as_time ri' (rows @ [(e, ts, d)])"
proof -
  let ?row = "(e, ts, d)"
  let ?i = "of_nat (length rows) :: u32"
  from rep have keys: "ri_keys ri = map (row_key as_time) rows" by (simp add: ri_rep_def)
  from rep have b: "bsi_rows R (ri_startTime ri) (row_start as_time) rows"
    "bsi_rows R (ri_endTime ri) (row_end as_time) rows" by (simp_all add: ri_rep_def)
  from bsi_rows_snoc [OF b(1) n, of ?row] obtain st where
    st: "SetValue R (ri_startTime ri) (ucast ?i) (row_start as_time ?row) = Some st"
    "bsi_rows R st (row_start as_time) (rows @ [?row])" by blast
  from bsi_rows_snoc [OF b(2) n, of ?row] obtain en where
    en: "SetValue R (ri_endTime ri) (ucast ?i) (row_end as_time ?row) = Some en"
    "bsi_rows R en (row_end as_time) (rows @ [?row])" by blast
  let ?ri = "ri\<lparr>ri_keys := ri_keys ri @ [row_key as_time ?row],
    ri_all := bm_add R (ri_all ri) ?i,
    ri_indexes := AList.update (row_key as_time ?row) ?i (ri_indexes ri),
    ri_startTime := st, ri_endTime := en,
    ri_tags := fold (add_posting R ?i) (ev_Tags e) (ri_tags ri),
    ri_annotations := fold (\<lambda>(k, v). add_posting R ?i \<lparr>Pair_Key = k, Pair_Value = v\<rparr>)
      (ev_Annotations e) (ri_annotations ri)\<rparr>"
  have an: "postings R (fold (add_posting R ?i)
      (map (\<lambda>(k, v). \<lparr>Pair_Key = k, Pair_Value = v\<rparr>) (ev_Annotations e)) (ri_annotations ri))
      (\<lambda>row p. (Pair_Key p, Pair_Value p) \<in> set (ev_Annotations (fst row))) (rows @ [?row])"
    by (rule postings_snoc [OF _ n])
      (use rep in \<open>simp add: ri_rep_def\<close>, simp only: pair_in_set fst_conv)
  have "indexEvent R as_time ri (Some e) ts d = Some ?ri"
    using st(1) en(1) keys
    by (simp add: indexEvent_def Let_def row_start_def row_end_def row_key_def EventKeyFromProto_def
        getters)
  moreover have "postings R (ri_tags ?ri) (\<lambda>row t. t \<in> set (ev_Tags (fst row))) (rows @ [?row])"
    using rep postings_snoc [OF _ n, of "ri_tags ri" _ ?row "ev_Tags e"] by (simp add: ri_rep_def)
  moreover have "postings R (ri_annotations ?ri)
      (\<lambda>row p. (Pair_Key p, Pair_Value p) \<in> set (ev_Annotations (fst row))) (rows @ [?row])"
    using an by (simp only: fold_pairs) simp
  moreover have "index_of_keys (ri_indexes ?ri) (ri_keys ?ri)"
    using rep index_of_keys_snoc [of "ri_indexes ri" "ri_keys ri"] n keys by (simp add: ri_rep_def)
  moreover have "bm_contains R (ri_all ?ri) c \<longleftrightarrow> unat c < length (rows @ [?row])" for c
    using rep id_cases [OF n, of c] by (auto simp: ri_rep_def)
  ultimately show ?thesis
    using st(2) en(2) n keys by (simp add: ri_rep_def)
qed

subsection \<open>Filters\<close>

text \<open>An evaluation that stops at the first of the errors \<open>es\<close>, or gives the rows below \<open>n\<close> for
  which \<open>H\<close> holds.\<close>

definition evals_to ::
  "nat \<Rightarrow> (nat \<Rightarrow> bool) \<Rightarrow> filter_error + 'b option \<Rightarrow> filter_error list \<Rightarrow> bool" where
  "evals_to n H result es \<longleftrightarrow>
     (case es of
        e # _ \<Rightarrow> result = Inl e
      | [] \<Rightarrow> \<exists>bm. result = Inr (Some bm) \<and> (\<forall>c. bm_contains R bm c \<longleftrightarrow> unat c < n \<and> H (unat c)))"

lemma evals_to_Nil: "evals_to n H result [] \<longleftrightarrow>
    (\<exists>bm. result = Inr (Some bm) \<and> (\<forall>c. bm_contains R bm c \<longleftrightarrow> unat c < n \<and> H (unat c)))"
  by (simp add: evals_to_def)

lemma evals_to_error: "es \<noteq> [] \<Longrightarrow> evals_to n H result es \<longleftrightarrow> result = Inl (hd es)"
  by (cases es) (simp_all add: evals_to_def)

lemma eval_loop_evals:
  assumes "\<forall>x \<in> set xs. evals_to n (H x) (eval x) (es x)"
    and op: "\<And>a b c. bm_contains R (f a b) c \<longleftrightarrow> op (bm_contains R a c) (bm_contains R b c)"
    and opF: "\<not> op False False"
    and "\<forall>c. bm_contains R r c \<longleftrightarrow> unat c < n \<and> G (unat c)"
  shows "evals_to n (\<lambda>i. foldl (\<lambda>q x. op q (H x i)) (G i) xs) (eval_loop f eval xs (Some r))
    (concat (map es xs))"
  using assms(1,4)
proof (induction xs arbitrary: r G)
  case Nil
  then show ?case by (simp add: evals_to_Nil)
next
  case (Cons x xs)
  show ?case
  proof (cases "es x = []")
    case False
    with Cons.prems(1) have "eval x = Inl (hd (es x))" by (simp add: evals_to_error)
    with False show ?thesis by (simp add: evals_to_error)
  next
    case True
    with Cons.prems(1) obtain b where b: "eval x = Inr (Some b)"
      "\<forall>c. bm_contains R b c \<longleftrightarrow> unat c < n \<and> H x (unat c)" by (auto simp: evals_to_Nil)
    have "\<forall>c. bm_contains R (f r b) c \<longleftrightarrow> unat c < n \<and> op (G (unat c)) (H x (unat c))"
      (is "\<forall>c. ?P c")
    proof
      fix c show "?P c"
        using Cons.prems(2) b(2) opF by (cases "unat c < n") (simp_all add: op)
    qed
    from Cons.IH [OF _ this] Cons.prems(1) True b(1) show ?thesis by (simp add: accumulate_def)
  qed
qed

lemma eval_loop_start:
  assumes "xs \<noteq> []" and "\<forall>x \<in> set xs. evals_to n (H x) (eval x) (es x)"
    and "\<And>a b c. bm_contains R (f a b) c \<longleftrightarrow> op (bm_contains R a c) (bm_contains R b c)"
    and "\<not> op False False"
  shows "evals_to n (\<lambda>i. foldl (\<lambda>q x. op q (H x i)) (H (hd xs) i) (tl xs))
    (eval_loop f eval xs None) (concat (map es xs))"
proof -
  obtain x ys where xs: "xs = x # ys" using assms(1) by (cases xs) auto
  show ?thesis
  proof (cases "es x = []")
    case False
    with assms(2) have "eval x = Inl (hd (es x))" by (simp add: evals_to_error xs)
    with False show ?thesis by (simp add: evals_to_error xs)
  next
    case True
    with assms(2) obtain b where b: "eval x = Inr (Some b)"
      "\<forall>c. bm_contains R b c \<longleftrightarrow> unat c < n \<and> H x (unat c)" by (auto simp: evals_to_Nil xs)
    have "\<forall>x \<in> set ys. evals_to n (H x) (eval x) (es x)" using assms(2) by (simp add: xs)
    from eval_loop_evals [of ys n H eval es f op, OF this assms(3,4) b(2)] b(1) True show ?thesis
      by (simp add: xs accumulate_def)
  qed
qed

lemma foldl_conj: "foldl (\<lambda>q x. q \<and> H x) p xs \<longleftrightarrow> p \<and> (\<forall>x \<in> set xs. H x)"
  by (induction xs arbitrary: p) auto

lemma foldl_disj: "foldl (\<lambda>q x. q \<or> H x) p xs \<longleftrightarrow> p \<or> (\<exists>x \<in> set xs. H x)"
  by (induction xs arbitrary: p) auto

lemma eval_loop_all:
  assumes "xs \<noteq> []" and "\<forall>x \<in> set xs. evals_to n (H x) (eval x) (es x)"
  shows "evals_to n (\<lambda>i. \<forall>x \<in> set xs. H x i) (eval_loop (bm_and R) eval xs None) (concat (map es xs))"
  using eval_loop_start [OF assms, of "bm_and R" "(\<and>)"] assms(1)
  by (cases xs) (simp_all add: foldl_conj)

lemma eval_loop_any:
  assumes "xs \<noteq> []" and "\<forall>x \<in> set xs. evals_to n (H x) (eval x) (es x)"
  shows "evals_to n (\<lambda>i. \<exists>x \<in> set xs. H x i) (eval_loop (bm_or R) eval xs None) (concat (map es xs))"
  using eval_loop_start [OF assms, of "bm_or R" "(\<or>)"] assms(1)
  by (cases xs) (simp_all add: foldl_disj)

lemma lookup_posting:
  assumes "postings R m P rows"
  shows "\<exists>bm. (case map_of m k of Some rb \<Rightarrow> Inr rb | None \<Rightarrow> Inr (bm_new R)) = (Inr bm :: 'e + 'b) \<and>
    (\<forall>c. bm_contains R bm c \<longleftrightarrow> unat c < length rows \<and> P (rows ! unat c) k)"
proof -
  from assms have "\<And>c. (\<exists>b. map_of m k = Some b \<and> bm_contains R b c) \<longleftrightarrow>
      unat c < length rows \<and> P (rows ! unat c) k"
    unfolding postings_def by blast
  then show ?thesis by (cases "map_of m k") simp_all
qed

lemma evalRestriction_atom:
  assumes "ri_rep R as_time ri rows"
  shows "case restriction_atom r of Inl e \<Rightarrow> evalRestriction R ri r = Inl e
    | Inr a \<Rightarrow> \<exists>bm. evalRestriction R ri r = Inr bm \<and>
        (\<forall>c. bm_contains R bm c \<longleftrightarrow> unat c < length rows \<and> event_sat (fst (rows ! unat c)) a)"
proof -
  have tag: "\<exists>bm. (case map_of (ri_tags ri) t of Some rb \<Rightarrow> Inr rb | None \<Rightarrow> Inr (bm_new R)) =
      (Inr bm :: filter_error + 'b) \<and>
      (\<forall>c. bm_contains R bm c \<longleftrightarrow> unat c < length rows \<and> t \<in> set (ev_Tags (fst (rows ! unat c))))" for t
    by (rule lookup_posting [OF ri_repD(6) [OF assms]])
  have ann: "\<exists>bm. (case map_of (ri_annotations ri) \<lparr>Pair_Key = k, Pair_Value = v\<rparr> of
      Some rb \<Rightarrow> Inr rb | None \<Rightarrow> Inr (bm_new R)) = (Inr bm :: filter_error + 'b) \<and>
      (\<forall>c. bm_contains R bm c \<longleftrightarrow>
        unat c < length rows \<and> (k, v) \<in> set (ev_Annotations (fst (rows ! unat c))))" for k v
    using lookup_posting [OF ri_repD(7) [OF assms], of "\<lparr>Pair_Key = k, Pair_Value = v\<rparr>"] by simp
  show ?thesis
  proof (cases r rule: restriction_atom.cases)
    case (1 v fs op a)
    consider "Value_Value v = ''tags''" | "Value_Value v = ''annotations''"
      | "Value_Value v \<noteq> ''tags''" "Value_Value v \<noteq> ''annotations''" by blast
    then show ?thesis
    proof cases
      case 1
      with \<open>r = _\<close> tag show ?thesis by (cases "arg_value a") (simp_all add: evalRestriction_def)
    next
      case 2
      with \<open>r = _\<close> ann show ?thesis
        by (cases fs; cases "arg_value a"; cases "hd fs") (simp_all add: evalRestriction_def)
    next
      case 3
      with \<open>r = _\<close> show ?thesis by (simp add: evalRestriction_def)
    qed
  qed (simp_all add: evalRestriction_def)
qed

lemma eval_evals:
  assumes rep: "ri_rep R as_time ri rows"
  defines "n \<equiv> length rows" and "S \<equiv> \<lambda>i. event_sat (fst (rows ! i))"
  shows "wf_Expression e \<Longrightarrow>
      evals_to n (\<lambda>i. expression_holds (S i) e) (evalExpression R ri e) (expression_errors e)"
    and "wf_Sequence s \<Longrightarrow>
      evals_to n (\<lambda>i. sequence_holds (S i) s) (evalSequence R ri s) (sequence_errors s)"
    and "wf_Factor f \<Longrightarrow>
      evals_to n (\<lambda>i. factor_holds (S i) f) (evalFactor R ri f) (factor_errors f)"
    and "wf_Term t \<Longrightarrow>
      evals_to n (\<lambda>i. term_holds (S i) t) (evalTerm R ri t) (term_errors t)"
    and "wf_Simple m \<Longrightarrow>
      evals_to n (\<lambda>i. simple_holds (S i) m) (evalSimple R ri m) (simple_errors m)"
proof (induction e and s and f and t and m rule:
    expression_errors_sequence_errors_factor_errors_term_errors_simple_errors.induct)
  case (2 ss)
  then show ?case
    by (simp add: list_all_iff) (rule eval_loop_all, auto)
next
  case (4 fs)
  then show ?case
    by (simp add: list_all_iff) (rule eval_loop_all, auto)
next
  case (6 ts)
  then show ?case
    by (simp add: list_all_iff) (rule eval_loop_any, auto)
next
  case (8 neg s)
  show ?case
  proof (cases "simple_errors s")
    case Nil
    with 8 obtain b where b: "evalSimple R ri s = Inr (Some b)"
      "\<forall>c. bm_contains R b c \<longleftrightarrow> unat c < n \<and> simple_holds (S (unat c)) s"
      by (auto simp: evals_to_Nil)
    with Nil ri_repD(3) [OF rep] show ?thesis
      by (auto simp: evals_to_Nil n_def)
  next
    case (Cons err es)
    with 8 show ?thesis by (simp add: evals_to_def)
  qed
next
  case (10 r c)
  consider e where "c = Some e" "r = None" "wf_Expression (Some e)"
    | q where "c = None" "r = Some q"
    using "10.prems" by (cases r; cases c) simp_all
  then show ?case
  proof cases
    case 1
    with "10.IH" [OF 1(1,3)] show ?thesis by simp
  next
    case 2
    show ?thesis
    proof (cases "restriction_atom q")
      case (Inl e)
      with 2 evalRestriction_atom [OF rep, of q] show ?thesis
        by (simp add: evals_to_def error_of_def)
    next
      case (Inr a)
      with evalRestriction_atom [OF rep, of q] obtain bm where "evalRestriction R ri q = Inr bm"
        "\<forall>c. bm_contains R bm c \<longleftrightarrow> unat c < length rows \<and> event_sat (fst (rows ! unat c)) a" by auto
      with 2 Inr show ?thesis
        by (simp add: evals_to_Nil error_of_def atom_holds_def n_def S_def)
    qed
  qed
qed simp_all

subsection \<open>Queries\<close>

lemma bsi_rows_compare:
  assumes "bsi_rows R b f rows" and "op \<in> {LE, GE}" and n: "0 < threads numCPU p"
    and found: "\<And>c. c \<in> (case found of None \<Rightarrow> bm_set R (eBM b) | Some fs \<Rightarrow> bm_set R fs) \<longleftrightarrow>
      unat c < length rows \<and> H (unat c)"
  shows "\<exists>r. CompareValue R numCPU b p op v e found = Some r \<and>
    (\<forall>c. bm_contains R r c \<longleftrightarrow>
      unat c < length rows \<and> H (unat c) \<and> cmp_spec op (f (rows ! unat c)) v)"
proof -
  have bc: "BitCount b \<le> 64"
    and val: "\<And>c. bsi_val R b c = (if unat c < length rows then Some (f (rows ! unat c)) else None)"
    using assms(1) by (auto simp: bsi_rows_def)
  have word: "unat c < length rows \<Longrightarrow> col_word R (bA b) c = f (rows ! unat c)" for c
    using val [of c] by (auto simp: bsi_val_def split: if_splits)
  from assms(2) have "op \<in> {LT, LE, EQ, GE, GT}" by auto
  from CompareValue_single [OF n this bc, of v e found] obtain r where r:
    "CompareValue R numCPU b p op v e found = Some r"
    "bm_set R r = {c \<in> (case found of None \<Rightarrow> bm_set R (eBM b) | Some fs \<Rightarrow> bm_set R fs).
      cmp_spec op (col_word R (bA b) c) v}" by blast
  have "bm_contains R r c \<longleftrightarrow>
      unat c < length rows \<and> H (unat c) \<and> cmp_spec op (f (rows ! unat c)) v" for c
  proof -
    have "bm_contains R r c \<longleftrightarrow> c \<in> bm_set R r" by simp
    also have "\<dots> \<longleftrightarrow> unat c < length rows \<and> H (unat c) \<and> cmp_spec op (col_word R (bA b) c) v"
      unfolding r(2) mem_Collect_eq found by blast
    finally show ?thesis using word [of c] by auto
  qed
  with r(1) show ?thesis by blast
qed

lemma bsi_rows_exist: "bsi_rows R b f rows \<Longrightarrow> c \<in> bm_set R (eBM b) \<longleftrightarrow> unat c < length rows"
  unfolding bsi_rows_def by (auto simp: bsi_val_def split: if_splits)

lemma query_rows:
  assumes rep: "ri_rep R as_time ri rows" and wf: "wf_filter flt" and n: "0 < numCPU"
  shows "case filter_errors flt of
      e # _ \<Rightarrow> query R numCPU ri startTime endTime flt = Some (Inl e)
    | [] \<Rightarrow> \<exists>bm. query R numCPU ri startTime endTime flt = Some (Inr bm) \<and>
        (\<forall>c. bm_contains R bm c \<longleftrightarrow>
          unat c < length rows \<and> row_matches as_time startTime endTime flt (rows ! unat c))"
proof -
  let ?H = "\<lambda>i. filter_holds (event_sat (fst (rows ! i))) flt"
  have th: "0 < threads numCPU 4" by (simp add: threads_def)
  show ?thesis
  proof (cases "filter_errors flt")
    case (Cons err es)
    then obtain ex where ex: "flt = Some (Filter (Some ex))" "expression_errors (Some ex) = err # es"
      by (cases flt rule: option.exhaust; (cases "the flt"; cases "Filter_Expression (the flt)")?)
        (auto simp: filter_errors_def)
    then have "evalExpression R ri (Some ex) = Inl err"
      using eval_evals(1) [OF rep, of "Some ex"] wf by (simp add: evals_to_def wf_filter_def wf_Filter_def)
    with ex Cons show ?thesis by (simp add: query_def evalFilter_def)
  next
    case Nil
    have "\<exists>res. evalFilter R ri flt = Inr res \<and>
        (\<forall>c. c \<in> (case res of None \<Rightarrow> bm_set R (eBM (ri_startTime ri)) | Some fs \<Rightarrow> bm_set R fs) \<longleftrightarrow>
          unat c < length rows \<and> ?H (unat c))"
    proof (cases "flt = None \<or> flt = Some (Filter None)")
      case True
      then show ?thesis
        using bsi_rows_exist [OF ri_repD(4) [OF rep]]
        by (auto simp: evalFilter_def filter_holds_def)
    next
      case False
      then obtain ex where ex: "flt = Some (Filter (Some ex))"
        by (metis Filter.exhaust option.exhaust)
      then show ?thesis
        using eval_evals(1) [OF rep, of "Some ex"] wf Nil
        by (auto simp: evals_to_def wf_filter_def wf_Filter_def evalFilter_def filter_holds_def
            filter_errors_def)
    qed
    then obtain res where res: "evalFilter R ri flt = Inr res"
      "\<And>c. c \<in> (case res of None \<Rightarrow> bm_set R (eBM (ri_startTime ri)) | Some fs \<Rightarrow> bm_set R fs) \<longleftrightarrow>
        unat c < length rows \<and> ?H (unat c)" by blast
    from bsi_rows_compare [OF ri_repD(4) [OF rep] _ th res(2), of LE "Unix endTime" 0]
    obtain r1 where r1: "CompareValue R numCPU (ri_startTime ri) 4 LE (Unix endTime) 0 res = Some r1"
      "\<And>c. bm_contains R r1 c \<longleftrightarrow> unat c < length rows \<and> ?H (unat c) \<and>
        cmp_spec LE (row_start as_time (rows ! unat c)) (Unix endTime)" by auto
    have "c \<in> (case Some r1 of None \<Rightarrow> bm_set R (eBM (ri_endTime ri)) | Some fs \<Rightarrow> bm_set R fs) \<longleftrightarrow>
        unat c < length rows \<and> ?H (unat c) \<and>
        cmp_spec LE (row_start as_time (rows ! unat c)) (Unix endTime)" for c
      using r1(2) [of c] by simp
    from bsi_rows_compare [OF ri_repD(5) [OF rep] _ th this, of GE "Unix startTime" 0]
    obtain r2 where r2: "CompareValue R numCPU (ri_endTime ri) 4 GE (Unix startTime) 0 (Some r1) = Some r2"
      "\<And>c. bm_contains R r2 c \<longleftrightarrow> unat c < length rows \<and>
        (?H (unat c) \<and> cmp_spec LE (row_start as_time (rows ! unat c)) (Unix endTime)) \<and>
        cmp_spec GE (row_end as_time (rows ! unat c)) (Unix startTime)" by auto
    have "query R numCPU ri startTime endTime flt = Some (Inr r2)"
      using res(1) r1(1) r2(1) by (simp add: query_def)
    with r2(2) Nil show ?thesis by (auto simp: row_matches_def)
  qed
qed

end

end
