(* ===== verification/Index_Merge.thy ===== *)
theory Index_Merge
  imports Index_Query
begin

text \<open>
  Merging two indices (\<open>mergeTwoIndices\<close>, \<open>moveBitmap\<close> and \<open>mergeBSI\<close> of \<open>src/index.go\<close>). The keys
  of both are interleaved, every row gets a new number, and all bitmaps are moved to the new
  numbers. The merge of indices that represent \<open>A\<close> and \<open>B\<close> represents \<open>merge_rows A B\<close>, so no row
  is lost, duplicated or changed. The order of the result is another matter: see
  \<open>merged_order_broken\<close> in \<open>Listing_Spec\<close>.

  \<open>None\<close> is a panic: a row number outside the remapping table.
\<close>

subsection \<open>Interleaving the keys\<close>

definition takeA :: "EventKey \<Rightarrow> EventKey \<Rightarrow> bool" where
  "takeA a b =
     (let tCmp = time_Compare (key_StartTime a) (key_StartTime b)
      in if tCmp \<noteq> 0 then tCmp < 0 else key_ID a \<ge> key_ID b)"

text \<open>The three loops: the merged keys and the new row numbers of both sides, the next one being
  \<open>n\<close>.\<close>

fun merge_keys :: "EventKey list \<Rightarrow> EventKey list \<Rightarrow> nat \<Rightarrow> EventKey list \<times> u32 list \<times> u32 list" where
  "merge_keys (a # as) (b # bs) n =
     (if takeA a b then
        (let (ks, remapA, remapB) = merge_keys as (b # bs) (Suc n)
         in (a # ks, of_nat n # remapA, remapB))
      else
        (let (ks, remapA, remapB) = merge_keys (a # as) bs (Suc n)
         in (b # ks, remapA, of_nat n # remapB)))"
| "merge_keys as [] n = (as, map of_nat [n..<n + length as], [])"
| "merge_keys [] bs n = (bs, [], map of_nat [n..<n + length bs])"

subsection \<open>Moving bitmaps\<close>

fun move_ids :: "'b roaring \<Rightarrow> u32 list \<Rightarrow> u32 list \<Rightarrow> 'b \<Rightarrow> 'b option" where
  "move_ids R remap [] dst = Some dst"
| "move_ids R remap (i # is) dst =
     (if unat i < length remap then move_ids R remap is (bm_add R dst (remap ! unat i)) else None)"

definition moveBitmap :: "'b roaring \<Rightarrow> 'b \<Rightarrow> u32 list \<Rightarrow> 'b \<Rightarrow> 'b option" where
  "moveBitmap R src remap dst =
     (let card = bm_cardinality R src
      in if card = 0 then Some dst
         else if card < 32 then move_ids R remap (bm_to_list R src) dst
         else
           (case those (map (\<lambda>i. if unat i < length remap then Some (remap ! unat i) else None)
                   (bm_to_list R src)) of
              None \<Rightarrow> None
            | Some buf \<Rightarrow> Some (bm_add_many R dst buf)))"

text \<open>The loops over the maps of tags and annotations, and over \<open>indexes\<close>.\<close>

fun move_postings :: "'b roaring \<Rightarrow> u32 list \<Rightarrow> ('k \<times> 'b) list \<Rightarrow> ('k \<times> 'b) list \<Rightarrow>
    ('k \<times> 'b) list option" where
  "move_postings R remap [] m = Some m"
| "move_postings R remap ((k, rb) # rest) m =
     (let m = ensure_posting R k m
      in case moveBitmap R rb remap (the (map_of m k)) of
           None \<Rightarrow> None
         | Some b \<Rightarrow> move_postings R remap rest (AList.update k b m))"

fun move_indexes :: "u32 list \<Rightarrow> (EventKey \<times> u32) list \<Rightarrow> (EventKey \<times> u32) list \<Rightarrow>
    (EventKey \<times> u32) list option" where
  "move_indexes remap [] m = Some m"
| "move_indexes remap ((k, i) # rest) m =
     (if unat i < length remap then move_indexes remap rest (AList.update k (remap ! unat i) m)
      else None)"

text \<open>\<open>for bitIdx, rb := range src { if bitIdx < len(dst) { moveBitmap(rb, remap, dst[bitIdx]) } }\<close>\<close>

fun move_slices :: "'b roaring \<Rightarrow> u32 list \<Rightarrow> 'b list \<Rightarrow> 'b list \<Rightarrow> 'b list option" where
  "move_slices R remap [] ds = Some ds"
| "move_slices R remap (s # ss) [] = Some []"
| "move_slices R remap (s # ss) (d # ds) =
     (case moveBitmap R s remap d of
        None \<Rightarrow> None
      | Some d \<Rightarrow> (case move_slices R remap ss ds of None \<Rightarrow> None | Some ds \<Rightarrow> Some (d # ds)))"

definition mergeBSI :: "'b roaring \<Rightarrow> 'b bsi \<Rightarrow> 'b bsi \<Rightarrow> u32 list \<Rightarrow> u32 list \<Rightarrow> u64 \<Rightarrow> 'b bsi option" where
  "mergeBSI R srcA srcB remapA remapB maxLen =
     (let maxBitCount = (if BitCount srcB > BitCount srcA then BitCount srcB else BitCount srcA);
          maxVal = (if sint (MaxValue srcB) < sint (MaxValue srcA) then MaxValue srcA else MaxValue srcB);
          minVal = (if sint (MinValue srcA) < sint (MinValue srcB) then MinValue srcA else MinValue srcB);
          dst = InitBitmaps R (NewBSI R maxVal minVal) maxBitCount
      in case move_slices R remapA (GetBitmaps srcA) (GetBitmaps dst) of
           None \<Rightarrow> None
         | Some ba \<Rightarrow>
           (case move_slices R remapB (GetBitmaps srcB) ba of
              None \<Rightarrow> None
            | Some ba \<Rightarrow>
              Some (dst\<lparr>bA := ba, eBM := if maxLen > 0
                then bm_add_range R (GetExistenceBitmap dst) 0 maxLen else GetExistenceBitmap dst\<rparr>)))"

subsection \<open>Merging\<close>

definition merge_indices :: "'b roaring \<Rightarrow> 'b roaringIndex \<Rightarrow> 'b roaringIndex \<Rightarrow>
    'b roaringIndex option" where
  "merge_indices R a b =
     (let (ks, remapA, remapB) = merge_keys (ri_keys a) (ri_keys b) 0;
          totalKeys = of_nat (length ks) :: u64;
          allBm = (if length ks > 0 then bm_add_range R (bm_new R) 0 totalKeys else bm_new R)
      in Option.bind (move_indexes remapA (ri_indexes a) []) (\<lambda>ixA.
         Option.bind (move_indexes remapB (ri_indexes b) ixA) (\<lambda>ix.
         Option.bind (move_postings R remapA (ri_tags a) []) (\<lambda>tagsA.
         Option.bind (move_postings R remapB (ri_tags b) tagsA) (\<lambda>tags.
         Option.bind (move_postings R remapA (ri_annotations a) []) (\<lambda>annA.
         Option.bind (move_postings R remapB (ri_annotations b) annA) (\<lambda>ann.
         Option.bind (mergeBSI R (ri_startTime a) (ri_startTime b) remapA remapB totalKeys) (\<lambda>st.
         Option.bind (mergeBSI R (ri_endTime a) (ri_endTime b) remapA remapB totalKeys) (\<lambda>en.
           Some \<lparr>ri_all = allBm, ri_startTime = st, ri_endTime = en, ri_tags = tags,
                 ri_annotations = ann, ri_keys = ks, ri_indexes = ix\<rparr>)))))))))"

text \<open>The result is a pointer; the outer option is a panic.\<close>

definition mergeTwoIndices :: "'b roaring \<Rightarrow> 'b roaringIndex option \<Rightarrow> 'b roaringIndex option \<Rightarrow>
    'b roaringIndex option option" where
  "mergeTwoIndices R a b =
     (case a of None \<Rightarrow> Some b
      | Some x \<Rightarrow> (case b of None \<Rightarrow> Some a | Some y \<Rightarrow> map_option Some (merge_indices R x y)))"

subsection \<open>The rows of a merge\<close>

fun merge_rows :: "('ts option \<Rightarrow> go_time) \<Rightarrow> 'ts row list \<Rightarrow> 'ts row list \<Rightarrow> 'ts row list" where
  "merge_rows as_time (a # as) (b # bs) =
     (if takeA (row_key as_time a) (row_key as_time b) then a # merge_rows as_time as (b # bs)
      else b # merge_rows as_time (a # as) bs)"
| "merge_rows as_time as [] = as"
| "merge_rows as_time [] bs = bs"

lemma mset_merge_rows: "mset (merge_rows as_time A B) = mset A + mset B"
  by (induction as_time A B rule: merge_rows.induct) auto

lemma length_merge_rows [simp]: "length (merge_rows as_time A B) = length A + length B"
  using arg_cong [OF mset_merge_rows [of as_time A B], of size] by simp

text \<open>\<open>ra\<close> and \<open>rb\<close> send the rows of \<open>A\<close> and \<open>B\<close> to places of \<open>M\<close>, counted from \<open>n\<close>, and every
  place is hit.\<close>

definition remaps_from :: "nat \<Rightarrow> u32 list \<Rightarrow> u32 list \<Rightarrow> 'r list \<Rightarrow> 'r list \<Rightarrow> 'r list \<Rightarrow> bool" where
  "remaps_from n ra rb A B M \<longleftrightarrow> length ra = length A \<and> length rb = length B \<and>
     (\<forall>c. c \<in> set ra \<union> set rb \<longleftrightarrow> n \<le> unat c \<and> unat c < n + length M) \<and>
     (\<forall>i < length A. M ! (unat (ra ! i) - n) = A ! i) \<and>
     (\<forall>j < length B. M ! (unat (rb ! j) - n) = B ! j)"

lemma remaps_from_swap: "remaps_from n ra rb A B M \<longleftrightarrow> remaps_from n rb ra B A M"
  by (auto simp: remaps_from_def)

lemma unat_of_nat_u32: "n < 2 ^ 32 \<Longrightarrow> unat (of_nat n :: u32) = n"
  by (simp add: unat_of_nat take_bit_nat_eq_self)

lemma remaps_from_Cons:
  assumes "remaps_from (Suc n) ra rb A B M" and n: "n < 2 ^ 32"
  shows "remaps_from n (of_nat n # ra) rb (a # A) B (a # M)"
proof -
  have hit: "c \<in> set ra \<union> set rb \<longleftrightarrow> Suc n \<le> unat c \<and> unat c < Suc n + length M" for c
    using assms(1) by (simp add: remaps_from_def)
  have step: "(a # M) ! (unat c - n) = M ! (unat c - Suc n)" if "c \<in> set ra \<union> set rb" for c
  proof -
    have "unat c - n = Suc (unat c - Suc n)" using hit [of c] that by linarith
    then show ?thesis by simp
  qed
  have len: "length ra = length A" "length rb = length B"
    using assms(1) by (simp_all add: remaps_from_def)
  have "(a # M) ! (unat ((of_nat n # ra) ! i) - n) = (a # A) ! i" if "i < length (a # A)" for i
  proof (cases i)
    case 0
    then show ?thesis using unat_of_nat_u32 [OF n] by simp
  next
    case (Suc k)
    then have "ra ! k \<in> set ra \<union> set rb" "k < length A" using that len by auto
    with Suc step [of "ra ! k"] assms(1) show ?thesis by (simp add: remaps_from_def)
  qed
  moreover have "(a # M) ! (unat (rb ! j) - n) = B ! j" if "j < length B" for j
    using step [of "rb ! j"] that len assms(1) by (simp add: remaps_from_def)
  moreover have "c \<in> set (of_nat n # ra) \<union> set rb \<longleftrightarrow> n \<le> unat c \<and> unat c < n + length (a # M)" for c
  proof -
    have "c = of_nat n \<longleftrightarrow> unat c = n" using unat_of_nat_u32 [OF n] by (metis word_unat_eq_iff)
    then have "c \<in> set (of_nat n # ra) \<union> set rb \<longleftrightarrow> unat c = n \<or> c \<in> set ra \<union> set rb" by simp
    then show ?thesis unfolding hit by auto
  qed
  ultimately show ?thesis using len by (simp add: remaps_from_def)
qed

lemma remaps_from_rest:
  assumes "n + length A \<le> 2 ^ 32"
  shows "remaps_from n (map of_nat [n..<n + length A]) [] A [] A"
proof -
  have "unat (of_nat (n + i) :: u32) = n + i" if "i < length A" for i
    using that assms by (intro unat_of_nat_u32) simp
  moreover have "c \<in> set (map of_nat [n..<n + length A]) \<longleftrightarrow> n \<le> unat c \<and> unat c < n + length A"
    for c :: u32
    using of_nat_range_u32 [OF assms, of c n] by simp
  ultimately show ?thesis by (simp add: remaps_from_def)
qed

lemma merge_keys_rows:
  assumes "n + length A + length B \<le> 2 ^ 32"
  shows "\<exists>ra rb. merge_keys (map (row_key t) A) (map (row_key t) B) n =
      (map (row_key t) (merge_rows t A B), ra, rb) \<and>
    remaps_from n ra rb A B (merge_rows t A B)"
  using assms
proof (induction t A B arbitrary: n rule: merge_rows.induct)
  case (1 t a as b bs)
  show ?case
  proof (cases "takeA (row_key t a) (row_key t b)")
    case True
    with 1(1) [of "Suc n"] 1(3) obtain ra rb where
      "merge_keys (map (row_key t) as) (map (row_key t) (b # bs)) (Suc n) =
        (map (row_key t) (merge_rows t as (b # bs)), ra, rb)"
      "remaps_from (Suc n) ra rb as (b # bs) (merge_rows t as (b # bs))" by auto
    moreover from 1(3) have "n < 2 ^ 32" by simp
    ultimately show ?thesis using True remaps_from_Cons [of n ra rb as "b # bs" _ a] by simp
  next
    case False
    with 1(2) [of "Suc n"] 1(3) obtain ra rb where
      "merge_keys (map (row_key t) (a # as)) (map (row_key t) bs) (Suc n) =
        (map (row_key t) (merge_rows t (a # as) bs), ra, rb)"
      "remaps_from (Suc n) rb ra bs (a # as) (merge_rows t (a # as) bs)"
      by (auto simp: remaps_from_swap [of _ _ _ _ "a # as"])
    with False remaps_from_Cons [of n rb ra bs "a # as" _ b] 1(3) show ?thesis
      by (simp add: remaps_from_swap [of _ _ _ _ "b # bs"])
  qed
next
  case (2 t as)
  then show ?case using remaps_from_rest [of n as] by (cases as) (simp_all del: upt_Suc)
next
  case (3 t b bs)
  then show ?case
    using remaps_from_rest [of n "b # bs"]
    by (simp add: remaps_from_swap [of n _ "[]"] del: upt_Suc)
qed

abbreviation remaps :: "u32 list \<Rightarrow> u32 list \<Rightarrow> 'r list \<Rightarrow> 'r list \<Rightarrow> 'r list \<Rightarrow> bool" where
  "remaps \<equiv> remaps_from 0"

lemma remapsD:
  assumes "remaps ra rb A B M"
  shows "length ra = length A" and "length rb = length B"
    and "i < length A \<Longrightarrow> unat (ra ! i) < length M \<and> M ! unat (ra ! i) = A ! i"
    and "j < length B \<Longrightarrow> unat (rb ! j) < length M \<and> M ! unat (rb ! j) = B ! j"
    and "unat c < length M \<Longrightarrow>
      (\<exists>i < length A. ra ! i = c) \<or> (\<exists>j < length B. rb ! j = c)"
proof -
  have hit: "\<And>c. c \<in> set ra \<union> set rb \<longleftrightarrow> unat c < length M"
    and len: "length ra = length A" "length rb = length B"
    using assms by (auto simp: remaps_from_def)
  show "length ra = length A" "length rb = length B" by (fact len)+
  show "i < length A \<Longrightarrow> unat (ra ! i) < length M \<and> M ! unat (ra ! i) = A ! i"
    using assms hit [of "ra ! i"] by (simp add: remaps_from_def)
  show "j < length B \<Longrightarrow> unat (rb ! j) < length M \<and> M ! unat (rb ! j) = B ! j"
    using assms hit [of "rb ! j"] by (simp add: remaps_from_def)
  show "unat c < length M \<Longrightarrow> (\<exists>i < length A. ra ! i = c) \<or> (\<exists>j < length B. rb ! j = c)"
    unfolding hit [symmetric] using len by (auto simp: in_set_conv_nth)
qed

subsection \<open>Moving keeps what a row is\<close>

lemma those_map_Some: "(\<And>x. x \<in> set xs \<Longrightarrow> f x = Some (g x)) \<Longrightarrow> those (map f xs) = Some (map g xs)"
  by (induction xs) auto

lemma move_indexes_spec:
  assumes "\<forall>(k, c) \<in> set xs. unat c < length remap"
  shows "\<exists>m'. move_indexes remap xs m = Some m' \<and>
    (distinct (map fst m) \<longrightarrow> distinct (map fst m')) \<and>
    (\<forall>k c. map_of m' k = Some c \<longrightarrow>
       map_of m k = Some c \<or> (\<exists>d. (k, d) \<in> set xs \<and> c = remap ! unat d)) \<and>
    (\<forall>k. map_of m k \<noteq> None \<or> k \<in> fst ` set xs \<longrightarrow> map_of m' k \<noteq> None)"
  using assms
proof (induction remap xs m rule: move_indexes.induct)
  case (2 remap k i rest m)
  then obtain m' where m': "move_indexes remap rest (AList.update k (remap ! unat i) m) = Some m'"
    "distinct (map fst (AList.update k (remap ! unat i) m)) \<longrightarrow> distinct (map fst m')"
    "\<forall>k' c. map_of m' k' = Some c \<longrightarrow> map_of (AList.update k (remap ! unat i) m) k' = Some c \<or>
       (\<exists>d. (k', d) \<in> set rest \<and> c = remap ! unat d)"
    "\<forall>k'. map_of (AList.update k (remap ! unat i) m) k' \<noteq> None \<or> k' \<in> fst ` set rest \<longrightarrow>
       map_of m' k' \<noteq> None"
    by auto
  have "map_of m k' = Some c \<or> (\<exists>d. (k', d) \<in> set ((k, i) # rest) \<and> c = remap ! unat d)"
    if "map_of m' k' = Some c" for k' c
    using m'(3) that by (force simp: update_conv' split: if_splits)
  moreover have "map_of m' k' \<noteq> None" if "map_of m k' \<noteq> None \<or> k' \<in> fst ` set ((k, i) # rest)" for k'
    using m'(4) that by (auto simp: update_conv' split: if_splits)
  moreover have "distinct (map fst m) \<longrightarrow> distinct (map fst m')"
    using m'(2) by (simp add: distinct_update)
  ultimately show ?case using m'(1) 2(2) by auto
qed auto

context roaring_bitmap
begin

lemma move_ids_spec:
  assumes "\<forall>i \<in> set is. unat i < length remap"
  shows "\<exists>d. move_ids R remap is dst = Some d \<and>
    (\<forall>c. bm_contains R d c \<longleftrightarrow> bm_contains R dst c \<or> (\<exists>i \<in> set is. remap ! unat i = c))"
  using assms
proof (induction "is" arbitrary: dst)
  case (Cons i "is")
  from Cons.IH [of "bm_add R dst (remap ! unat i)"] Cons.prems show ?case by auto
qed simp

lemma moveBitmap_spec:
  assumes "\<And>c. bm_contains R src c \<Longrightarrow> unat c < length remap"
  shows "\<exists>d. moveBitmap R src remap dst = Some d \<and>
    (\<forall>c. bm_contains R d c \<longleftrightarrow> bm_contains R dst c \<or> (\<exists>i. bm_contains R src i \<and> remap ! unat i = c))"
proof -
  have ids: "\<forall>i \<in> set (bm_to_list R src). unat i < length remap" using assms by simp
  consider "bm_cardinality R src = 0" | "0 < bm_cardinality R src" "bm_cardinality R src < 32"
    | "32 \<le> bm_cardinality R src" by linarith
  then show ?thesis
  proof cases
    case 1
    then have "\<not> bm_contains R src i" for i by (auto simp: cardinality_card)
    with 1 show ?thesis by (simp add: moveBitmap_def)
  next
    case 2
    then show ?thesis
      using move_ids_spec [OF ids, of dst] by (simp add: moveBitmap_def Bex_def)
  next
    case 3
    have "those (map (\<lambda>i. if unat i < length remap then Some (remap ! unat i) else None)
        (bm_to_list R src)) = Some (map (\<lambda>i. remap ! unat i) (bm_to_list R src))"
      using ids by (intro those_map_Some) simp
    with 3 show ?thesis by (auto simp: moveBitmap_def image_iff Bex_def)
  qed
qed

lemma move_postings_spec:
  assumes "\<forall>(k, rb) \<in> set xs. \<forall>c. bm_contains R rb c \<longrightarrow> unat c < length remap"
  shows "\<exists>m'. move_postings R remap xs m = Some m' \<and>
    (distinct (map fst m) \<longrightarrow> distinct (map fst m')) \<and>
    (\<forall>k c. in_posting m' k c \<longleftrightarrow> in_posting m k c \<or>
       (\<exists>rb i. (k, rb) \<in> set xs \<and> bm_contains R rb i \<and> remap ! unat i = c))"
  using assms
proof (induction xs arbitrary: m)
  case (Cons x xs)
  obtain k rb where x: "x = (k, rb)" by fastforce
  let ?m = "ensure_posting R k m"
  obtain b where b: "moveBitmap R rb remap (the (map_of ?m k)) = Some b"
    "\<forall>c. bm_contains R b c \<longleftrightarrow> bm_contains R (the (map_of ?m k)) c \<or>
      (\<exists>i. bm_contains R rb i \<and> remap ! unat i = c)"
    using moveBitmap_spec [of rb remap] Cons.prems x by force
  obtain m' where m': "move_postings R remap xs (AList.update k b ?m) = Some m'"
    "distinct (map fst (AList.update k b ?m)) \<longrightarrow> distinct (map fst m')"
    "\<forall>k' c. in_posting m' k' c \<longleftrightarrow> in_posting (AList.update k b ?m) k' c \<or>
       (\<exists>rb i. (k', rb) \<in> set xs \<and> bm_contains R rb i \<and> remap ! unat i = c)"
    using Cons.IH [of "AList.update k b ?m"] Cons.prems by auto
  have "in_posting (AList.update k b ?m) k' c \<longleftrightarrow>
      in_posting m k' c \<or> (k' = k \<and> (\<exists>i. bm_contains R rb i \<and> remap ! unat i = c))" for k' c
    using b(2) by (auto simp: in_posting_def ensure_posting_def update_conv')
  with m'(3) have "\<forall>k' c. in_posting m' k' c \<longleftrightarrow> in_posting m k' c \<or>
       (\<exists>rb' i. (k', rb') \<in> set (x # xs) \<and> bm_contains R rb' i \<and> remap ! unat i = c)"
    by (auto simp: x)
  moreover have "distinct (map fst m) \<longrightarrow> distinct (map fst m')"
    using m'(2) by (simp add: ensure_posting_def distinct_update)
  ultimately show ?case using m'(1) b(1) by (auto simp: x Let_def)
qed simp


lemma move_slices_spec:
  assumes "\<forall>s \<in> set ss. \<forall>c. bm_contains R s c \<longrightarrow> unat c < length remap" and "length ss \<le> length ds"
  shows "\<exists>es. move_slices R remap ss ds = Some es \<and> length es = length ds \<and>
    (\<forall>n < length ds. \<forall>c. bm_contains R (es ! n) c \<longleftrightarrow> bm_contains R (ds ! n) c \<or>
       (n < length ss \<and> (\<exists>i. bm_contains R (ss ! n) i \<and> remap ! unat i = c)))"
  using assms
proof (induction ss arbitrary: ds)
  case (Cons s ss)
  then obtain d ds' where ds: "ds = d # ds'" "length ss \<le> length ds'" by (cases ds) auto
  obtain e where e: "moveBitmap R s remap d = Some e"
    "\<forall>c. bm_contains R e c \<longleftrightarrow> bm_contains R d c \<or> (\<exists>i. bm_contains R s i \<and> remap ! unat i = c)"
    using moveBitmap_spec [of s remap] Cons.prems by force
  obtain es where es: "move_slices R remap ss ds' = Some es" "length es = length ds'"
    "\<forall>n < length ds'. \<forall>c. bm_contains R (es ! n) c \<longleftrightarrow> bm_contains R (ds' ! n) c \<or>
       (n < length ss \<and> (\<exists>i. bm_contains R (ss ! n) i \<and> remap ! unat i = c))"
    using Cons.IH [OF _ ds(2)] Cons.prems by auto
  have "bm_contains R ((e # es) ! n) c \<longleftrightarrow> bm_contains R (ds ! n) c \<or>
      (n < length (s # ss) \<and> (\<exists>i. bm_contains R ((s # ss) ! n) i \<and> remap ! unat i = c))"
    if "n < length ds" for n c
    using e(2) es(3) that ds by (cases n) auto
  with e(1) es(1,2) ds show ?case by simp
qed simp

text \<open>One side's contribution to a bitmap of the merge, in terms of the merged rows.\<close>

lemma moved_rows:
  assumes "remaps ra rb A B M"
    and a: "\<And>i. bm_contains R s i \<longleftrightarrow> unat i < length A \<and> P (A ! unat i)"
    and b: "\<And>i. bm_contains R t i \<longleftrightarrow> unat i < length B \<and> P (B ! unat i)"
    and len: "length A \<le> 2 ^ 32" "length B \<le> 2 ^ 32"
  shows "(\<exists>i. bm_contains R s i \<and> ra ! unat i = c) \<or> (\<exists>i. bm_contains R t i \<and> rb ! unat i = c) \<longleftrightarrow>
    unat c < length M \<and> P (M ! unat c)"
proof
  assume "(\<exists>i. bm_contains R s i \<and> ra ! unat i = c) \<or> (\<exists>i. bm_contains R t i \<and> rb ! unat i = c)"
  then show "unat c < length M \<and> P (M ! unat c)"
    using remapsD(3,4) [OF assms(1)] a b by auto
next
  assume c: "unat c < length M \<and> P (M ! unat c)"
  have ex: "\<exists>i :: u32. unat i = k" if "k < 2 ^ 32" for k
    using unat_of_nat_u32 [OF that] by blast
  from c consider i where "i < length A" "ra ! i = c" | j where "j < length B" "rb ! j = c"
    using remapsD(5) [OF assms(1), of c] by blast
  then show "(\<exists>i. bm_contains R s i \<and> ra ! unat i = c) \<or> (\<exists>i. bm_contains R t i \<and> rb ! unat i = c)"
  proof cases
    case 1
    then obtain k :: u32 where "unat k = i" using ex [of i] len by auto
    with 1 c remapsD(3) [OF assms(1), of i] a [of k] show ?thesis by auto
  next
    case 2
    then obtain k :: u32 where "unat k = j" using ex [of j] len by auto
    with 2 c remapsD(4) [OF assms(1), of j] b [of k] show ?thesis by auto
  qed
qed

lemma bsi_rows_bit:
  assumes "bsi_rows R b f rows"
  shows "n < length (bA b) \<and> bm_contains R (bA b ! n) c \<longleftrightarrow>
    unat c < length rows \<and> bit (f (rows ! unat c)) n"
proof -
  have wf: "bsi_wf R b" and bc: "length (bA b) \<le> 64"
    and val: "bsi_val R b c = (if unat c < length rows then Some (f (rows ! unat c)) else None)"
    using assms by (auto simp: bsi_rows_def BitCount_def)
  show ?thesis
  proof (cases "unat c < length rows")
    case True
    with val have "col_word R (bA b) c = f (rows ! unat c)"
      by (auto simp: bsi_val_def split: if_splits)
    with True bit_col_word [of R "bA b" c n] bc show ?thesis by auto
  next
    case False
    with val have "\<not> bm_contains R (eBM b) c" by (auto simp: bsi_val_def split: if_splits)
    with False bsi_wfD [OF wf] show ?thesis by blast
  qed
qed

lemma bsi_rows_fit:
  "bsi_rows R b f rows \<Longrightarrow> \<forall>s \<in> set (bA b). \<forall>c. bm_contains R s c \<longrightarrow> unat c < length rows"
  using bsi_rows_exist [of b f rows] by (auto simp: bsi_rows_def bsi_wf_def)

lemma postings_mem: "postings R m P rows \<Longrightarrow> (k, rb) \<in> set m \<longleftrightarrow> map_of m k = Some rb"
  by (simp add: postings_def)

lemma postings_fit:
  "postings R m P rows \<Longrightarrow> \<forall>(k, s) \<in> set m. \<forall>c. bm_contains R s c \<longrightarrow> unat c < length rows"
  using postings_mem [of m P rows] unfolding postings_def by fastforce

lemma bsi_rowsI:
  assumes "auto_sized b" and "\<not> runOptimized b" and "length (bA b) \<le> 64"
    and ex: "\<And>c. bm_contains R (eBM b) c \<longleftrightarrow> unat c < length rows"
    and bits: "\<And>n c. n < length (bA b) \<and> bm_contains R (bA b ! n) c \<longleftrightarrow>
      unat c < length rows \<and> bit (f (rows ! unat c)) n"
  shows "bsi_rows R b f rows"
proof -
  have "bsi_wf R b" using bits ex by (intro bsi_wfI) blast
  moreover have "col_word R (bA b) c = f (rows ! unat c)" if "unat c < length rows" for c
    using bits [of _ c] that by (intro col_word_eqI) simp
  ultimately show ?thesis
    using assms(1-4) by (simp add: bsi_rows_def BitCount_def bsi_val_def)
qed

lemma NewBSI_0: "NewBSI R 0 0 = \<lparr>bA = [], eBM = bm_new R, MaxValue = 0, MinValue = 0, runOptimized = False\<rparr>"
  by (simp add: NewBSI_def Len64_def Let_def)

lemma add_range_below:
  "n \<le> 2 ^ 32 \<Longrightarrow> bm_contains R (bm_add_range R (bm_new R) 0 (of_nat n)) c \<longleftrightarrow> unat c < n"
  by (subst add_range_contains) (simp_all add: unat_of_nat take_bit_nat_eq_self)

lemma mergeBSI_rows:
  assumes rm: "remaps ra rb A B M" and len: "length M \<le> 2 ^ 32" "length A \<le> 2 ^ 32" "length B \<le> 2 ^ 32"
    and a: "bsi_rows R a f A" and b: "bsi_rows R b f B"
  shows "\<exists>d. mergeBSI R a b ra rb (of_nat (length M)) = Some d \<and> bsi_rows R d f M"
proof -
  have "BitCount a \<le> 64" "BitCount b \<le> 64" using a b by (auto simp: bsi_rows_def)
  then obtain k where k: "(if BitCount b > BitCount a then BitCount b else BitCount a) = k"
    "length (bA a) \<le> k" "length (bA b) \<le> k" "k \<le> 64"
    by (auto simp: BitCount_def)
  let ?z = "replicate k (bm_new R)"
  have z: "MaxValue a = 0" "MinValue a = 0" "MaxValue b = 0" "MinValue b = 0"
    using a b by (auto simp: bsi_rows_def auto_sized_def)
  have fit: "\<forall>s \<in> set (bA a). \<forall>c. bm_contains R s c \<longrightarrow> unat c < length ra"
    "\<forall>s \<in> set (bA b). \<forall>c. bm_contains R s c \<longrightarrow> unat c < length rb"
    using bsi_rows_fit [OF a] bsi_rows_fit [OF b] remapsD(1,2) [OF rm] by simp_all
  obtain ba where ba: "move_slices R ra (bA a) ?z = Some ba" "length ba = k"
    "\<And>n c. n < k \<Longrightarrow> bm_contains R (ba ! n) c \<longleftrightarrow>
       n < length (bA a) \<and> (\<exists>i. bm_contains R (bA a ! n) i \<and> ra ! unat i = c)"
    using move_slices_spec [OF fit(1), of ?z] k(2) by auto
  obtain bb where bb: "move_slices R rb (bA b) ba = Some bb" "length bb = k"
    "\<And>n c. n < k \<Longrightarrow> bm_contains R (bb ! n) c \<longleftrightarrow> bm_contains R (ba ! n) c \<or>
       n < length (bA b) \<and> (\<exists>i. bm_contains R (bA b ! n) i \<and> rb ! unat i = c)"
    using move_slices_spec [OF fit(2), of ba] k(3) ba(2) by auto
  let ?e = "if (of_nat (length M) :: u64) > 0 then bm_add_range R (bm_new R) 0 (of_nat (length M))
    else bm_new R"
  let ?d = "\<lparr>bA = bb, eBM = ?e, MaxValue = 0, MinValue = 0, runOptimized = False\<rparr>"
  have "mergeBSI R a b ra rb (of_nat (length M)) = Some ?d"
    using ba(1) bb(1) by (simp add: mergeBSI_def z k(1) NewBSI_0 InitBitmaps_def GetBitmaps_def
        GetExistenceBitmap_def Let_def)
  moreover have "bsi_rows R ?d f M"
  proof (rule bsi_rowsI)
    show "length (bA ?d) \<le> 64" using bb(2) k(4) by simp
    show "bm_contains R (eBM ?d) c \<longleftrightarrow> unat c < length M" for c
    proof (cases "(of_nat (length M) :: u64) > 0")
      case True
      then show ?thesis using add_range_below [OF len(1)] by simp
    next
      case False
      then have "unat (of_nat (length M) :: u64) = 0" by (simp add: word_gt_0)
      then have "length M = 0"
        using len(1) by (simp add: unat_of_nat take_bit_nat_eq_self)
      with False show ?thesis by simp
    qed
    show "n < length (bA ?d) \<and> bm_contains R (bA ?d ! n) c \<longleftrightarrow>
        unat c < length M \<and> bit (f (M ! unat c)) n" for n c
    proof -
      let ?s = "if n < length (bA a) then bA a ! n else bm_new R"
      let ?t = "if n < length (bA b) then bA b ! n else bm_new R"
      have s: "bm_contains R ?s i \<longleftrightarrow> unat i < length A \<and> bit (f (A ! unat i)) n" for i
        using bsi_rows_bit [OF a, of n i] by auto
      have t: "bm_contains R ?t i \<longleftrightarrow> unat i < length B \<and> bit (f (B ! unat i)) n" for i
        using bsi_rows_bit [OF b, of n i] by auto
      have "n < length (bA ?d) \<and> bm_contains R (bA ?d ! n) c \<longleftrightarrow>
          (\<exists>i. bm_contains R ?s i \<and> ra ! unat i = c) \<or> (\<exists>i. bm_contains R ?t i \<and> rb ! unat i = c)"
        using ba(3) [of n c] bb(2) bb(3) [of n c] k(2,3) by auto
      also have "\<dots> \<longleftrightarrow> unat c < length M \<and> bit (f (M ! unat c)) n"
        by (rule moved_rows [OF rm s t len(2,3)])
      finally show ?thesis .
    qed
  qed (simp_all add: auto_sized_def)
  ultimately show ?thesis by blast
qed

lemma move_both_postings:
  assumes rm: "remaps ra rb A B M" and len: "length A \<le> 2 ^ 32" "length B \<le> 2 ^ 32"
    and a: "postings R ma P A" and b: "postings R mb P B"
  shows "\<exists>m1 m. move_postings R ra ma [] = Some m1 \<and> move_postings R rb mb m1 = Some m \<and>
    postings R m P M"
proof -
  note mem = postings_mem
  have fit: "\<forall>(k, s) \<in> set ma. \<forall>c. bm_contains R s c \<longrightarrow> unat c < length ra"
    "\<forall>(k, s) \<in> set mb. \<forall>c. bm_contains R s c \<longrightarrow> unat c < length rb"
    using postings_fit [OF a] postings_fit [OF b] remapsD(1,2) [OF rm] by simp_all
  obtain m1 where m1: "move_postings R ra ma [] = Some m1" "distinct (map fst m1)"
    "\<And>k c. in_posting m1 k c \<longleftrightarrow>
       (\<exists>s i. map_of ma k = Some s \<and> bm_contains R s i \<and> ra ! unat i = c)"
    using move_postings_spec [OF fit(1), of "[]"] mem [OF a] by (auto simp: in_posting_def)
  obtain m where m: "move_postings R rb mb m1 = Some m" "distinct (map fst m)"
    "\<And>k c. in_posting m k c \<longleftrightarrow> in_posting m1 k c \<or>
       (\<exists>s i. map_of mb k = Some s \<and> bm_contains R s i \<and> rb ! unat i = c)"
    using move_postings_spec [OF fit(2), of m1] mem [OF b] m1(2) by auto
  have "in_posting m k c \<longleftrightarrow> unat c < length M \<and> P (M ! unat c) k" for k c
  proof -
    let ?s = "case map_of ma k of Some s \<Rightarrow> s | None \<Rightarrow> bm_new R"
    let ?t = "case map_of mb k of Some s \<Rightarrow> s | None \<Rightarrow> bm_new R"
    have s: "bm_contains R ?s i \<longleftrightarrow> unat i < length A \<and> P (A ! unat i) k" for i
    proof -
      have "(\<exists>b. map_of ma k = Some b \<and> bm_contains R b i) \<longleftrightarrow> unat i < length A \<and> P (A ! unat i) k"
        using a unfolding postings_def by blast
      then show ?thesis by (cases "map_of ma k") simp_all
    qed
    have t: "bm_contains R ?t i \<longleftrightarrow> unat i < length B \<and> P (B ! unat i) k" for i
    proof -
      have "(\<exists>b. map_of mb k = Some b \<and> bm_contains R b i) \<longleftrightarrow> unat i < length B \<and> P (B ! unat i) k"
        using b unfolding postings_def by blast
      then show ?thesis by (cases "map_of mb k") simp_all
    qed
    have "in_posting m k c \<longleftrightarrow>
        (\<exists>i. bm_contains R ?s i \<and> ra ! unat i = c) \<or> (\<exists>i. bm_contains R ?t i \<and> rb ! unat i = c)"
      unfolding m(3) m1(3) by (cases "map_of ma k"; cases "map_of mb k") simp_all
    also have "\<dots> \<longleftrightarrow> unat c < length M \<and> P (M ! unat c) k"
      by (rule moved_rows [OF rm s t len])
    finally show ?thesis .
  qed
  with m(2) have "postings R m P M" by (simp add: postings_iff)
  with m1(1) m(1) show ?thesis by blast
qed

lemma index_of_keys_entry:
  "index_of_keys m ks \<Longrightarrow> (k, d) \<in> set m \<Longrightarrow> unat d < length ks \<and> ks ! unat d = k"
  by (auto simp: index_of_keys_def)

lemma index_of_keys_dom: "index_of_keys m ks \<Longrightarrow> k \<in> set ks \<Longrightarrow> k \<in> fst ` set m"
  by (metis index_of_keys_def map_of_eq_None_iff)

lemma move_both_indexes:
  assumes rm: "remaps ra rb A B M" and M: "set M \<subseteq> set A \<union> set B"
    and a: "index_of_keys ma (map (row_key t) A)" and b: "index_of_keys mb (map (row_key t) B)"
  shows "\<exists>m1 m. move_indexes ra ma [] = Some m1 \<and> move_indexes rb mb m1 = Some m \<and>
    index_of_keys m (map (row_key t) M)"
proof -
  note ea = index_of_keys_entry [OF a] and eb = index_of_keys_entry [OF b]
  have fit: "\<forall>(k, c) \<in> set ma. unat c < length ra" "\<forall>(k, c) \<in> set mb. unat c < length rb"
    using ea eb remapsD(1,2) [OF rm] by auto
  obtain m1 where m1: "move_indexes ra ma [] = Some m1" "distinct (map fst m1)"
    "\<And>k c. map_of m1 k = Some c \<Longrightarrow> \<exists>d. (k, d) \<in> set ma \<and> c = ra ! unat d"
    "\<And>k. k \<in> fst ` set ma \<Longrightarrow> map_of m1 k \<noteq> None"
    using move_indexes_spec [OF fit(1), of "[]"] by auto
  obtain m where m: "move_indexes rb mb m1 = Some m" "distinct (map fst m)"
    "\<And>k c. map_of m k = Some c \<Longrightarrow> map_of m1 k = Some c \<or> (\<exists>d. (k, d) \<in> set mb \<and> c = rb ! unat d)"
    "\<And>k. map_of m1 k \<noteq> None \<or> k \<in> fst ` set mb \<Longrightarrow> map_of m k \<noteq> None"
    using move_indexes_spec [OF fit(2), of m1] m1(2) by metis
  have sound: "unat c < length M \<and> row_key t (M ! unat c) = k" if c: "map_of m k = Some c" for k c
  proof -
    from m(3) [OF c] m1(3) consider d where "(k, d) \<in> set ma" "c = ra ! unat d"
      | d where "(k, d) \<in> set mb" "c = rb ! unat d" by blast
    then show ?thesis
    proof cases
      case 1
      with ea [of k d] remapsD(3) [OF rm, of "unat d"] show ?thesis by auto
    next
      case 2
      with eb [of k d] remapsD(4) [OF rm, of "unat d"] show ?thesis by auto
    qed
  qed
  have "map_of m k \<noteq> None" if "k \<in> set (map (row_key t) M)" for k
    using that M index_of_keys_dom [OF a, of k] index_of_keys_dom [OF b, of k] m(4) [of k] m1(4) [of k]
    by auto
  with sound m(2) have "index_of_keys m (map (row_key t) M)"
    unfolding index_of_keys_def by simp
  with m1(1) m(1) show ?thesis by blast
qed

lemma merge_indices_rep:
  assumes a: "ri_rep R t a A" and b: "ri_rep R t b B" and n: "length A + length B \<le> 2 ^ 32"
  shows "\<exists>ri. merge_indices R a b = Some ri \<and> ri_rep R t ri (merge_rows t A B)"
proof -
  let ?M = "merge_rows t A B"
  have lenM: "length ?M \<le> 2 ^ 32" and lenA: "length A \<le> 2 ^ 32" and lenB: "length B \<le> 2 ^ 32"
    using n by simp_all
  have setM: "set ?M \<subseteq> set A \<union> set B"
    using arg_cong [OF mset_merge_rows [of t A B], of set_mset] by simp
  obtain ra rb where keys: "merge_keys (ri_keys a) (ri_keys b) 0 = (map (row_key t) ?M, ra, rb)"
    and rm: "remaps ra rb A B ?M"
    using merge_keys_rows [of 0 A B t] n ri_repD(2) [OF a] ri_repD(2) [OF b] by auto
  obtain x1 x where x: "move_indexes ra (ri_indexes a) [] = Some x1"
    "move_indexes rb (ri_indexes b) x1 = Some x" "index_of_keys x (map (row_key t) ?M)"
    using move_both_indexes [OF rm setM] ri_repD(2,8) [OF a] ri_repD(2,8) [OF b] by metis
  obtain g1 g where g: "move_postings R ra (ri_tags a) [] = Some g1"
    "move_postings R rb (ri_tags b) g1 = Some g"
    "postings R g (\<lambda>row t. t \<in> set (ev_Tags (fst row))) ?M"
    using move_both_postings [OF rm lenA lenB ri_repD(6) [OF a] ri_repD(6) [OF b]] by blast
  obtain h1 h where h: "move_postings R ra (ri_annotations a) [] = Some h1"
    "move_postings R rb (ri_annotations b) h1 = Some h"
    "postings R h (\<lambda>row p. (Pair_Key p, Pair_Value p) \<in> set (ev_Annotations (fst row))) ?M"
    using move_both_postings [OF rm lenA lenB ri_repD(7) [OF a] ri_repD(7) [OF b]] by blast
  note bsi = mergeBSI_rows [OF rm lenM lenA lenB]
  obtain st where st: "mergeBSI R (ri_startTime a) (ri_startTime b) ra rb (of_nat (length ?M)) = Some st"
    "bsi_rows R st (row_start t) ?M"
    using bsi [OF ri_repD(4) [OF a] ri_repD(4) [OF b]] by blast
  obtain en where en: "mergeBSI R (ri_endTime a) (ri_endTime b) ra rb (of_nat (length ?M)) = Some en"
    "bsi_rows R en (row_end t) ?M"
    using bsi [OF ri_repD(5) [OF a] ri_repD(5) [OF b]] by blast
  let ?all = "if length ?M > 0 then bm_add_range R (bm_new R) 0 (of_nat (length ?M)) else bm_new R"
  let ?ri = "\<lparr>ri_all = ?all, ri_startTime = st, ri_endTime = en, ri_tags = g,
    ri_annotations = h, ri_keys = map (row_key t) ?M, ri_indexes = x\<rparr>"
  have "merge_indices R a b = Some ?ri"
    unfolding merge_indices_def keys Let_def prod.case length_map
    by (simp only: x(1,2) g(1,2) h(1,2) st(1) en(1) bind.simps)
  moreover have "bm_contains R ?all c \<longleftrightarrow> unat c < length ?M" for c
    using add_range_below [OF lenM, of c] by auto
  then have "ri_rep R t ?ri ?M"
    unfolding ri_rep_def using lenM st(2) en(2) g(3) h(3) x(3) by simp
  ultimately show ?thesis by blast
qed

end

end
