(* ===== verification/Mem_Table.thy ===== *)
theory Mem_Table
  imports Index_Query
begin

text \<open>
  The in-memory table of recent events (\<open>src/memtable.go\<close>), the row-by-row evaluation of a filter
  (\<open>src/match_memtable_item.go\<close>) and the construction of an index from a table
  (\<open>fromMemTable\<close> of \<open>src/index.go\<close>).

  Two third-party packages are parameters: Bloom filters (\<open>'f bloom\<close>, laws \<open>bloom_filter\<close>) and
  skip lists (\<open>('k, 'v, 's) skiplist\<close>, laws \<open>skip_list\<close>). An element of a skip list is identified by
  its key; what \<open>Front\<close>, \<open>Next\<close> and \<open>Prev\<close> walk through is the list of its key-value pairs.
\<close>

subsection \<open>Bloom filters\<close>

record 'f bloom =
  bl_new :: 'f                          \<comment> \<open>\<open>NewWithEstimates(50, 0.01)\<close>\<close>
  bl_add :: "'f \<Rightarrow> string \<Rightarrow> 'f"         \<comment> \<open>\<open>AddString\<close>\<close>
  bl_test :: "'f \<Rightarrow> string \<Rightarrow> bool"      \<comment> \<open>\<open>TestString\<close>\<close>

text \<open>A Bloom filter has no false negatives; false positives are allowed.\<close>

locale bloom_filter =
  fixes F :: "'f bloom"
  assumes test_add: "bl_test F (bl_add F f s) s"
    and test_keep: "bl_test F f s \<Longrightarrow> bl_test F (bl_add F f t) s"
begin

lemma test_adds: "s \<in> set ss \<or> bl_test F f s \<Longrightarrow> bl_test F (fold (\<lambda>s f. bl_add F f s) ss f) s"
  by (induction ss arbitrary: f) (auto intro: test_add test_keep)

end

definition list_bloom :: "string list bloom" where
  "list_bloom = \<lparr>bl_new = [], bl_add = (\<lambda>f s. s # f), bl_test = (\<lambda>f s. s \<in> set f)\<rparr>"

lemma list_bloom_simps [simp]:
  "bl_new list_bloom = []" "bl_add list_bloom f s = s # f" "bl_test list_bloom f s \<longleftrightarrow> s \<in> set f"
  by (simp_all add: list_bloom_def)

interpretation list_bf: bloom_filter list_bloom
  by unfold_locales simp_all

subsection \<open>Skip lists\<close>

record ('k, 'v, 's) skiplist =
  sl_new :: "('k \<Rightarrow> 'k \<Rightarrow> int) \<Rightarrow> 's"     \<comment> \<open>\<open>New(LessThanFunc(f))\<close>\<close>
  sl_set :: "'s \<Rightarrow> 'k \<Rightarrow> 'v \<Rightarrow> 's"         \<comment> \<open>\<open>Set\<close>\<close>
  sl_len :: "'s \<Rightarrow> nat"                  \<comment> \<open>\<open>Len\<close>\<close>
  sl_items :: "'s \<Rightarrow> ('k \<times> 'v) list"      \<comment> \<open>\<open>Front\<close>, then \<open>Next\<close> until nil\<close>
  sl_find :: "'s \<Rightarrow> 'k \<Rightarrow> 'k option"      \<comment> \<open>\<open>Find\<close>: the first element not before the key\<close>

text \<open>Insertion into a list in descending order of \<open>f\<close>; an equal key keeps its place and its element.\<close>

fun insert_desc :: "('k \<Rightarrow> 'k \<Rightarrow> int) \<Rightarrow> 'k \<Rightarrow> 'v \<Rightarrow> ('k \<times> 'v) list \<Rightarrow> ('k \<times> 'v) list" where
  "insert_desc f k v [] = [(k, v)]"
| "insert_desc f k v ((k', v') # xs) =
     (if f k k' > 0 then (k, v) # (k', v') # xs
      else if f k k' = 0 then (k', v) # xs
      else (k', v') # insert_desc f k v xs)"

text \<open>\<open>made f s\<close>: \<open>s\<close> is a list created with \<open>LessThanFunc(f)\<close>, which keeps descending order.\<close>

locale skip_list =
  fixes S :: "('k, 'v, 's) skiplist" and made :: "('k \<Rightarrow> 'k \<Rightarrow> int) \<Rightarrow> 's \<Rightarrow> bool"
  assumes made_new: "made f (sl_new S f)"
    and made_set: "made f s \<Longrightarrow> made f (sl_set S s k v)"
    and new_items: "sl_items S (sl_new S f) = []"
    and set_items: "made f s \<Longrightarrow> sl_items S (sl_set S s k v) = insert_desc f k v (sl_items S s)"
    and len_items: "sl_len S s = length (sl_items S s)"
    and find_items: "made f s \<Longrightarrow>
      sl_find S s k = map_option fst (find (\<lambda>(k', v). f k k' \<ge> 0) (sl_items S s))"

definition list_skiplist :: "('k, 'v, ('k \<Rightarrow> 'k \<Rightarrow> int) \<times> ('k \<times> 'v) list) skiplist" where
  "list_skiplist = \<lparr>
     sl_new = (\<lambda>f. (f, [])),
     sl_set = (\<lambda>(f, xs) k v. (f, insert_desc f k v xs)),
     sl_len = (\<lambda>(f, xs). length xs),
     sl_items = snd,
     sl_find = (\<lambda>(f, xs) k. map_option fst (find (\<lambda>(k', v). f k k' \<ge> 0) xs))\<rparr>"

interpretation list_sl: skip_list list_skiplist "\<lambda>f s. fst s = f"
  by unfold_locales (auto simp: list_skiplist_def split: prod.splits)

subsection \<open>Items and tables\<close>

record ('ts, 'f) memTableItem =
  mi_event :: "'ts event option"
  mi_tags :: 'f
  mi_annotations :: 'f
  mi_ts :: u64
  mi_isDeleted :: bool

definition newMemTableItem ::
  "'f bloom \<Rightarrow> 'ts event option \<Rightarrow> u64 \<Rightarrow> bool \<Rightarrow> ('ts, 'f) memTableItem" where
  "newMemTableItem F event ts isDeleted =
     (let item = \<lparr>mi_event = None, mi_tags = bl_new F, mi_annotations = bl_new F,
                  mi_ts = ts, mi_isDeleted = isDeleted\<rparr>
      in case event of None \<Rightarrow> item
         | Some e \<Rightarrow> item\<lparr>mi_event := Some e,
             mi_tags := fold (\<lambda>s f. bl_add F f s) (ev_Tags e) (mi_tags item),
             mi_annotations := fold (\<lambda>s f. bl_add F f s)
               (map (\<lambda>(k, v). k @ ''_'' @ v) (ev_Annotations e)) (mi_annotations item)\<rparr>)"

record 's memTable =
  mt_items :: 's

definition newMemTable :: "(EventKey, 'v, 's) skiplist \<Rightarrow> 's memTable" where
  "newMemTable S = \<lparr>mt_items = sl_new S memTable_compare\<rparr>"

definition mt_size :: "(EventKey, 'v, 's) skiplist \<Rightarrow> 's memTable \<Rightarrow> nat" where
  "mt_size S mt = sl_len S (mt_items mt)"

definition putItem :: "(EventKey, 'v, 's) skiplist \<Rightarrow> 's memTable \<Rightarrow> EventKey \<Rightarrow> 'v \<Rightarrow> 's memTable" where
  "putItem S mt key item = mt\<lparr>mt_items := sl_set S (mt_items mt) key item\<rparr>"

definition put_event ::
  "(EventKey, ('ts, 'f) memTableItem, 's) skiplist \<Rightarrow> 'f bloom \<Rightarrow> ('ts option \<Rightarrow> go_time) \<Rightarrow>
   's memTable \<Rightarrow> 'ts event option \<Rightarrow> u64 \<Rightarrow> bool \<Rightarrow> 's memTable" where
  "put_event S F as_time mt event ts isDeleted =
     mt\<lparr>mt_items := sl_set S (mt_items mt) (EventKeyFromProto as_time event ts isDeleted)
          (newMemTableItem F event ts isDeleted)\<rparr>"

subsection \<open>Matching a filter against an item\<close>

definition matchRestriction ::
  "'f bloom \<Rightarrow> ('ts, 'f) memTableItem \<Rightarrow> Restriction \<Rightarrow> filter_error + bool" where
  "matchRestriction F item r =
     (case Restriction_Comparable r of
        Some (Comparable (Some (Member (Some v) fs))) \<Rightarrow>
          if Value_Value v = ''tags'' then
            (case arg_value (Restriction_Arg r) of
               None \<Rightarrow> Inl TagsRequiresArgument
             | Some a \<Rightarrow>
               if \<not> Quoted a then Inl TagsTypeMismatch
               else if \<not> bl_test F (mi_tags item) (Value_Value a) then Inr False
               else Inr (Value_Value a \<in> set (GetTags (mi_event item))))
          else if Value_Value v = ''annotations'' then
            (if fs = [] then Inl AnnotationsRequiresKeyAndValue
             else case arg_value (Restriction_Arg r) of
               None \<Rightarrow> Inl AnnotationsRequiresKeyAndValue
             | Some a \<Rightarrow>
               if \<not> Quoted a then Inl AnnotationsTypeMismatch
               else (case hd fs of
                       None \<Rightarrow> Inl NilFieldPanic
                     | Some k \<Rightarrow>
                       if \<not> bl_test F (mi_annotations item) (Value_Value k @ ''_'' @ Value_Value a)
                       then Inr False
                       else (case map_of (GetAnnotations (mi_event item)) (Value_Value k) of
                               Some val \<Rightarrow> Inr (val = Value_Value a)
                             | None \<Rightarrow> Inr False)))
          else Inl (UnknownField (Value_Value v))
      | _ \<Rightarrow> Inl InvalidRestriction)"

text \<open>The loops: all children must match, and one child must match.\<close>

fun match_all :: "('x \<Rightarrow> filter_error + bool) \<Rightarrow> 'x list \<Rightarrow> filter_error + bool" where
  "match_all f [] = Inr True"
| "match_all f (x # xs) =
     (case f x of Inl e \<Rightarrow> Inl e | Inr matched \<Rightarrow> if \<not> matched then Inr False else match_all f xs)"

fun match_any :: "('x \<Rightarrow> filter_error + bool) \<Rightarrow> 'x list \<Rightarrow> filter_error + bool" where
  "match_any f [] = Inr False"
| "match_any f (x # xs) =
     (case f x of Inl e \<Rightarrow> Inl e | Inr matched \<Rightarrow> if matched then Inr True else match_any f xs)"

lemma match_loops_cong [fundef_cong]:
  "\<lbrakk>xs = ys; \<And>x. x \<in> set ys \<Longrightarrow> f x = g x\<rbrakk> \<Longrightarrow> match_all f xs = match_all g ys"
  "\<lbrakk>xs = ys; \<And>x. x \<in> set ys \<Longrightarrow> f x = g x\<rbrakk> \<Longrightarrow> match_any f xs = match_any g ys"
  by (induction xs arbitrary: ys) (auto split: sum.splits)

fun matchExpression :: "'f bloom \<Rightarrow> ('ts, 'f) memTableItem \<Rightarrow> Expression option \<Rightarrow> filter_error + bool"
  and matchSequence :: "'f bloom \<Rightarrow> ('ts, 'f) memTableItem \<Rightarrow> Sequence option \<Rightarrow> filter_error + bool"
  and matchFactor :: "'f bloom \<Rightarrow> ('ts, 'f) memTableItem \<Rightarrow> Factor option \<Rightarrow> filter_error + bool"
  and matchTerm :: "'f bloom \<Rightarrow> ('ts, 'f) memTableItem \<Rightarrow> Term option \<Rightarrow> filter_error + bool"
  and matchSimple :: "'f bloom \<Rightarrow> ('ts, 'f) memTableItem \<Rightarrow> Simple option \<Rightarrow> filter_error + bool" where
  "matchExpression F item None = Inr True"
| "matchExpression F item (Some (Expression seqs)) = match_all (matchSequence F item) seqs"
| "matchSequence F item None = Inr True"
| "matchSequence F item (Some (Sequence factors)) = match_all (matchFactor F item) factors"
| "matchFactor F item None = Inr True"
| "matchFactor F item (Some (Factor terms)) = match_any (matchTerm F item) terms"
| "matchTerm F item None = Inr True"
| "matchTerm F item (Some (Term negated simple)) =
     (case matchSimple F item simple of Inl e \<Rightarrow> Inl e
      | Inr matched \<Rightarrow> if negated then Inr (\<not> matched) else Inr matched)"
| "matchSimple F item None = Inr True"
| "matchSimple F item (Some (Simple restriction composite)) =
     (case composite of Some c \<Rightarrow> matchExpression F item (Some c)
      | None \<Rightarrow> (case restriction of Some r \<Rightarrow> matchRestriction F item r | None \<Rightarrow> Inr True))"

definition matchMemTableItem ::
  "'f bloom \<Rightarrow> Filter option \<Rightarrow> ('ts, 'f) memTableItem \<Rightarrow> filter_error + bool" where
  "matchMemTableItem F f item =
     (case f of None \<Rightarrow> Inr True | Some f \<Rightarrow> matchExpression F item (Filter_Expression f))"

subsection \<open>An index from a table\<close>

fun index_items ::
  "'b roaring \<Rightarrow> ('ts option \<Rightarrow> go_time) \<Rightarrow> (EventKey \<times> ('ts, 'f) memTableItem) list \<Rightarrow>
   'b roaringIndex \<Rightarrow> 'b roaringIndex option" where
  "index_items R as_time [] ri = Some ri"
| "index_items R as_time ((key, val) # elems) ri =
     (case indexEvent R as_time ri (mi_event val) (key_Timestamp key) (key_IsDeleted key) of
        None \<Rightarrow> None
      | Some ri \<Rightarrow> index_items R as_time elems ri)"

definition fromMemTable ::
  "'b roaring \<Rightarrow> (EventKey, ('ts, 'f) memTableItem, 's) skiplist \<Rightarrow> ('ts option \<Rightarrow> go_time) \<Rightarrow>
   's memTable \<Rightarrow> 'b roaringIndex option" where
  "fromMemTable R S as_time mt =
     index_items R as_time (sl_items S (mt_items mt)) (newRoaringIndex R)"

subsection \<open>Matching is what the filter means\<close>

definition ev_ok :: "'ts event \<Rightarrow> bool" where
  "ev_ok e \<longleftrightarrow> distinct (map fst (ev_Annotations e))"

lemma match_all_errors: "match_all f xs = Inl e \<Longrightarrow> \<exists>x \<in> set xs. f x = Inl e"
  by (induction xs) (auto split: sum.splits if_splits)

lemma match_any_errors: "match_any f xs = Inl e \<Longrightarrow> \<exists>x \<in> set xs. f x = Inl e"
  by (induction xs) (auto split: sum.splits if_splits)

lemma match_all_holds: "\<forall>x \<in> set xs. f x = Inr (H x) \<Longrightarrow> match_all f xs = Inr (\<forall>x \<in> set xs. H x)"
  by (induction xs) auto

lemma match_any_holds: "\<forall>x \<in> set xs. f x = Inr (H x) \<Longrightarrow> match_any f xs = Inr (\<exists>x \<in> set xs. H x)"
  by (induction xs) auto

context bloom_filter
begin

lemma matchRestriction_atom:
  assumes "ev_ok e"
  shows "matchRestriction F (newMemTableItem F (Some e) ts d) r =
    (case restriction_atom r of Inl err \<Rightarrow> Inl err | Inr a \<Rightarrow> Inr (event_sat e a))"
proof -
  let ?i = "newMemTableItem F (Some e) ts d"
  have tags: "t \<in> set (ev_Tags e) \<Longrightarrow> bl_test F (mi_tags ?i) t" for t
    by (simp add: newMemTableItem_def Let_def test_adds)
  have ann: "(k, v) \<in> set (ev_Annotations e) \<Longrightarrow> bl_test F (mi_annotations ?i) (k @ ''_'' @ v)" for k v
    by (force simp: newMemTableItem_def Let_def intro: test_adds)
  have ev: "mi_event ?i = Some e" by (simp add: newMemTableItem_def Let_def)
  have map: "map_of (ev_Annotations e) k = Some v \<longleftrightarrow> (k, v) \<in> set (ev_Annotations e)" for k v
    using assms by (simp add: ev_ok_def)
  have lookup: "(case map_of (ev_Annotations e) k of Some val \<Rightarrow> Inr (val = v) | None \<Rightarrow> Inr False) =
      (Inr ((k, v) \<in> set (ev_Annotations e)) :: filter_error + bool)" for k v
    using map [of k v] by (cases "map_of (ev_Annotations e) k") auto
  show ?thesis
  proof (cases r rule: restriction_atom.cases)
    case (1 v fs op a)
    consider "Value_Value v = ''tags''" | "Value_Value v = ''annotations''"
      | "Value_Value v \<noteq> ''tags''" "Value_Value v \<noteq> ''annotations''" by blast
    then show ?thesis
    proof cases
      case 1
      with \<open>r = _\<close> tags show ?thesis
        by (cases "arg_value a") (auto simp: matchRestriction_def ev getters)
    next
      case 2
      with \<open>r = _\<close> ann lookup show ?thesis
        by (cases fs; cases "arg_value a"; cases "hd fs")
          (auto simp: matchRestriction_def ev getters)
    next
      case 3
      with \<open>r = _\<close> show ?thesis by (simp add: matchRestriction_def)
    qed
  qed (simp_all add: matchRestriction_def)
qed

lemma match_holds:
  assumes e: "ev_ok e" and i: "i = newMemTableItem F (Some e) ts d"
  shows "expression_errors x = [] \<Longrightarrow> matchExpression F i x = Inr (expression_holds (event_sat e) x)"
    and "sequence_errors s = [] \<Longrightarrow> matchSequence F i s = Inr (sequence_holds (event_sat e) s)"
    and "factor_errors f = [] \<Longrightarrow> matchFactor F i f = Inr (factor_holds (event_sat e) f)"
    and "term_errors t = [] \<Longrightarrow> matchTerm F i t = Inr (term_holds (event_sat e) t)"
    and "simple_errors m = [] \<Longrightarrow> matchSimple F i m = Inr (simple_holds (event_sat e) m)"
proof (induction x and s and f and t and m rule:
    expression_errors_sequence_errors_factor_errors_term_errors_simple_errors.induct)
  case (10 r c)
  show ?case
  proof (cases c)
    case None
    with 10 show ?thesis
      using matchRestriction_atom [OF e]
      by (auto simp: i error_of_def atom_holds_def split: option.splits sum.splits)
  next
    case (Some x)
    with "10.IH" [OF Some] "10.prems" show ?thesis by simp
  qed
qed (auto intro!: match_all_holds match_any_holds)

lemma match_item:
  "ev_ok e \<Longrightarrow> filter_errors flt = [] \<Longrightarrow>
     matchMemTableItem F flt (newMemTableItem F (Some e) ts d) = Inr (filter_holds (event_sat e) flt)"
  by (auto simp: matchMemTableItem_def filter_holds_def filter_errors_def match_holds [OF _ refl]
      split: option.splits)

end

text \<open>An error is an error of the filter, whatever the item.\<close>

lemma matchRestriction_error: "matchRestriction F item r = Inl err \<Longrightarrow> err \<in> set (error_of r)"
  by (cases r rule: restriction_atom.cases)
    (auto simp: matchRestriction_def error_of_def split: if_splits option.splits list.splits)

lemma match_errors:
  "matchExpression F item x = Inl err \<Longrightarrow> err \<in> set (expression_errors x)"
  "matchSequence F item s = Inl err \<Longrightarrow> err \<in> set (sequence_errors s)"
  "matchFactor F item f = Inl err \<Longrightarrow> err \<in> set (factor_errors f)"
  "matchTerm F item t = Inl err \<Longrightarrow> err \<in> set (term_errors t)"
  "matchSimple F item m = Inl err \<Longrightarrow> err \<in> set (simple_errors m)"
proof (induction x and s and f and t and m rule:
    expression_errors_sequence_errors_factor_errors_term_errors_simple_errors.induct)
  case (10 r c)
  then show ?case
    using matchRestriction_error by (cases c) (auto split: option.splits)
qed (auto dest!: match_all_errors match_any_errors split: sum.splits if_splits)

subsection \<open>The index of a table\<close>

text \<open>The rows of a table's items. A tombstone, an item without an event, is no row.\<close>

fun item_rows :: "(EventKey \<times> ('ts, 'f) memTableItem) list \<Rightarrow> 'ts row list" where
  "item_rows [] = []"
| "item_rows ((key, val) # elems) =
     (case mi_event val of
        None \<Rightarrow> item_rows elems
      | Some e \<Rightarrow> (e, key_Timestamp key, key_IsDeleted key) # item_rows elems)"

lemma length_item_rows: "length (item_rows elems) \<le> length elems"
  by (induction elems rule: item_rows.induct) (auto split: option.splits)

lemma index_items_tombstone:
  "\<exists>(key, val) \<in> set elems. mi_event val = None \<Longrightarrow> index_items R as_time elems ri = None"
proof (induction R as_time elems ri rule: index_items.induct)
  case (2 R as_time key val elems ri)
  show ?case
  proof (cases "mi_event val")
    case None
    then show ?thesis by (simp add: indexEvent_def Let_def)
  next
    case (Some e)
    with 2 show ?thesis by (auto split: option.split)
  qed
qed simp

context roaring_bitmap
begin

lemma index_items_rep:
  assumes "ri_rep R as_time ri rows" and "length rows + length elems \<le> 2 ^ 32"
    and "\<forall>(key, val) \<in> set elems. mi_event val \<noteq> None"
  shows "\<exists>ri'. index_items R as_time elems ri = Some ri' \<and>
    ri_rep R as_time ri' (rows @ item_rows elems)"
  using assms
proof (induction elems arbitrary: ri rows)
  case (Cons x elems)
  obtain key val where x: "x = (key, val)" by fastforce
  with Cons.prems(3) obtain e where e: "mi_event val = Some e" by auto
  from indexEvent_rep [OF Cons.prems(1), of e "key_Timestamp key" "key_IsDeleted key"] Cons.prems(2)
  obtain ri1 where ri1:
    "indexEvent R as_time ri (Some e) (key_Timestamp key) (key_IsDeleted key) = Some ri1"
    "ri_rep R as_time ri1 (rows @ [(e, key_Timestamp key, key_IsDeleted key)])" by auto
  from Cons.IH [OF ri1(2)] Cons.prems(2,3) ri1(1) e x show ?case by auto
qed simp

lemma fromMemTable_rep:
  assumes "length (sl_items S (mt_items mt)) \<le> 2 ^ 32"
    and "\<forall>(key, val) \<in> set (sl_items S (mt_items mt)). mi_event val \<noteq> None"
  shows "\<exists>ri. fromMemTable R S as_time mt = Some ri \<and>
    ri_rep R as_time ri (item_rows (sl_items S (mt_items mt)))"
  using index_items_rep [OF ri_rep_new, of "sl_items S (mt_items mt)" as_time] assms
  by (simp add: fromMemTable_def)

end

end
