(* ===== verification/Iterators.thy ===== *)
theory Iterators
  imports Mem_Table
begin

text \<open>
  The iterators that a listing walks: over a mem table (\<open>src/iterator_memtable.go\<close>) and over the
  postings of an index (\<open>src/iterator_index.go\<close>). The Go interface \<open>Iterator\<close>
  (\<open>src/iterator.go\<close>) is the locale \<open>iterator\<close>: what is left to yield, as a list, and how
  \<open>Next\<close>, \<open>Value\<close> and \<open>Valid\<close> act on it. Both iterators are interpretations.

  \<open>None\<close> as a result is a panic (a nil element, or a row number out of range).
\<close>

subsection \<open>The interface\<close>

locale iterator =
  fixes Next :: "'s \<Rightarrow> (bool \<times> 's) option" and Value :: "'s \<Rightarrow> EventKey option"
    and Valid :: "'s \<Rightarrow> bool" and inv :: "'s \<Rightarrow> bool" and left :: "'s \<Rightarrow> EventKey list"
  assumes Next_more: "inv s \<Longrightarrow> left s = k # ks \<Longrightarrow>
      \<exists>s'. Next s = Some (True, s') \<and> inv s' \<and> left s' = ks \<and> Value s' = Some k \<and> Valid s'"
    and Next_done: "inv s \<Longrightarrow> left s = [] \<Longrightarrow>
      \<exists>s'. Next s = Some (False, s') \<and> inv s' \<and> left s' = [] \<and> \<not> Valid s'"
begin

text \<open>Calling \<open>Next\<close> until it answers false, at most \<open>n\<close> times, and collecting the values.\<close>

fun drain :: "nat \<Rightarrow> 's \<Rightarrow> EventKey list option" where
  "drain 0 s = None"
| "drain (Suc n) s =
     (case Next s of None \<Rightarrow> None
      | Some (again, s') \<Rightarrow>
          if again then Option.bind (Value s') (\<lambda>k. map_option ((#) k) (drain n s')) else Some [])"

lemma drain_left: "inv s \<Longrightarrow> length (left s) < n \<Longrightarrow> drain n s = Some (left s)"
proof (induction n arbitrary: s)
  case (Suc n)
  show ?case
  proof (cases "left s")
    case Nil
    with Next_done [OF Suc.prems(1)] show ?thesis by auto
  next
    case (Cons k ks)
    with Next_more [OF Suc.prems(1)] obtain s' where
      "Next s = Some (True, s')" "inv s'" "left s' = ks" "Value s' = Some k" by blast
    with Cons Suc show ?thesis by auto
  qed
qed simp

end

subsection \<open>Iterating over a mem table\<close>

text \<open>
  The fields of the iterator besides the table. An element is its key. The table is an argument
  of the operations, as its items: it may have grown since the last call.
\<close>

record MemTableIterator =
  mti_ts :: u64
  mti_f :: "Filter option"
  mti_cur :: "EventKey option"
  mti_next :: "EventKey option"
  mti_end :: bool

definition NewMemTableIterator :: "Filter option \<Rightarrow> u64 \<Rightarrow> MemTableIterator" where
  "NewMemTableIterator f ts =
     \<lparr>mti_ts = ts, mti_f = f, mti_cur = None, mti_next = None, mti_end = False\<rparr>"

definition mti_Valid :: "MemTableIterator \<Rightarrow> bool" where
  "mti_Valid mti \<longleftrightarrow> \<not> mti_end mti"

text \<open>The loop of \<open>Next\<close>: the elements from \<open>cur\<close> on, and the one before them. The result is the
  element the loop breaks at and the key of the element after it.\<close>

fun mti_scan ::
  "'f bloom \<Rightarrow> Filter option \<Rightarrow> u64 \<Rightarrow> EventKey option \<Rightarrow> (EventKey \<times> ('ts, 'f) memTableItem) list \<Rightarrow>
   (EventKey \<times> EventKey option) option" where
  "mti_scan F f ts prev [] = None"
| "mti_scan F f ts prev ((key, val) # elems) =
     (if key_Timestamp key > ts then mti_scan F f ts (Some key) elems
      else if prev \<noteq> None \<and> key_ID key = key_ID (the prev) \<and> key_Timestamp (the prev) \<le> ts
      then mti_scan F f ts (Some key) elems
      else (case matchMemTableItem F f val of
              Inl e \<Rightarrow> mti_scan F f ts (Some key) elems
            | Inr match \<Rightarrow>
                if \<not> match then mti_scan F f ts (Some key) elems
                else Some (key, case elems of [] \<Rightarrow> None | x # _ \<Rightarrow> Some (fst x))))"

text \<open>\<open>Prev\<close> of the element with a key, and the elements from it on.\<close>

fun split_at :: "EventKey option \<Rightarrow> EventKey \<Rightarrow> (EventKey \<times> 'v) list \<Rightarrow>
    EventKey option \<times> (EventKey \<times> 'v) list" where
  "split_at prev k [] = (prev, [])"
| "split_at prev k ((key, v) # elems) =
     (if key = k then (prev, (key, v) # elems) else split_at (Some key) k elems)"

definition mti_advance ::
  "'f bloom \<Rightarrow> (EventKey \<times> ('ts, 'f) memTableItem) list \<Rightarrow> MemTableIterator \<Rightarrow> EventKey \<Rightarrow>
   bool \<times> MemTableIterator" where
  "mti_advance F elems mti k =
     (let (prev, suffix) = split_at None k elems
      in case mti_scan F (mti_f mti) (mti_ts mti) prev suffix of
           None \<Rightarrow> (False, mti\<lparr>mti_cur := None, mti_end := True, mti_next := None\<rparr>)
         | Some (key, nxt) \<Rightarrow> (True, mti\<lparr>mti_cur := Some key, mti_next := nxt\<rparr>))"

definition mti_Next ::
  "'f bloom \<Rightarrow> (EventKey \<times> ('ts, 'f) memTableItem) list \<Rightarrow> MemTableIterator \<Rightarrow>
   bool \<times> MemTableIterator" where
  "mti_Next F elems mti =
     (if mti_end mti then (False, mti)
      else
        let mti = (if mti_cur mti = None \<and> mti_next mti = None
                   then mti\<lparr>mti_next := (case elems of [] \<Rightarrow> None | x # _ \<Rightarrow> Some (fst x))\<rparr> else mti)
        in case mti_next mti of
             None \<Rightarrow> (False, mti\<lparr>mti_end := True\<rparr>)
           | Some k \<Rightarrow> mti_advance F elems mti k)"

text \<open>\<open>mti.cur.Key()\<close>, a panic when \<open>cur\<close> is nil.\<close>

definition mti_Value :: "MemTableIterator \<Rightarrow> EventKey option" where
  "mti_Value mti = mti_cur mti"

definition mti_Seek ::
  "(EventKey, 'v, 's) skiplist \<Rightarrow> 's \<Rightarrow> MemTableIterator \<Rightarrow> EventKey \<Rightarrow> MemTableIterator" where
  "mti_Seek S items mti key =
     (let mti = mti\<lparr>mti_end := False\<rparr>
      in case sl_find S items key of
           None \<Rightarrow> mti\<lparr>mti_end := True\<rparr>
         | Some found \<Rightarrow> mti\<lparr>mti_next := Some found\<rparr>)"

text \<open>What the iterator yields of a table: the elements that are not newer than the timestamp, do
  not follow a visible element of the same id, and match the filter.\<close>

fun mt_visible ::
  "'f bloom \<Rightarrow> Filter option \<Rightarrow> u64 \<Rightarrow> EventKey option \<Rightarrow> (EventKey \<times> ('ts, 'f) memTableItem) list \<Rightarrow>
   EventKey list" where
  "mt_visible F f ts prev [] = []"
| "mt_visible F f ts prev ((key, val) # elems) =
     (if key_Timestamp key \<le> ts \<and>
         \<not> (\<exists>p. prev = Some p \<and> key_ID p = key_ID key \<and> key_Timestamp p \<le> ts) \<and>
         matchMemTableItem F f val = Inr True
      then [key] else []) @ mt_visible F f ts (Some key) elems"

text \<open>What is left for an iterator: nothing at the end, else what is visible from its next element.\<close>

definition mti_left :: "'f bloom \<Rightarrow> (EventKey \<times> ('ts, 'f) memTableItem) list \<Rightarrow> MemTableIterator \<Rightarrow>
    EventKey list" where
  "mti_left F elems mti =
     (if mti_end mti then []
      else case mti_next mti of
          Some k \<Rightarrow> (let (prev, suffix) = split_at None k elems
                     in mt_visible F (mti_f mti) (mti_ts mti) prev suffix)
        | None \<Rightarrow> if mti_cur mti = None then mt_visible F (mti_f mti) (mti_ts mti) None elems else [])"

definition mti_inv :: "(EventKey \<times> 'v) list \<Rightarrow> MemTableIterator \<Rightarrow> bool" where
  "mti_inv elems mti \<longleftrightarrow> (\<forall>k. mti_next mti = Some k \<longrightarrow> k \<in> fst ` set elems)"


lemma mti_scan_visible:
  "case mti_scan F f ts prev elems of
     None \<Rightarrow> mt_visible F f ts prev elems = []
   | Some (key, nxt) \<Rightarrow> \<exists>pre v suf. elems = pre @ (key, v) # suf \<and>
       nxt = (case suf of [] \<Rightarrow> None | x # _ \<Rightarrow> Some (fst x)) \<and>
       mt_visible F f ts prev elems = key # mt_visible F f ts (Some key) suf"
proof (induction F f ts prev elems rule: mti_scan.induct)
  case (2 F f ts prev key val elems)
  let ?skip = "key_Timestamp key > ts \<or>
    (prev \<noteq> None \<and> key_ID key = key_ID (the prev) \<and> key_Timestamp (the prev) \<le> ts) \<or>
    matchMemTableItem F f val \<noteq> Inr True"
  show ?case
  proof (cases ?skip)
    case True
    then have scan: "mti_scan F f ts prev ((key, val) # elems) = mti_scan F f ts (Some key) elems"
      and vis: "mt_visible F f ts prev ((key, val) # elems) = mt_visible F f ts (Some key) elems"
      by (auto split: sum.splits)
    have IH: "case mti_scan F f ts (Some key) elems of
        None \<Rightarrow> mt_visible F f ts (Some key) elems = []
      | Some (k, nxt) \<Rightarrow> \<exists>pre v suf. elems = pre @ (k, v) # suf \<and>
         nxt = (case suf of [] \<Rightarrow> None | x # _ \<Rightarrow> Some (fst x)) \<and>
         mt_visible F f ts (Some key) elems = k # mt_visible F f ts (Some k) suf"
      using 2 True
      by (cases "key_Timestamp key > ts";
          cases "prev \<noteq> None \<and> key_ID key = key_ID (the prev) \<and> key_Timestamp (the prev) \<le> ts";
          cases "matchMemTableItem F f val") (auto simp del: mti_scan.simps mt_visible.simps)
    show ?thesis
    proof (cases "mti_scan F f ts (Some key) elems")
      case None
      with IH scan vis show ?thesis by simp
    next
      case (Some r)
      obtain k nxt where r: "r = (k, nxt)" by fastforce
      with Some IH obtain pre v suf where "elems = pre @ (k, v) # suf"
        "nxt = (case suf of [] \<Rightarrow> None | x # _ \<Rightarrow> Some (fst x))"
        "mt_visible F f ts (Some key) elems = k # mt_visible F f ts (Some k) suf" by auto
      then show ?thesis
        unfolding scan vis Some r
        by (auto intro!: exI [of _ "(key, val) # pre"])
    qed
  next
    case False
    then have "mti_scan F f ts prev ((key, val) # elems) =
        Some (key, case elems of [] \<Rightarrow> None | x # _ \<Rightarrow> Some (fst x))"
      and "mt_visible F f ts prev ((key, val) # elems) = key # mt_visible F f ts (Some key) elems"
      by auto
    then show ?thesis by (simp del: mti_scan.simps mt_visible.simps) blast
  qed
qed simp

lemma split_at_append:
  "k \<notin> fst ` set pre \<Longrightarrow> split_at p k (pre @ (k, v) # suf) =
     (if pre = [] then p else Some (fst (last pre)), (k, v) # suf)"
  by (induction pre arbitrary: p) auto

text \<open>Splitting at the element after a place of the table.\<close>

lemma split_at_next:
  assumes "distinct (map fst (pre @ (key, v) # x # suf))"
  shows "split_at None (fst x) (pre @ (key, v) # x # suf) = (Some key, x # suf)"
proof -
  obtain k w where x: "x = (k, w)" by fastforce
  have "k \<notin> fst ` set (pre @ [(key, v)])"
    using assms by (auto simp: x)
  from split_at_append [OF this, of None w suf] show ?thesis by (simp add: x)
qed

lemma mti_Next_left:
  assumes distinct: "distinct (map fst elems)" and inv: "mti_inv elems mti"
  shows "case mti_left F elems mti of
      [] \<Rightarrow> \<exists>mti'. mti_Next F elems mti = (False, mti') \<and> mti_inv elems mti' \<and>
        mti_left F elems mti' = [] \<and> mti_end mti'
    | k # ks \<Rightarrow> \<exists>mti'. mti_Next F elems mti = (True, mti') \<and> mti_inv elems mti' \<and>
        mti_left F elems mti' = ks \<and> mti_cur mti' = Some k \<and> \<not> mti_end mti'"
proof (cases "mti_end mti")
  case True
  with inv show ?thesis by (simp add: mti_left_def mti_Next_def)
next
  case False
  note mti_scan.simps [simp del] and mt_visible.simps [simp del]
  let ?start = "mti_cur mti = None \<and> mti_next mti = None"
  let ?nxt = "if ?start then (case elems of [] \<Rightarrow> None | x # _ \<Rightarrow> Some (fst x)) else mti_next mti"
  show ?thesis
  proof (cases ?nxt)
    case None
    then have "mti_left F elems mti = []"
      using False by (auto simp: mti_left_def mt_visible.simps(1) split: if_splits list.splits option.splits)
    with None False show ?thesis
      by (auto simp: mti_Next_def mti_left_def mti_inv_def Let_def mt_visible.simps(1)
          split: if_splits list.splits)
  next
    case (Some k)
    then have "k \<in> fst ` set elems"
      using inv by (auto simp: mti_inv_def split: if_splits list.splits)
    then obtain pre v suf where elems: "elems = pre @ (k, v) # suf"
      by (metis (no_types) imageE prod.collapse split_list)
    let ?p = "if pre = [] then None else Some (fst (last pre))"
    let ?f = "mti_f mti" and ?ts = "mti_ts mti"
    have split: "split_at None k elems = (?p, (k, v) # suf)"
      using distinct split_at_append [of k pre None v suf] by (force simp: elems)
    have left: "mti_left F elems mti = mt_visible F ?f ?ts ?p ((k, v) # suf)"
    proof (cases ?start)
      case True
      with Some have "pre = []"
        using distinct by (cases pre) (auto simp: elems)
      with True False show ?thesis by (simp add: mti_left_def elems)
    next
      case False
      with Some split \<open>\<not> mti_end mti\<close> show ?thesis by (simp add: mti_left_def del: split_at.simps)
    qed
    have adv: "mti_advance F elems (mti\<lparr>mti_next := n\<rparr>) k = mti_advance F elems mti k" for n
      by (cases mti) (auto simp: mti_advance_def split: option.splits prod.splits)
    have "mti_Next F elems mti = mti_advance F elems mti k"
      using Some False adv by (cases ?start) (simp_all add: mti_Next_def)
    then have Next: "mti_Next F elems mti =
        (case mti_scan F ?f ?ts ?p ((k, v) # suf) of
           None \<Rightarrow> (False, mti\<lparr>mti_cur := None, mti_end := True, mti_next := None\<rparr>)
         | Some (key, nxt) \<Rightarrow> (True, mti\<lparr>mti_cur := Some key, mti_next := nxt\<rparr>))"
      by (simp only: mti_advance_def split Let_def prod.case)
    show ?thesis
    proof (cases "mti_scan F ?f ?ts ?p ((k, v) # suf)")
      case None
      with mti_scan_visible [of F ?f ?ts ?p "(k, v) # suf"] left Next show ?thesis
        by (simp add: mti_inv_def mti_left_def)
    next
      case (Some r)
      obtain key nxt where r: "r = (key, nxt)" by fastforce
      with Some mti_scan_visible [of F ?f ?ts ?p "(k, v) # suf"] obtain pre' v' suf' where
        at: "(k, v) # suf = pre' @ (key, v') # suf'"
        and nxt: "nxt = (case suf' of [] \<Rightarrow> None | x # _ \<Rightarrow> Some (fst x))"
        and vis: "mt_visible F ?f ?ts ?p ((k, v) # suf) = key # mt_visible F ?f ?ts (Some key) suf'"
        by auto
      let ?m = "mti\<lparr>mti_cur := Some key, mti_next := nxt\<rparr>"
      have all: "elems = (pre @ pre') @ (key, v') # suf'" using elems at by simp
      have "mti_left F elems ?m = mt_visible F ?f ?ts (Some key) suf'"
      proof (cases suf')
        case Nil
        with nxt False show ?thesis by (simp add: mti_left_def mt_visible.simps(1))
      next
        case (Cons x suf'')
        with split_at_next [of "pre @ pre'" key v' x suf''] distinct have
          "split_at None (fst x) elems = (Some key, suf')" by (simp add: all)
        with Cons nxt False show ?thesis by (simp add: mti_left_def)
      qed
      moreover have "mti_inv elems ?m"
        using nxt all by (cases suf') (auto simp: mti_inv_def)
      ultimately show ?thesis using Next Some r left vis False by simp
    qed
  qed
qed

interpretation mti: iterator "\<lambda>mti. Some (mti_Next F elems mti)" mti_Value mti_Valid
  "\<lambda>mti. distinct (map fst elems) \<and> mti_inv elems mti" "mti_left F elems"
proof
  fix s k ks
  assume inv: "distinct (map fst elems) \<and> mti_inv elems s" and left: "mti_left F elems s = k # ks"
  show "\<exists>s'. Some (mti_Next F elems s) = Some (True, s') \<and>
      (distinct (map fst elems) \<and> mti_inv elems s') \<and> mti_left F elems s' = ks \<and>
      mti_Value s' = Some k \<and> mti_Valid s'"
    using mti_Next_left [of elems s F] inv left by (auto simp: mti_Value_def mti_Valid_def)
next
  fix s
  assume inv: "distinct (map fst elems) \<and> mti_inv elems s" and left: "mti_left F elems s = []"
  show "\<exists>s'. Some (mti_Next F elems s) = Some (False, s') \<and>
      (distinct (map fst elems) \<and> mti_inv elems s') \<and> mti_left F elems s' = [] \<and> \<not> mti_Valid s'"
    using mti_Next_left [of elems s F] inv left by (auto simp: mti_Valid_def)
qed

lemma mti_start: "mti_inv elems (NewMemTableIterator f ts)"
  "mti_left F elems (NewMemTableIterator f ts) = mt_visible F f ts None elems"
  by (simp_all add: mti_inv_def NewMemTableIterator_def mti_left_def)

subsection \<open>Iterating over the postings of an index\<close>

text \<open>
  The fields of the iterator besides the index and the posting. \<open>ii_it\<close> is what the bitmap
  iterator has still to yield. The keys of the index are an argument of the operations.
\<close>

record IndexIterator =
  ii_it :: "u32 list"
  ii_index :: u32
  ii_nextIdx :: u32
  ii_hasNext :: bool
  ii_lastEmittedID :: string
  ii_hasEmitted :: bool
  ii_end :: bool
  ii_ts :: u64

text \<open>\<open>ii.ri.keys[i]\<close>, a panic out of range.\<close>

definition key_at :: "EventKey list \<Rightarrow> u32 \<Rightarrow> EventKey option" where
  "key_at ks i = (if unat i < length ks then Some (ks ! unat i) else None)"

fun ii_scan :: "EventKey list \<Rightarrow> u64 \<Rightarrow> bool \<Rightarrow> string \<Rightarrow> u32 list \<Rightarrow> (u32 list \<times> u32 option) option" where
  "ii_scan ks ts hasEmitted lst [] = Some ([], None)"
| "ii_scan ks ts hasEmitted lst (idx # it) =
     (case key_at ks idx of None \<Rightarrow> None
      | Some key \<Rightarrow>
          if key_Timestamp key > ts then ii_scan ks ts hasEmitted lst it
          else if hasEmitted \<and> lst = key_ID key \<and> key_Timestamp key \<le> ts
          then ii_scan ks ts hasEmitted lst it
          else Some (it, Some idx))"

definition ii_advance :: "EventKey list \<Rightarrow> IndexIterator \<Rightarrow> IndexIterator option" where
  "ii_advance ks ii =
     (let ii = ii\<lparr>ii_hasNext := False\<rparr>
      in case ii_scan ks (ii_ts ii) (ii_hasEmitted ii) (ii_lastEmittedID ii) (ii_it ii) of
           None \<Rightarrow> None
         | Some (it, None) \<Rightarrow> Some (ii\<lparr>ii_it := it\<rparr>)
         | Some (it, Some idx) \<Rightarrow> Some (ii\<lparr>ii_it := it, ii_nextIdx := idx, ii_hasNext := True\<rparr>))"

definition NewIndexIterator :: "'b roaring \<Rightarrow> EventKey list \<Rightarrow> 'b \<Rightarrow> u64 \<Rightarrow> IndexIterator option" where
  "NewIndexIterator R ks posting ts =
     ii_advance ks \<lparr>ii_it = bm_to_list R posting, ii_index = 0, ii_nextIdx = 0, ii_hasNext = False,
       ii_lastEmittedID = [], ii_hasEmitted = False, ii_end = False, ii_ts = ts\<rparr>"

definition ii_Valid :: "IndexIterator \<Rightarrow> bool" where
  "ii_Valid ii \<longleftrightarrow> \<not> ii_end ii"

definition ii_Next :: "EventKey list \<Rightarrow> IndexIterator \<Rightarrow> (bool \<times> IndexIterator) option" where
  "ii_Next ks ii =
     (if ii_end ii then Some (False, ii)
      else if \<not> ii_hasNext ii then Some (False, ii\<lparr>ii_end := True\<rparr>)
      else
        let ii = ii\<lparr>ii_index := ii_nextIdx ii\<rparr>
        in case key_at ks (ii_index ii) of
             None \<Rightarrow> None
           | Some key \<Rightarrow>
             map_option (Pair True)
               (ii_advance ks (ii\<lparr>ii_lastEmittedID := key_ID key, ii_hasEmitted := True\<rparr>)))"

definition ii_Value :: "EventKey list \<Rightarrow> IndexIterator \<Rightarrow> EventKey option" where
  "ii_Value ks ii = key_at ks (ii_index ii)"

text \<open>\<open>sort.Search\<close>: bisection for the least index in \<open>[i, j)\<close> at which \<open>f\<close> holds, or \<open>j\<close>.\<close>

function sort_search :: "(nat \<Rightarrow> bool) \<Rightarrow> nat \<Rightarrow> nat \<Rightarrow> nat" where
  "sort_search f i j =
     (if i < j then
        (let h = (i + j) div 2 in if \<not> f h then sort_search f (h + 1) j else sort_search f i h)
      else i)"
  by auto
termination by (relation "measure (\<lambda>(f, i, j). j - i)") auto

declare sort_search.simps [simp del]

definition ii_Seek ::
  "'b roaring \<Rightarrow> EventKey list \<Rightarrow> 'b \<Rightarrow> IndexIterator \<Rightarrow> EventKey \<Rightarrow> IndexIterator option" where
  "ii_Seek R ks posting ii key =
     (let ii = ii\<lparr>ii_end := False, ii_hasNext := False, ii_hasEmitted := False\<rparr>;
          targetIdx = sort_search (\<lambda>i. compareEventKeyTimestamp (ks ! i) key \<ge> 0) 0 (length ks)
      in if targetIdx \<ge> length ks then Some (ii\<lparr>ii_end := True\<rparr>)
         else ii_advance ks (ii\<lparr>ii_it :=
           dropWhile (\<lambda>i. i < of_nat targetIdx) (bm_to_list R posting)\<rparr>))"

text \<open>What the iterator yields of a list of row numbers: the rows that are not newer than the
  timestamp and do not repeat the id of the row yielded before.\<close>

fun ix_visible :: "EventKey list \<Rightarrow> u64 \<Rightarrow> string option \<Rightarrow> u32 list \<Rightarrow> EventKey list" where
  "ix_visible ks ts lst [] = []"
| "ix_visible ks ts lst (idx # it) =
     (let key = ks ! unat idx
      in if key_Timestamp key \<le> ts \<and> lst \<noteq> Some (key_ID key)
         then key # ix_visible ks ts (Some (key_ID key)) it
         else ix_visible ks ts lst it)"

definition ii_left :: "EventKey list \<Rightarrow> IndexIterator \<Rightarrow> EventKey list" where
  "ii_left ks ii =
     (if ii_end ii \<or> \<not> ii_hasNext ii then []
      else ks ! unat (ii_nextIdx ii) #
        ix_visible ks (ii_ts ii) (Some (key_ID (ks ! unat (ii_nextIdx ii)))) (ii_it ii))"

definition ii_inv :: "EventKey list \<Rightarrow> IndexIterator \<Rightarrow> bool" where
  "ii_inv ks ii \<longleftrightarrow> (\<forall>i \<in> set (ii_it ii). unat i < length ks) \<and>
     (ii_hasNext ii \<longrightarrow> unat (ii_nextIdx ii) < length ks)"

lemma ii_scan_visible:
  assumes "\<forall>i \<in> set it. unat i < length ks"
  shows "\<exists>it' r. ii_scan ks ts emitted lst it = Some (it', r) \<and> set it' \<subseteq> set it \<and>
    (case r of None \<Rightarrow> ix_visible ks ts (if emitted then Some lst else None) it = []
     | Some idx \<Rightarrow> idx \<in> set it \<and>
         ix_visible ks ts (if emitted then Some lst else None) it =
           ks ! unat idx # ix_visible ks ts (Some (key_ID (ks ! unat idx))) it')"
  using assms
proof (induction it)
  case (Cons idx it)
  let ?key = "ks ! unat idx"
  have at: "key_at ks idx = Some ?key" using Cons.prems by (simp add: key_at_def)
  show ?case
  proof (cases "key_Timestamp ?key > ts \<or> (emitted \<and> lst = key_ID ?key)")
    case True
    then have eqs: "ii_scan ks ts emitted lst (idx # it) = ii_scan ks ts emitted lst it"
      "ix_visible ks ts (if emitted then Some lst else None) (idx # it) =
       ix_visible ks ts (if emitted then Some lst else None) it"
      using at by (auto simp: Let_def)
    from Cons obtain it' r where r: "ii_scan ks ts emitted lst it = Some (it', r)"
      "set it' \<subseteq> set it"
      "case r of None \<Rightarrow> ix_visible ks ts (if emitted then Some lst else None) it = []
       | Some i \<Rightarrow> i \<in> set it \<and> ix_visible ks ts (if emitted then Some lst else None) it =
           ks ! unat i # ix_visible ks ts (Some (key_ID (ks ! unat i))) it'"
      by (auto simp del: ii_scan.simps ix_visible.simps)
    note ii_scan.simps [simp del] and ix_visible.simps [simp del]
    show ?thesis
    proof (cases r)
      case None
      with r eqs show ?thesis by auto
    next
      case (Some i)
      with r eqs show ?thesis by auto
    qed
  next
    case False
    then have "ii_scan ks ts emitted lst (idx # it) = Some (it, Some idx)"
      "ix_visible ks ts (if emitted then Some lst else None) (idx # it) =
       ?key # ix_visible ks ts (Some (key_ID ?key)) it"
      using at by (auto simp: Let_def)
    then show ?thesis by auto
  qed
qed simp

lemma ii_advance_left:
  assumes "\<forall>i \<in> set (ii_it ii). unat i < length ks" and "\<not> ii_end ii"
  shows "\<exists>ii'. ii_advance ks ii = Some ii' \<and> ii_inv ks ii' \<and> ii_index ii' = ii_index ii \<and>
    \<not> ii_end ii' \<and> ii_left ks ii' =
      ix_visible ks (ii_ts ii) (if ii_hasEmitted ii then Some (ii_lastEmittedID ii) else None) (ii_it ii)"
proof -
  from ii_scan_visible [OF assms(1), of "ii_ts ii" "ii_hasEmitted ii" "ii_lastEmittedID ii"]
  obtain it' r where
    "ii_scan ks (ii_ts ii) (ii_hasEmitted ii) (ii_lastEmittedID ii) (ii_it ii) = Some (it', r)"
    "set it' \<subseteq> set (ii_it ii)"
    "case r of None \<Rightarrow> ix_visible ks (ii_ts ii)
        (if ii_hasEmitted ii then Some (ii_lastEmittedID ii) else None) (ii_it ii) = []
     | Some idx \<Rightarrow> idx \<in> set (ii_it ii) \<and>
         ix_visible ks (ii_ts ii) (if ii_hasEmitted ii then Some (ii_lastEmittedID ii) else None)
           (ii_it ii) = ks ! unat idx # ix_visible ks (ii_ts ii) (Some (key_ID (ks ! unat idx))) it'"
    by blast
  with assms show ?thesis
    by (cases r) (auto simp: ii_advance_def ii_inv_def ii_left_def)
qed

interpretation ii: iterator "ii_Next ks" "ii_Value ks" ii_Valid "ii_inv ks" "ii_left ks"
proof
  fix s k rest
  assume inv: "ii_inv ks s" and left: "ii_left ks s = k # rest"
  then have more: "\<not> ii_end s" "ii_hasNext s" and k: "k = ks ! unat (ii_nextIdx s)"
    and rest: "rest = ix_visible ks (ii_ts s) (Some (key_ID k)) (ii_it s)"
    by (auto simp: ii_left_def split: if_splits)
  let ?s = "s\<lparr>ii_index := ii_nextIdx s, ii_lastEmittedID := key_ID k, ii_hasEmitted := True\<rparr>"
  from inv more have at: "key_at ks (ii_nextIdx s) = Some k"
    by (simp add: ii_inv_def key_at_def k)
  have "ii_Next ks s = map_option (Pair True) (ii_advance ks ?s)"
    using more at by (simp add: ii_Next_def)
  moreover from ii_advance_left [of ?s ks] inv more rest obtain s' where
    "ii_advance ks ?s = Some s'" "ii_inv ks s'" "ii_index s' = ii_nextIdx s" "\<not> ii_end s'"
    "ii_left ks s' = rest" by (auto simp: ii_inv_def)
  ultimately show "\<exists>s'. ii_Next ks s = Some (True, s') \<and> ii_inv ks s' \<and> ii_left ks s' = rest \<and>
      ii_Value ks s' = Some k \<and> ii_Valid s'"
    using at by (auto simp: ii_Value_def ii_Valid_def)
next
  fix s
  assume "ii_inv ks s" and "ii_left ks s = []"
  then show "\<exists>s'. ii_Next ks s = Some (False, s') \<and> ii_inv ks s' \<and> ii_left ks s' = [] \<and> \<not> ii_Valid s'"
    by (auto simp: ii_left_def ii_Next_def ii_inv_def ii_Valid_def split: if_splits)
qed

subsection \<open>Seeking in an index\<close>

lemma sort_search_spec:
  assumes "i \<le> j" and "\<And>m n. m \<le> n \<Longrightarrow> n < j \<Longrightarrow> f m \<Longrightarrow> f n"
  shows "i \<le> sort_search f i j \<and> sort_search f i j \<le> j \<and>
    (\<forall>m. i \<le> m \<longrightarrow> m < sort_search f i j \<longrightarrow> \<not> f m) \<and>
    (sort_search f i j < j \<longrightarrow> f (sort_search f i j))"
  using assms
proof (induction f i j rule: sort_search.induct)
  case (1 f i j)
  show ?case
  proof (cases "i < j")
    case False
    then have "sort_search f i j = i" by (simp add: sort_search.simps [of f i j])
    with False "1.prems"(1) show ?thesis by simp
  next
    case True
    let ?h = "(i + j) div 2"
    have h: "i \<le> ?h" "?h < j" using True by auto
    show ?thesis
    proof (cases "f ?h")
      case True
      then have step: "sort_search f i j = sort_search f i ?h"
        using \<open>i < j\<close> by (simp add: sort_search.simps [of f i j] Let_def)
      have mono: "f n" if "m \<le> n" "n < ?h" "f m" for m n
        using "1.prems"(2) [of m n] that h(2) by linarith
      have IH: "i \<le> sort_search f i ?h \<and> sort_search f i ?h \<le> ?h \<and>
         (\<forall>m. i \<le> m \<longrightarrow> m < sort_search f i ?h \<longrightarrow> \<not> f m) \<and>
         (sort_search f i ?h < ?h \<longrightarrow> f (sort_search f i ?h))"
        by (rule "1.IH"(2) [OF \<open>i < j\<close> refl]) (use True h(1) mono in auto)
      then have "f (sort_search f i ?h)" "sort_search f i ?h \<le> j" "i \<le> sort_search f i ?h"
        "\<forall>m. i \<le> m \<longrightarrow> m < sort_search f i ?h \<longrightarrow> \<not> f m"
        using IH True h by (auto simp: order_le_less)
      then show ?thesis unfolding step by blast
    next
      case False
      then have step: "sort_search f i j = sort_search f (?h + 1) j"
        using \<open>i < j\<close> by (simp add: sort_search.simps [of f i j] Let_def)
      have below: "\<not> f m" if "m \<le> ?h" for m
        using False "1.prems"(2) [OF that h(2)] by blast
      let ?s = "sort_search f (?h + 1) j"
      have "?h + 1 \<le> j" using h by simp
      then have "?h + 1 \<le> ?s \<and> ?s \<le> j \<and> (\<forall>m. ?h + 1 \<le> m \<longrightarrow> m < ?s \<longrightarrow> \<not> f m) \<and>
          (?s < j \<longrightarrow> f ?s)"
        using "1.IH"(1) [OF \<open>i < j\<close> refl False] "1.prems"(2) by blast
      then have IH: "?h + 1 \<le> ?s" "?s \<le> j" "\<And>m. ?h + 1 \<le> m \<Longrightarrow> m < ?s \<Longrightarrow> \<not> f m" "?s < j \<Longrightarrow> f ?s"
        by blast+
      have "\<not> f m" if "m < ?s" for m
        using below [of m] IH(3) [of m] that by linarith
      with IH(1,2,4) h show ?thesis unfolding step by auto
    qed
  qed
qed

lemma dropWhile_sorted:
  "sorted_wrt (<) xs \<Longrightarrow> dropWhile (\<lambda>i. i < t) xs = filter (\<lambda>i. t \<le> i) xs" for t :: u32
proof (induction xs)
  case (Cons x xs)
  show ?case
  proof (cases "x < t")
    case False
    then have "\<forall>y \<in> set (x # xs). t \<le> y" using Cons.prems by (auto simp: not_less)
    with False show ?thesis by (simp add: filter_id_conv)
  qed (use Cons in simp)
qed simp

context roaring_bitmap
begin

text \<open>In an index whose keys are in order, \<open>Seek\<close> leaves exactly the rows of the posting that are
  not before the key.\<close>

lemma ii_Seek_left:
  assumes sorted: "sorted_wrt (\<lambda>a b. compareEventKeyTimestamp a b \<le> 0) ks"
    and len: "length ks < 2 ^ 32" and post: "\<forall>i \<in> bm_set R posting. unat i < length ks"
    and inv: "ii_inv ks ii"
  shows "\<exists>ii'. ii_Seek R ks posting ii key = Some ii' \<and>
    ii_left ks ii' = ix_visible ks (ii_ts ii) None
      (filter (\<lambda>i. compareEventKeyTimestamp (ks ! unat i) key \<ge> 0) (bm_to_list R posting)) \<and>
    ii_inv ks ii'"
proof -
  let ?g = "\<lambda>i. compareEventKeyTimestamp (ks ! i) key \<ge> 0"
  let ?t = "sort_search ?g 0 (length ks)"
  have mono: "?g n" if "m \<le> n" "n < length ks" "?g m" for m n
  proof -
    show "?g n"
    proof (cases "m = n")
      case True
      with that show ?thesis by simp
    next
      case False
      with that have "compareEventKeyTimestamp (ks ! m) (ks ! n) \<le> 0"
        using sorted_wrt_nth_less [OF sorted, of m n] by simp
      moreover have "compareEventKeyTimestamp key (ks ! m) \<le> 0"
        using that version_order.antisym [of "ks ! m" key] version_order.antisym [of key "ks ! m"]
        by (auto simp: not_less [symmetric])
      ultimately have "compareEventKeyTimestamp key (ks ! n) \<le> 0"
        using version_order.trans_le by blast
      then show ?thesis
        using version_order.antisym [of key "ks ! n"] by (simp add: not_less [symmetric])
    qed
  qed
  have "0 \<le> ?t \<and> ?t \<le> length ks \<and> (\<forall>m. 0 \<le> m \<longrightarrow> m < ?t \<longrightarrow> \<not> ?g m) \<and>
      (?t < length ks \<longrightarrow> ?g ?t)"
    by (rule sort_search_spec [OF le0 mono])
  then have t: "?t \<le> length ks" "\<And>m. m < ?t \<Longrightarrow> \<not> ?g m" "?t < length ks \<Longrightarrow> ?g ?t"
    by blast+
  have cut: "of_nat ?t \<le> i \<longleftrightarrow> ?g (unat i)" if "unat i < length ks" for i :: u32
  proof -
    have "unat (of_nat ?t :: u32) = ?t"
      using t(1) len by (simp add: unat_of_nat take_bit_nat_eq_self)
    then have "of_nat ?t \<le> i \<longleftrightarrow> ?t \<le> unat i" by (simp add: word_le_nat_alt)
    also have "\<dots> \<longleftrightarrow> ?g (unat i)"
      using t(2) [of "unat i"] t(3) mono [of ?t "unat i"] that by (meson le_less_trans not_le)
    finally show ?thesis .
  qed
  let ?ids = "filter (\<lambda>i. ?g (unat i)) (bm_to_list R posting)"
  have ids: "dropWhile (\<lambda>i. i < of_nat ?t) (bm_to_list R posting) = ?ids"
    unfolding dropWhile_sorted [OF to_list_sorted]
    by (rule filter_cong) (use cut post in auto)
  let ?ii = "ii\<lparr>ii_end := False, ii_hasNext := False, ii_hasEmitted := False\<rparr>"
  show ?thesis
  proof (cases "?t \<ge> length ks")
    case True
    have "?ids = []"
      using t(2) True post by (fastforce simp: filter_empty_conv)
    moreover have "ii_Seek R ks posting ii key = Some (?ii\<lparr>ii_end := True\<rparr>)"
      using True by (simp add: ii_Seek_def Let_def)
    ultimately show ?thesis using inv by (simp add: ii_left_def ii_inv_def)
  next
    case False
    then have "ii_Seek R ks posting ii key = ii_advance ks (?ii\<lparr>ii_it := ?ids\<rparr>)"
      by (simp add: ii_Seek_def Let_def ids)
    moreover have "\<forall>i \<in> set (ii_it (?ii\<lparr>ii_it := ?ids\<rparr>)). unat i < length ks"
      using post by auto
    from ii_advance_left [OF this] obtain ii' where
      "ii_advance ks (?ii\<lparr>ii_it := ?ids\<rparr>) = Some ii'" "ii_inv ks ii'"
      "ii_left ks ii' = ix_visible ks (ii_ts ii) None ?ids" by auto
    ultimately show ?thesis by auto
  qed
qed

end

end
