(* ===== verification/Merge_Iterator.thy ===== *)
theory Merge_Iterator
  imports Iterators "HOL-Library.Sublist"
begin

text \<open>
  The merge of several iterators (\<open>src/iterator_merge.go\<close>). The operations take the methods of the
  merged iterators as arguments; over iterators that satisfy the interface \<open>iterator\<close>, the merge
  computes the list function \<open>merge_out\<close> of what they have left, and it satisfies the interface
  itself.

  On inputs in descending order the output is in descending order, drawn from the inputs, and
  for every key of an input the first output of that key is the newest version any input has.
  A second output of the same key can follow when a later input has the newer version; it cannot
  when earlier inputs have the newer versions.
\<close>

subsection \<open>The code\<close>

record 's MergeIterator =
  mi_init :: bool
  mi_iterators :: "'s list"
  mi_currentKey :: EventKey
  mi_end :: bool

definition zero_key :: EventKey where
  "zero_key = \<lparr>key_ResourceTypeCode = [], key_ResourceExternalID = [],
     key_StartTime = \<lparr>t_ext = 0, t_nsec = 0, t_loc = UTC\<rparr>, key_ID = [], key_Timestamp = 0,
     key_IsDeleted = False\<rparr>"

definition NewMergeIterator :: "'s list \<Rightarrow> 's MergeIterator" where
  "NewMergeIterator iterators =
     \<lparr>mi_init = True, mi_iterators = iterators, mi_currentKey = zero_key, mi_end = False\<rparr>"

definition mi_Valid :: "'s MergeIterator \<Rightarrow> bool" where
  "mi_Valid mi \<longleftrightarrow> \<not> mi_end mi"

definition mi_Value :: "'s MergeIterator \<Rightarrow> EventKey option" where
  "mi_Value mi = Some (mi_currentKey mi)"

text \<open>\<open>for _, it := range mi.iterators { it.Next() }\<close>\<close>

fun next_all :: "('s \<Rightarrow> (bool \<times> 's) option) \<Rightarrow> 's list \<Rightarrow> 's list option" where
  "next_all Next [] = Some []"
| "next_all Next (it # its) =
     (case Next it of None \<Rightarrow> None | Some (_, it) \<Rightarrow> map_option ((#) it) (next_all Next its))"

text \<open>The loop that looks for the key to yield; \<open>min\<close> is \<open>minValue\<close> with \<open>minIndex\<close>.\<close>

fun mi_scan ::
  "('s \<Rightarrow> (bool \<times> 's) option) \<Rightarrow> ('s \<Rightarrow> EventKey option) \<Rightarrow> ('s \<Rightarrow> bool) \<Rightarrow> nat \<Rightarrow> 's list \<Rightarrow>
   (EventKey \<times> nat) option \<Rightarrow> ('s list \<times> (EventKey \<times> nat) option) option" where
  "mi_scan Next Val Valid i [] m = Some ([], m)"
| "mi_scan Next Val Valid i (it # its) m =
     (if \<not> Valid it then map_option (apfst ((#) it)) (mi_scan Next Val Valid (Suc i) its m)
      else case Val it of
        None \<Rightarrow> None
      | Some key \<Rightarrow>
        (case m of
           None \<Rightarrow> map_option (apfst ((#) it)) (mi_scan Next Val Valid (Suc i) its (Some (key, i)))
         | Some (minValue, minIndex) \<Rightarrow>
           (let cmp = compareEventKey key minValue
            in if cmp = 1 then
                 map_option (apfst ((#) it)) (mi_scan Next Val Valid (Suc i) its (Some (key, i)))
               else if cmp = -1 then
                 map_option (apfst ((#) it)) (mi_scan Next Val Valid (Suc i) its m)
               else if key_Timestamp key > key_Timestamp minValue then
                 map_option (apfst ((#) it)) (mi_scan Next Val Valid (Suc i) its (Some (key, i)))
               else
                 (case Next it of
                    None \<Rightarrow> None
                  | Some (_, it) \<Rightarrow>
                    map_option (apfst ((#) it)) (mi_scan Next Val Valid (Suc i) its m)))))"

definition mi_Next ::
  "('s \<Rightarrow> (bool \<times> 's) option) \<Rightarrow> ('s \<Rightarrow> EventKey option) \<Rightarrow> ('s \<Rightarrow> bool) \<Rightarrow> 's MergeIterator \<Rightarrow>
   (bool \<times> 's MergeIterator) option" where
  "mi_Next Next Val Valid mi =
     (if mi_end mi then Some (False, mi)
      else
        case (if mi_init mi then next_all Next (mi_iterators mi) else Some (mi_iterators mi)) of
          None \<Rightarrow> None
        | Some its \<Rightarrow>
          (let mi = mi\<lparr>mi_init := False\<rparr>
           in case mi_scan Next Val Valid 0 its None of
                None \<Rightarrow> None
              | Some (its, None) \<Rightarrow>
                  Some (False, mi\<lparr>mi_iterators := its, mi_currentKey := zero_key, mi_end := True\<rparr>)
              | Some (its, Some (key, j)) \<Rightarrow>
                  (case Next (its ! j) of
                     None \<Rightarrow> None
                   | Some (_, it) \<Rightarrow>
                     Some (True, mi\<lparr>mi_iterators := its[j := it], mi_currentKey := key\<rparr>))))"

definition mi_Seek :: "('s \<Rightarrow> EventKey \<Rightarrow> 's option) \<Rightarrow> 's MergeIterator \<Rightarrow> EventKey \<Rightarrow>
    's MergeIterator option" where
  "mi_Seek Seek mi key =
     map_option (\<lambda>its. mi\<lparr>mi_iterators := its\<rparr>) (those (map (\<lambda>it. Seek it key) (mi_iterators mi)))"

subsection \<open>The merge of lists\<close>

text \<open>
  \<open>best k h\<close>: when a scan has \<open>k\<close>, it does not take \<open>h\<close>; \<open>newer h y\<close>: \<open>y\<close> is a version of the
  key of \<open>h\<close>, and not an older one.
\<close>

definition newer :: "EventKey \<Rightarrow> EventKey \<Rightarrow> bool" where
  "newer h y \<longleftrightarrow> key_view y = key_view h \<and> key_Timestamp h \<le> key_Timestamp y"

definition best :: "EventKey \<Rightarrow> EventKey \<Rightarrow> bool" where
  "best k h \<longleftrightarrow> key_less (key_view h) (key_view k) \<or> newer h k"

lemma newer_refl [simp]: "newer h h"
  by (simp add: newer_def)

lemma newer_trans: "newer a b \<Longrightarrow> newer b c \<Longrightarrow> newer a c"
  by (auto simp: newer_def)

lemma best_refl [simp]: "best k k"
  by (simp add: best_def)

lemma best_trans: "best k h \<Longrightarrow> best h g \<Longrightarrow> best k g"
  by (auto simp: best_def newer_def intro: key_less_trans)

lemma best_total: "\<not> best k h \<Longrightarrow> best h k"
  using key_less_total [of "key_view k" "key_view h"] by (auto simp: best_def newer_def)

lemma best_not_less: "best k h \<Longrightarrow> \<not> key_less (key_view k) (key_view h)"
  by (auto simp: best_def newer_def dest: key_less_asym)

text \<open>
  The scan on lists of pending keys: an iterator that is valid has its current key pending. The
  minimum so far comes with its index.
\<close>

fun ab_scan :: "nat \<Rightarrow> EventKey list list \<Rightarrow> (EventKey \<times> nat) option \<Rightarrow>
    EventKey list list \<times> (EventKey \<times> nat) option" where
  "ab_scan i [] m = ([], m)"
| "ab_scan i ([] # ls) m = apfst ((#) []) (ab_scan (Suc i) ls m)"
| "ab_scan i ((k # ks) # ls) m =
     (if case m of None \<Rightarrow> True | Some (mk, _) \<Rightarrow> \<not> best mk k
      then apfst ((#) (k # ks)) (ab_scan (Suc i) ls (Some (k, i)))
      else if newer k (fst (the m)) then apfst ((#) ks) (ab_scan (Suc i) ls m)
      else apfst ((#) (k # ks)) (ab_scan (Suc i) ls m))"

inductive scanned :: "nat \<Rightarrow> EventKey list list \<Rightarrow> (EventKey \<times> nat) option \<Rightarrow>
    EventKey list list \<Rightarrow> (EventKey \<times> nat) option \<Rightarrow> bool" where
  scan_end: "scanned i [] m [] m"
| scan_skip: "scanned (Suc i) ls m ls' r \<Longrightarrow> scanned i ([] # ls) m ([] # ls') r"
| scan_first: "scanned (Suc i) ls (Some (k, i)) ls' r \<Longrightarrow>
    scanned i ((k # ks) # ls) None ((k # ks) # ls') r"
| scan_take: "\<not> best mk k \<Longrightarrow> scanned (Suc i) ls (Some (k, i)) ls' r \<Longrightarrow>
    scanned i ((k # ks) # ls) (Some (mk, j)) ((k # ks) # ls') r"
| scan_drop: "newer k mk \<Longrightarrow> scanned (Suc i) ls (Some (mk, j)) ls' r \<Longrightarrow>
    scanned i ((k # ks) # ls) (Some (mk, j)) (ks # ls') r"
| scan_keep: "key_less (key_view k) (key_view mk) \<Longrightarrow> scanned (Suc i) ls (Some (mk, j)) ls' r \<Longrightarrow>
    scanned i ((k # ks) # ls) (Some (mk, j)) ((k # ks) # ls') r"

lemma ab_scan_scanned: "ab_scan i ls m = (ls', r) \<Longrightarrow> scanned i ls m ls' r"
proof (induction i ls m arbitrary: ls' r rule: ab_scan.induct)
  case (2 i ls m)
  then show ?case by (cases "ab_scan (Suc i) ls m") (auto intro: scanned.intros)
next
  case (3 i k ks ls m)
  show ?case
  proof (cases m)
    case None
    with 3 show ?thesis by (cases "ab_scan (Suc i) ls (Some (k, i))") (auto intro: scanned.intros)
  next
    case (Some q)
    then obtain mk j where m: "m = Some (mk, j)" by (cases q) auto
    with 3 show ?thesis
      by (cases "ab_scan (Suc i) ls (Some (k, i))"; cases "ab_scan (Suc i) ls m")
        (auto simp: best_def split: if_splits intro: scanned.intros)
  qed
qed (auto intro: scanned.intros)

text \<open>A scan drops at most the head of a list, and only with a newer version kept.\<close>

definition kept :: "(EventKey \<Rightarrow> bool) \<Rightarrow> EventKey list \<Rightarrow> EventKey list \<Rightarrow> bool" where
  "kept P l l' \<longleftrightarrow> l' = l \<or> (\<exists>d. l = d # l' \<and> P d)"

lemma scanned_kept:
  "scanned i ls m ls' r \<Longrightarrow>
   list_all2 (kept (\<lambda>d. (\<exists>q. m = Some q \<and> newer d (fst q)) \<or> (\<exists>l \<in> set ls'. l \<noteq> [] \<and> newer d (hd l)))) ls ls'"
proof (induction rule: scanned.induct)
  case (scan_take mk k i ls ls' r ks j)
  then show ?case by (auto simp: kept_def elim!: list_all2_mono)
qed (auto simp: kept_def elim!: list_all2_mono)

text \<open>The result is the best of the heads; it comes from the list of its index, which is unchanged.\<close>

lemma scanned_best:
  "scanned i ls m ls' r \<Longrightarrow>
   (case r of None \<Rightarrow> m = None \<and> (\<forall>l \<in> set ls. l = [])
    | Some (k, j) \<Rightarrow> (\<forall>q. m = Some q \<longrightarrow> best k (fst q)) \<and> (\<forall>l \<in> set ls. l \<noteq> [] \<longrightarrow> best k (hd l)) \<and>
        (m = Some (k, j) \<or> i \<le> j \<and> j - i < length ls \<and> (\<exists>ks. ls ! (j - i) = k # ks \<and> ls' ! (j - i) = k # ks)))"
proof (induction rule: scanned.induct)
  case (scan_take mk k i ls ls' r ks j)
  then show ?case
    by (auto simp: Suc_diff_Suc Suc_le_eq split: option.splits dest: best_total intro: best_trans)
next
  case (scan_drop k mk i ls j ls' r ks)
  then have "best mk k" by (simp add: best_def)
  with scan_drop show ?case
    by (auto simp: Suc_diff_Suc Suc_le_eq split: option.splits intro: best_trans)
next
  case (scan_keep k mk i ls j ls' r ks)
  then have "best mk k" by (simp add: best_def)
  with scan_keep show ?case
    by (auto simp: Suc_diff_Suc Suc_le_eq split: option.splits intro: best_trans)
qed (auto simp: Suc_diff_Suc Suc_le_eq split: option.splits)

text \<open>When earlier lists have the newer versions, the heads a scan leaves are of smaller keys.\<close>

definition heads_first :: "(EventKey \<times> nat) option \<Rightarrow> EventKey list list \<Rightarrow> bool" where
  "heads_first m ls \<longleftrightarrow>
     sorted_wrt (\<lambda>l l'. l \<noteq> [] \<and> l' \<noteq> [] \<and> key_view (hd l) = key_view (hd l') \<longrightarrow> newer (hd l') (hd l)) ls \<and>
     (\<forall>q. m = Some q \<longrightarrow>
        (\<forall>l \<in> set ls. l \<noteq> [] \<and> key_view (hd l) = key_view (fst q) \<longrightarrow> newer (hd l) (fst q)))"

lemma best_less: "key_less (key_view x) (key_view h) \<Longrightarrow> best k h \<Longrightarrow> key_less (key_view x) (key_view k)"
  by (auto simp: best_def newer_def intro: key_less_trans)

lemma not_best_less: "\<not> best h k \<Longrightarrow> (key_view k = key_view h \<longrightarrow> newer k h) \<Longrightarrow> key_less (key_view h) (key_view k)"
  using key_less_total [of "key_view k" "key_view h"] by (auto simp: best_def)

lemma scanned_less:
  "scanned i ls m ls' r \<Longrightarrow> heads_first m ls \<Longrightarrow> (\<forall>q. m = Some q \<longrightarrow> snd q < i) \<Longrightarrow> r = Some (k, j) \<Longrightarrow>
   (\<forall>p < length ls. i + p \<noteq> j \<and> ls' ! p = ls ! p \<and> ls ! p \<noteq> [] \<longrightarrow>
      key_less (key_view (hd (ls ! p))) (key_view k)) \<and>
   (\<forall>q. m = Some q \<and> snd q \<noteq> j \<longrightarrow> key_less (key_view (fst q)) (key_view k))"
proof (induction rule: scanned.induct)
  case (scan_first i ls key ls' r ks)
  then show ?case by (auto simp: heads_first_def All_less_Suc2)
next
  case (scan_take mk key i ls ls' r ks j')
  have "best k key" using scanned_best [OF scan_take.hyps(2)] scan_take.prems(3) by simp
  moreover have "key_less (key_view mk) (key_view key)"
    using scan_take.hyps(1) scan_take.prems(1) by (intro not_best_less) (auto simp: heads_first_def)
  ultimately have "key_less (key_view mk) (key_view k)" by (rule best_less [rotated])
  with scan_take show ?case by (auto simp: heads_first_def All_less_Suc2)
next
  case (scan_drop key mk i ls j' ls' r ks)
  then show ?case by (auto simp: heads_first_def All_less_Suc2)
next
  case (scan_keep key mk i ls j' ls' r ks)
  have "best k mk" using scanned_best [OF scan_keep.hyps(2)] scan_keep.prems(3) by simp
  with scan_keep.hyps(1) have "key_less (key_view key) (key_view k)" by (rule best_less)
  with scan_keep show ?case by (auto simp: heads_first_def All_less_Suc2)
next
  case (scan_skip i ls m ls' r)
  have "\<forall>q. m = Some q \<longrightarrow> snd q < Suc i" using scan_skip.prems(2) by (blast intro: less_SucI)
  moreover have "heads_first m ls" using scan_skip.prems(1) by (simp add: heads_first_def)
  ultimately show ?case using scan_skip.IH scan_skip.prems(3) by (simp add: All_less_Suc2)
qed simp

subsection \<open>One step, and the whole merge\<close>

definition merge_step :: "EventKey list list \<Rightarrow> (EventKey \<times> EventKey list list) option" where
  "merge_step ls =
     (case ab_scan 0 ls None of
        (_, None) \<Rightarrow> None
      | (ls', Some (k, j)) \<Rightarrow> Some (k, ls'[j := tl (ls' ! j)]))"

lemma merge_step_None: "merge_step ls = None \<Longrightarrow> \<forall>l \<in> set ls. l = []"
  using scanned_best [OF ab_scan_scanned, of 0 ls None]
  by (cases "ab_scan 0 ls None") (auto simp: merge_step_def split: option.splits)

lemma merge_stepE:
  assumes "merge_step ls = Some (k, ls2)"
  obtains ls' j ks where "scanned 0 ls None ls' (Some (k, j))" and "j < length ls"
    and "ls ! j = k # ks" and "ls' ! j = k # ks" and "ls2 = ls'[j := ks]" and "length ls' = length ls"
    and "list_all2 (kept (\<lambda>d. \<exists>l \<in> set ls'. l \<noteq> [] \<and> newer d (hd l))) ls ls'"
    and "\<forall>l \<in> set ls. l \<noteq> [] \<longrightarrow> best k (hd l)"
proof -
  from assms obtain ls' j where ab: "ab_scan 0 ls None = (ls', Some (k, j))" and l2: "ls2 = ls'[j := tl (ls' ! j)]"
    by (auto simp: merge_step_def split: prod.splits option.splits)
  have sc: "scanned 0 ls None ls' (Some (k, j))" by (rule ab_scan_scanned [OF ab])
  have all: "list_all2 (kept (\<lambda>d. \<exists>l \<in> set ls'. l \<noteq> [] \<and> newer d (hd l))) ls ls'"
    using scanned_kept [OF sc] by simp
  from scanned_best [OF sc] obtain ks where j: "j < length ls" and e: "ls ! j = k # ks" "ls' ! j = k # ks"
    and best: "\<forall>l \<in> set ls. l \<noteq> [] \<longrightarrow> best k (hd l)" by auto
  show ?thesis
    by (rule that [OF sc j e _ _ all best]) (use l2 e list_all2_lengthD [OF all] in simp_all)
qed

lemma merge_step_suffix: "merge_step ls = Some (k, ls2) \<Longrightarrow> list_all2 suffix ls2 ls"
proof (erule merge_stepE)
  fix ls' j ks
  assume a: "list_all2 (kept (\<lambda>d. \<exists>l \<in> set ls'. l \<noteq> [] \<and> newer d (hd l))) ls ls'" and j: "j < length ls"
    and e: "ls ! j = k # ks" "ls2 = ls'[j := ks]" and len: "length ls' = length ls"
  show "list_all2 suffix ls2 ls"
    unfolding list_all2_conv_all_nth
  proof (intro conjI allI impI)
    fix p assume p: "p < length ls2"
    then have "kept (\<lambda>d. \<exists>l \<in> set ls'. l \<noteq> [] \<and> newer d (hd l)) (ls ! p) (ls' ! p)"
      using a e len by (auto simp: list_all2_conv_all_nth)
    then have "suffix (ls' ! p) (ls ! p)" by (auto simp: kept_def suffix_def)
    with e j len p show "suffix (ls2 ! p) (ls ! p)" by (cases "p = j") (auto simp: suffix_def)
  qed (use e len in simp)
qed

lemma merge_step_length:
  assumes "merge_step ls = Some (k, ls2)"
  shows "sum_list (map length ls2) < sum_list (map length ls)"
proof -
  from assms obtain ls' j ks where j: "j < length ls" and e: "ls ! j = k # ks" "ls2 = ls'[j := ks]"
    and len: "length ls' = length ls"
    by (rule merge_stepE)
  have suf: "list_all2 suffix ls2 ls" by (rule merge_step_suffix [OF assms])
  have "sum_list (map length ls2) = (\<Sum>p < length ls. length (ls2 ! p))"
    using e len by (simp add: sum_list_sum_nth atLeast0LessThan)
  also have "\<dots> < (\<Sum>p < length ls. length (ls ! p))"
    using suf j e len
    by (intro sum_strict_mono_ex1) (auto simp: list_all2_conv_all_nth suffix_length_le intro!: bexI [of _ j])
  also have "\<dots> = sum_list (map length ls)" by (simp add: sum_list_sum_nth atLeast0LessThan)
  finally show ?thesis .
qed

function merge_out :: "EventKey list list \<Rightarrow> EventKey list" where
  "merge_out ls = (case merge_step ls of None \<Rightarrow> [] | Some (k, ls') \<Rightarrow> k # merge_out ls')"
  by auto
termination
  by (relation "measure (\<lambda>ls. sum_list (map length ls))") (auto dest: merge_step_length)

declare merge_out.simps [simp del]

lemma merge_out_unfold:
  "merge_step ls = None \<Longrightarrow> merge_out ls = []"
  "merge_step ls = Some (k, ls') \<Longrightarrow> merge_out ls = k # merge_out ls'"
  by (simp_all add: merge_out.simps)

text \<open>Induction along the steps: a property of the lists that a step keeps holds at every one.\<close>

lemma merge_out_induct [consumes 1, case_names keep stop step]:
  assumes "I ls" and "\<And>ls k ls'. I ls \<Longrightarrow> merge_step ls = Some (k, ls') \<Longrightarrow> I ls'"
    and "\<And>ls. I ls \<Longrightarrow> merge_step ls = None \<Longrightarrow> P ls []"
    and "\<And>ls k ls'. I ls \<Longrightarrow> merge_step ls = Some (k, ls') \<Longrightarrow> P ls' (merge_out ls') \<Longrightarrow>
        P ls (k # merge_out ls')"
  shows "P ls (merge_out ls)"
  using assms(1)
proof (induction ls rule: merge_out.induct)
  case (1 ls)
  then show ?case
    using assms(2-4) by (cases "merge_step ls") (auto simp: merge_out_unfold)
qed

definition pending_keys :: "EventKey list list \<Rightarrow> EventKey set" where
  "pending_keys ls = (\<Union>l \<in> set ls. set l)"

lemma suffix_all2: "list_all2 suffix ls2 ls \<Longrightarrow> l2 \<in> set ls2 \<Longrightarrow> \<exists>l \<in> set ls. suffix l2 l"
  by (induction rule: list_all2_induct) auto

lemma pending_keys_suffix: "list_all2 suffix ls2 ls \<Longrightarrow> pending_keys ls2 \<subseteq> pending_keys ls"
  unfolding pending_keys_def by (induction rule: list_all2_induct) (auto dest: set_mono_suffix)

lemma sorted_wrt_suffix: "suffix xs ys \<Longrightarrow> sorted_wrt P ys \<Longrightarrow> sorted_wrt P xs"
  by (auto simp: suffix_def sorted_wrt_append)

lemma sorted_all_suffix:
  "list_all2 suffix ls2 ls \<Longrightarrow> \<forall>l \<in> set ls. sorted_wrt P l \<Longrightarrow> \<forall>l \<in> set ls2. sorted_wrt P l"
  by (meson suffix_all2 sorted_wrt_suffix)

lemma merge_step_in: "merge_step ls = Some (k, ls2) \<Longrightarrow> k \<in> pending_keys ls"
  by (erule merge_stepE) (fastforce simp: pending_keys_def in_set_conv_nth)

lemma merge_step_best:
  assumes "merge_step ls = Some (k, ls2)" and "\<forall>l \<in> set ls. sorted_wrt best l" and "x \<in> pending_keys ls"
  shows "best k x"
proof -
  from assms(3) obtain l where l: "l \<in> set ls" and x: "x \<in> set l" by (auto simp: pending_keys_def)
  from assms(1) have "\<forall>l \<in> set ls. l \<noteq> [] \<longrightarrow> best k (hd l)" by (rule merge_stepE)
  with l x have "best k (hd l)" by auto
  moreover have "best (hd l) x" using assms(2) l x by (cases l) auto
  ultimately show ?thesis by (rule best_trans)
qed

lemma merge_step_newer:
  assumes "merge_step ls = Some (k, ls2)" and "x \<in> pending_keys ls"
  shows "newer x k \<or> (\<exists>y \<in> pending_keys ls2. newer x y)"
proof -
  from assms(1) obtain ls' j ks where j: "j < length ls" and e: "ls' ! j = k # ks" "ls2 = ls'[j := ks]"
    and len: "length ls' = length ls"
    and all: "list_all2 (kept (\<lambda>d. \<exists>l \<in> set ls'. l \<noteq> [] \<and> newer d (hd l))) ls ls'"
    by (rule merge_stepE)
  have split: "y = k \<or> y \<in> pending_keys ls2" if "y \<in> set (ls' ! p)" and "p < length ls'" for y p
  proof (cases "p = j")
    case False
    with that e have "ls2 ! p = ls' ! p" and "p < length ls2" by simp_all
    with that show ?thesis unfolding pending_keys_def by (metis UN_I nth_mem)
  next
    case True
    with that e have "y = k \<or> y \<in> set (ls2 ! j)" and "j < length ls2" by auto
    then show ?thesis unfolding pending_keys_def by (metis UN_I nth_mem)
  qed
  from assms(2) obtain p where p: "p < length ls" "x \<in> set (ls ! p)"
    unfolding pending_keys_def by (metis UN_E in_set_conv_nth)
  with all have "kept (\<lambda>d. \<exists>l \<in> set ls'. l \<noteq> [] \<and> newer d (hd l)) (ls ! p) (ls' ! p)"
    by (simp add: list_all2_conv_all_nth)
  with p consider "x \<in> set (ls' ! p)" | l where "l \<in> set ls'" "l \<noteq> []" "newer x (hd l)"
    by (auto simp: kept_def)
  then show ?thesis
  proof cases
    case 1
    with split [of x p] p len show ?thesis using newer_refl by metis
  next
    case 2
    then obtain q where "q < length ls'" and "l = ls' ! q" by (auto simp: in_set_conv_nth)
    with split [of "hd l" q] 2 show ?thesis by auto
  qed
qed

lemma set_merge_out: "set (merge_out ls) \<subseteq> pending_keys ls"
  by (rule merge_out_induct [where I = "\<lambda>_. True"])
    (auto dest: merge_step_in merge_step_suffix pending_keys_suffix)

lemma merge_out_sorted: "\<forall>l \<in> set ls. sorted_wrt best l \<Longrightarrow> sorted_wrt best (merge_out ls)"
proof (induction rule: merge_out_induct)
  case (keep ls k ls')
  then show ?case by (meson sorted_all_suffix merge_step_suffix)
next
  case (step ls k ls')
  have "pending_keys ls' \<subseteq> pending_keys ls"
    by (rule pending_keys_suffix [OF merge_step_suffix [OF step(2)]])
  with step merge_step_best [OF step(2,1)] set_merge_out [of ls'] show ?case by auto
qed simp

lemma merge_out_newest: "x \<in> pending_keys ls \<Longrightarrow> \<exists>y \<in> set (merge_out ls). newer x y"
proof (induction ls arbitrary: x rule: merge_out.induct)
  case (1 ls)
  show ?case
  proof (cases "merge_step ls")
    case None
    with "1.prems" show ?thesis using merge_step_None [OF None] by (auto simp: pending_keys_def)
  next
    case (Some q)
    then obtain k ls' where q: "merge_step ls = Some (k, ls')" by (cases q) auto
    from merge_step_newer [OF q "1.prems"] 1(1) [OF q refl] show ?thesis
      by (auto simp: merge_out_unfold(2) [OF q] intro: newer_trans)
  qed
qed

lemma length_merge_out: "length (merge_out ls) \<le> sum_list (map length ls)"
proof (induction ls rule: merge_out.induct)
  case (1 ls)
  show ?case
  proof (cases "merge_step ls")
    case (Some q)
    then obtain k ls' where q: "merge_step ls = Some (k, ls')" by (cases q) auto
    from 1 [OF q refl] merge_step_length [OF q] show ?thesis by (simp add: merge_out_unfold(2) [OF q])
  qed (simp add: merge_out_unfold)
qed

text \<open>When each list has one version of a key, and earlier lists the newer ones, the output has
  strictly decreasing keys.\<close>

definition earlier_newer :: "EventKey list \<Rightarrow> EventKey list \<Rightarrow> bool" where
  "earlier_newer l l' \<longleftrightarrow> (\<forall>x \<in> set l. \<forall>y \<in> set l'. key_view x = key_view y \<longrightarrow> newer y x)"

definition descending :: "EventKey list \<Rightarrow> bool" where
  "descending l \<longleftrightarrow> sorted_wrt (\<lambda>a b. key_less (key_view b) (key_view a)) l"

definition newest_first :: "EventKey list list \<Rightarrow> bool" where
  "newest_first ls \<longleftrightarrow> (\<forall>l \<in> set ls. descending l) \<and> sorted_wrt earlier_newer ls"

lemma descending_best: "descending l \<Longrightarrow> sorted_wrt best l"
  unfolding descending_def by (erule sorted_wrt_mono_rel [rotated]) (simp add: best_def)

lemma earlier_newer_suffix:
  "list_all2 suffix ls2 ls \<Longrightarrow> sorted_wrt earlier_newer ls \<Longrightarrow> sorted_wrt earlier_newer ls2"
proof (induction rule: list_all2_induct)
  case (Cons l2 ls2 l ls)
  have "earlier_newer l2 l'" if l': "l' \<in> set ls2" for l'
  proof -
    from suffix_all2 [OF Cons.hyps(2) l'] obtain l'' where "l'' \<in> set ls" "suffix l' l''" by blast
    then have "earlier_newer l l''" and "set l' \<subseteq> set l''" and "set l2 \<subseteq> set l"
      using Cons.prems Cons.hyps(1) by (auto simp: set_mono_suffix)
    then show ?thesis unfolding earlier_newer_def by blast
  qed
  with Cons show ?case by simp
qed simp

lemma newest_first_step:
  "newest_first ls \<Longrightarrow> merge_step ls = Some (k, ls2) \<Longrightarrow> newest_first ls2"
  unfolding newest_first_def descending_def
  by (meson sorted_all_suffix merge_step_suffix earlier_newer_suffix)

lemma newest_first_heads: "newest_first ls \<Longrightarrow> heads_first None ls"
  unfolding newest_first_def heads_first_def earlier_newer_def
  by (auto elim!: sorted_wrt_mono_rel [rotated])

lemma merge_step_less:
  assumes nf: "newest_first ls" and st: "merge_step ls = Some (k, ls2)" and x: "x \<in> pending_keys ls2"
  shows "key_less (key_view x) (key_view k)"
proof -
  from st obtain ls' j ks where sc: "scanned 0 ls None ls' (Some (k, j))" and j: "j < length ls"
    and e: "ls ! j = k # ks" "ls' ! j = k # ks" "ls2 = ls'[j := ks]" and len: "length ls' = length ls"
    and all: "list_all2 (kept (\<lambda>d. \<exists>l \<in> set ls'. l \<noteq> [] \<and> newer d (hd l))) ls ls'"
    and best: "\<forall>l \<in> set ls. l \<noteq> [] \<longrightarrow> best k (hd l)"
    by (rule merge_stepE)
  from x obtain p where p: "p < length ls" and xp: "x \<in> set (ls2 ! p)"
    unfolding pending_keys_def using e len by (metis UN_E in_set_conv_nth length_list_update)
  have desc: "descending (ls ! p)" if "p < length ls" for p
    using nf that by (simp add: newest_first_def)
  show ?thesis
  proof (cases "p = j")
    case True
    with desc [OF j] e xp j len show ?thesis by (simp add: descending_def)
  next
    case False
    with xp e have xp': "x \<in> set (ls' ! p)" by simp
    from all p have "kept (\<lambda>d. \<exists>l \<in> set ls'. l \<noteq> [] \<and> newer d (hd l)) (ls ! p) (ls' ! p)"
      by (simp add: list_all2_conv_all_nth)
    then consider "ls' ! p = ls ! p" | d where "ls ! p = d # ls' ! p" by (auto simp: kept_def)
    then show ?thesis
    proof cases
      case 1
      then obtain h hs where h: "ls ! p = h # hs" using xp' by (cases "ls ! p") auto
      with 1 False p scanned_less [OF sc newest_first_heads [OF nf]]
      have "key_less (key_view h) (key_view k)" by fastforce
      moreover have "best h x" using desc [OF p] xp' 1 h by (auto simp: descending_def best_def)
      ultimately show ?thesis by (auto simp: best_def newer_def intro: key_less_trans)
    next
      case 2
      then have "key_less (key_view x) (key_view d)" using desc [OF p] xp' by (auto simp: descending_def)
      moreover have "best k d" using best 2 p by (metis list.sel(1) list.simps(3) nth_mem)
      ultimately show ?thesis by (rule best_less)
    qed
  qed
qed

lemma merge_out_descending: "newest_first ls \<Longrightarrow> descending (merge_out ls)"
proof (induction rule: merge_out_induct)
  case (keep ls k ls')
  then show ?case by (rule newest_first_step)
next
  case (step ls k ls')
  then show ?case
    using merge_step_less [OF step(1,2)] set_merge_out [of ls'] by (auto simp: descending_def)
qed (simp add: descending_def)

subsection \<open>The iterator computes the merge\<close>

context iterator begin

text \<open>What is pending in an iterator of the merge, once the first \<open>Next\<close> has been called on it.\<close>

definition pending :: "'s \<Rightarrow> EventKey list" where
  "pending s = (if Valid s then (case Value s of Some k \<Rightarrow> k # left s | None \<Rightarrow> []) else [])"

definition started :: "'s \<Rightarrow> bool" where
  "started s \<longleftrightarrow> inv s \<and> (if Valid s then Value s \<noteq> None else left s = [])"

lemma Next_started: "inv s \<Longrightarrow> \<exists>again s'. Next s = Some (again, s') \<and> started s' \<and> pending s' = left s"
  using Next_more [of s] Next_done [of s] by (cases "left s") (fastforce simp: started_def pending_def)+

lemma next_all_started:
  "\<forall>s \<in> set its. inv s \<Longrightarrow> \<exists>its'. next_all Next its = Some its' \<and> (\<forall>s \<in> set its'. started s) \<and>
     map pending its' = map left its"
proof (induction its)
  case (Cons s its)
  with Next_started [of s] show ?case by fastforce
qed simp

lemma mi_scan_pending:
  "\<forall>s \<in> set its. started s \<Longrightarrow>
   \<exists>its'. mi_scan Next Value Valid i its m = Some (its', snd (ab_scan i (map pending its) m)) \<and>
     (\<forall>s \<in> set its'. started s) \<and> map pending its' = fst (ab_scan i (map pending its) m)"
proof (induction its arbitrary: i m)
  case (Cons s its)
  show ?case
  proof (cases "Valid s")
    case False
    with Cons.prems Cons.IH [of "Suc i" m] show ?thesis by (auto simp: pending_def)
  next
    case True
    then obtain k where k: "Value s = Some k" and inv: "inv s" and p: "pending s = k # left s"
      using Cons.prems by (auto simp: started_def pending_def)
    show ?thesis
    proof (cases m)
      case None
      with True k p Cons.prems Cons.IH [of "Suc i" "Some (k, i)"] show ?thesis by auto
    next
      case (Some q)
      then obtain mk j where m: "m = Some (mk, j)" by (cases q) auto
      from Next_started [OF inv] obtain again s' where
        "Next s = Some (again, s')" "started s'" "pending s' = left s" by blast
      moreover have "key_view k = key_view mk" if "\<not> key_less (key_view k) (key_view mk)"
          "\<not> key_less (key_view mk) (key_view k)"
        using that key_less_total by blast
      ultimately show ?thesis
        using True k p Cons.prems Cons.IH [of "Suc i" "Some (k, i)"] Cons.IH [of "Suc i" m]
          key_less_asym [of "key_view k" "key_view mk"]
        by (auto simp: m compareEventKey_cases best_def newer_def)
    qed
  qed
qed simp

text \<open>The invariant and the remaining output of the merge; the merge is an iterator again.\<close>

definition mi_inv :: "'s MergeIterator \<Rightarrow> bool" where
  "mi_inv mi \<longleftrightarrow> mi_end mi \<or> (\<forall>s \<in> set (mi_iterators mi). if mi_init mi then inv s else started s)"

definition mi_left :: "'s MergeIterator \<Rightarrow> EventKey list" where
  "mi_left mi = (if mi_end mi then []
     else merge_out (map (if mi_init mi then left else pending) (mi_iterators mi)))"

lemma mi_start: "\<forall>s \<in> set its. inv s \<Longrightarrow>
    mi_inv (NewMergeIterator its) \<and> mi_left (NewMergeIterator its) = merge_out (map left its)"
  by (simp add: mi_inv_def mi_left_def NewMergeIterator_def)

lemma mi_Next_step:
  assumes inv: "mi_inv mi" and e: "\<not> mi_end mi"
  shows "\<exists>mi'. mi_inv mi' \<and>
    (case mi_left mi of
       [] \<Rightarrow> mi_Next Next Value Valid mi = Some (False, mi') \<and> mi_end mi'
     | k # ks \<Rightarrow> mi_Next Next Value Valid mi = Some (True, mi') \<and> mi_left mi' = ks \<and>
         mi_currentKey mi' = k \<and> \<not> mi_end mi')"
proof -
  have "\<exists>its. (if mi_init mi then next_all Next (mi_iterators mi) else Some (mi_iterators mi)) = Some its \<and>
      (\<forall>s \<in> set its. started s) \<and> mi_left mi = merge_out (map pending its)"
    using inv e next_all_started [of "mi_iterators mi"] by (auto simp: mi_inv_def mi_left_def)
  then obtain its where its:
    "(if mi_init mi then next_all Next (mi_iterators mi) else Some (mi_iterators mi)) = Some its"
    "\<forall>s \<in> set its. started s" "mi_left mi = merge_out (map pending its)" by blast
  obtain ls' r where ab: "ab_scan 0 (map pending its) None = (ls', r)" by (cases "ab_scan 0 (map pending its) None")
  with mi_scan_pending [OF its(2), of 0 None] obtain its' where
    sc: "mi_scan Next Value Valid 0 its None = Some (its', r)" "\<forall>s \<in> set its'. started s" "map pending its' = ls'"
    by auto
  show ?thesis
  proof (cases r)
    case None
    with ab have "merge_step (map pending its) = None" by (simp add: merge_step_def)
    with None its(1,3) sc(1) e show ?thesis
      by (auto simp: merge_out_unfold mi_Next_def mi_inv_def Let_def)
  next
    case (Some q)
    then obtain k j where q: "r = Some (k, j)" by (cases q) auto
    with ab have st: "merge_step (map pending its) = Some (k, ls'[j := tl (ls' ! j)])"
      by (simp add: merge_step_def)
    from scanned_best [OF ab_scan_scanned [OF ab]] q obtain ks where
      j: "j < length its" and ks: "ls' ! j = k # ks" by auto
    have len: "length its' = length its"
      using list_all2_lengthD [OF scanned_kept [OF ab_scan_scanned [OF ab]]] sc(3) by auto
    then have inv_j: "inv (its' ! j)" and p_j: "pending (its' ! j) = k # ks"
      using sc(2,3) j ks by (auto simp: started_def)
    then have left_j: "left (its' ! j) = ks"
      by (auto simp: pending_def split: if_splits option.splits)
    from Next_started [OF inv_j] obtain again s' where
      "Next (its' ! j) = Some (again, s')" "started s'" "pending s' = ks" using left_j by blast
    with q sc its(1,3) e ks show ?thesis
      by (auto simp: merge_out_unfold(2) [OF st] mi_Next_def mi_inv_def mi_left_def Let_def map_update
          dest!: set_update_subset_insert [THEN subsetD])
  qed
qed

lemma mi_iterator: "iterator (mi_Next Next Value Valid) mi_Value mi_Valid mi_inv mi_left"
proof
  fix mi k ks
  assume inv: "mi_inv mi" and l: "mi_left mi = k # ks"
  then have "\<not> mi_end mi" by (auto simp: mi_left_def)
  from mi_Next_step [OF inv this] l show "\<exists>mi'. mi_Next Next Value Valid mi = Some (True, mi') \<and>
      mi_inv mi' \<and> mi_left mi' = ks \<and> mi_Value mi' = Some k \<and> mi_Valid mi'"
    by (auto simp: mi_Value_def mi_Valid_def)
next
  fix mi
  assume inv: "mi_inv mi" and l: "mi_left mi = []"
  show "\<exists>mi'. mi_Next Next Value Valid mi = Some (False, mi') \<and> mi_inv mi' \<and> mi_left mi' = [] \<and>
      \<not> mi_Valid mi'"
  proof (cases "mi_end mi")
    case True
    with inv show ?thesis by (auto simp: mi_Next_def mi_left_def mi_Valid_def)
  next
    case False
    from mi_Next_step [OF inv this] l show ?thesis by (auto simp: mi_Valid_def mi_left_def)
  qed
qed

end

end
