(* ===== verification/Snapshot.thy ===== *)
theory Snapshot
  imports Index_Merge Merge_Iterator
begin

text \<open>
  What a reader with a timestamp is meant to see of a list of keys, the newest version of each
  key that is not after the timestamp, and what the two iterators make of it. On keys in the
  order of the tables, the iterator of a mem table yields the matching keys of the snapshot; the
  iterator of an index yields the snapshot of the matching keys.

  Also the order itself: a mem table keeps its keys in strictly descending order, and the rows
  of an index built from one are in that order.
\<close>

definition snapshot :: "u64 \<Rightarrow> EventKey list \<Rightarrow> EventKey list" where
  "snapshot ts ks = filter (\<lambda>k. key_Timestamp k \<le> ts \<and>
     \<not> (\<exists>k' \<in> set ks. key_view k' = key_view k \<and> key_Timestamp k < key_Timestamp k' \<and>
          key_Timestamp k' \<le> ts)) ks"

lemma length_snapshot: "length (snapshot ts ks) \<le> length ks"
  unfolding snapshot_def by (rule length_filter_le)

definition version_sorted :: "EventKey list \<Rightarrow> bool" where
  "version_sorted ks \<longleftrightarrow> sorted_wrt (\<lambda>a b. compareEventKeyTimestamp a b < 0) ks"

text \<open>Equal ids are versions of the same key: no event has moved to another start time.\<close>

definition id_keyed :: "EventKey list \<Rightarrow> bool" where
  "id_keyed ks \<longleftrightarrow> (\<forall>k \<in> set ks. \<forall>k' \<in> set ks. key_ID k = key_ID k' \<longrightarrow> key_view k = key_view k')"

lemma id_keyed_subset: "id_keyed ks \<Longrightarrow> set ks' \<subseteq> set ks \<Longrightarrow> id_keyed ks'"
  unfolding id_keyed_def by blast

lemma version_sorted_parts:
  "version_sorted (xs @ k # ks) \<Longrightarrow> version_sorted (k # ks)"
  "version_sorted (xs @ k # ks) \<Longrightarrow> version_sorted (xs @ ks)"
  by (simp_all add: version_sorted_def sorted_wrt_append)

lemma id_keyed_parts:
  "id_keyed (xs @ k # ks) \<Longrightarrow> id_keyed (k # ks)"
  "id_keyed (xs @ k # ks) \<Longrightarrow> id_keyed (xs @ ks)"
  by (erule id_keyed_subset, force)+

lemma version_before: "compareEventKeyTimestamp a b < 0 \<longleftrightarrow>
    key_less (key_view b) (key_view a) \<or> (key_view a = key_view b \<and> key_Timestamp b < key_Timestamp a)"
  by (auto simp: version_order.cmp_neg version_less_def version_view_def)

lemma key_view_ID: "key_view a = key_view b \<Longrightarrow> key_ID a = key_ID b"
  by (simp add: key_view_def)

text \<open>Between two versions of a key there are only versions of that key, from the newest down.\<close>

lemma version_between:
  assumes "compareEventKeyTimestamp a b < 0" and "compareEventKeyTimestamp b c < 0"
    and "key_view a = key_view c"
  shows "key_view b = key_view a \<and> key_Timestamp b < key_Timestamp a \<and> key_Timestamp c < key_Timestamp b"
  using assms key_less_asym [of "key_view b" "key_view c"] by (auto simp: version_before)

subsection \<open>The iterator of an index\<close>

fun keys_visible :: "u64 \<Rightarrow> string option \<Rightarrow> EventKey list \<Rightarrow> EventKey list" where
  "keys_visible ts lst [] = []"
| "keys_visible ts lst (key # ks) =
     (if key_Timestamp key \<le> ts \<and> lst \<noteq> Some (key_ID key)
      then key # keys_visible ts (Some (key_ID key)) ks else keys_visible ts lst ks)"

lemma ix_visible_keys: "ix_visible ks ts lst it = keys_visible ts lst (map (\<lambda>i. ks ! unat i) it)"
  by (induction ks ts lst it rule: ix_visible.induct) (auto simp: Let_def)

definition newer_visible :: "u64 \<Rightarrow> EventKey \<Rightarrow> EventKey \<Rightarrow> bool" where
  "newer_visible ts k k' \<longleftrightarrow>
     key_view k' = key_view k \<and> key_Timestamp k < key_Timestamp k' \<and> key_Timestamp k' \<le> ts"

lemma keys_visible_filter:
  assumes "version_sorted (case_option [] (\<lambda>l. [l]) l @ ks)" and "id_keyed (case_option [] (\<lambda>l. [l]) l @ ks)"
  shows "keys_visible ts (map_option key_ID l) ks =
    filter (\<lambda>k. key_Timestamp k \<le> ts \<and> map_option key_ID l \<noteq> Some (key_ID k) \<and>
      \<not> (\<exists>k' \<in> set ks. newer_visible ts k k')) ks"
  using assms
proof (induction ks arbitrary: l)
  case (Cons k ks)
  let ?L = "case_option [] (\<lambda>l. [l]) l"
  have before: "compareEventKeyTimestamp k x < 0" if "x \<in> set ks" for x
    using Cons.prems(1) that by (auto simp: version_sorted_def sorted_wrt_append)
  have same: "key_ID x = key_ID y \<Longrightarrow> key_view x = key_view y" if "x \<in> set (?L @ k # ks)" "y \<in> set (?L @ k # ks)" for x y
    using Cons.prems(2) that unfolding id_keyed_def by blast
  have newest: "\<not> newer_visible ts k x" if "x \<in> set (k # ks)" for x
  proof (cases "x = k")
    case False
    with that have "compareEventKeyTimestamp k x < 0" by (intro before) simp
    then show ?thesis by (auto simp: newer_visible_def version_before)
  qed (simp add: newer_visible_def)
  have older: "newer_visible ts x k \<longleftrightarrow> key_ID k = key_ID x \<and> key_Timestamp k \<le> ts" if "x \<in> set ks" for x
    using before [OF that] same [of x k] that
    by (auto simp: newer_visible_def version_before dest: key_view_ID)
  define C where "C x \<longleftrightarrow> key_Timestamp x \<le> ts \<and> map_option key_ID l \<noteq> Some (key_ID x) \<and>
      \<not> (\<exists>k' \<in> set (k # ks). newer_visible ts x k')" for x
  have "keys_visible ts (map_option key_ID l) (k # ks) = filter C (k # ks)"
  proof (cases "key_Timestamp k \<le> ts \<and> map_option key_ID l \<noteq> Some (key_ID k)")
    case True
    have "version_sorted (k # ks)" "id_keyed (k # ks)"
      using Cons.prems version_sorted_parts id_keyed_parts by blast+
    with Cons.IH [of "Some k"] have "keys_visible ts (Some (key_ID k)) ks =
        filter (\<lambda>x. key_Timestamp x \<le> ts \<and> key_ID k \<noteq> key_ID x \<and> \<not> (\<exists>k' \<in> set ks. newer_visible ts x k')) ks"
      by simp
    also have "\<dots> = filter C ks"
    proof (intro filter_cong refl)
      fix x assume x: "x \<in> set ks"
      have "map_option key_ID l \<noteq> Some (key_ID x)" if "key_ID k \<noteq> key_ID x"
      proof
        assume l: "map_option key_ID l = Some (key_ID x)"
        then obtain p where p: "l = Some p" "key_ID p = key_ID x" by auto
        then have "key_view p = key_view x" using same [of p x] x by simp
        moreover have "compareEventKeyTimestamp p k < 0" using Cons.prems(1) p by (simp add: version_sorted_def)
        ultimately have "key_view k = key_view p" using version_between before x by blast
        with p(2) that show False by (metis key_view_ID)
      qed
      with True older [OF x] show "(key_Timestamp x \<le> ts \<and> key_ID k \<noteq> key_ID x \<and>
          \<not> (\<exists>k' \<in> set ks. newer_visible ts x k')) = C x"
        unfolding C_def by auto
    qed
    finally have "keys_visible ts (map_option key_ID l) (k # ks) = k # filter C ks"
      using True by simp
    moreover have "C k" using True newest unfolding C_def by blast
    ultimately show ?thesis by simp
  next
    case False
    have "version_sorted (?L @ ks)" "id_keyed (?L @ ks)"
      using Cons.prems version_sorted_parts id_keyed_parts by blast+
    note IH = Cons.IH [OF this]
    have "keys_visible ts (map_option key_ID l) (k # ks) = keys_visible ts (map_option key_ID l) ks"
      unfolding keys_visible.simps using False by (rule if_not_P)
    also note IH
    also have "filter (\<lambda>x. key_Timestamp x \<le> ts \<and> map_option key_ID l \<noteq> Some (key_ID x) \<and>
        \<not> (\<exists>k' \<in> set ks. newer_visible ts x k')) ks = filter C ks"
      unfolding C_def using False older by (intro filter_cong refl) (simp, metis)
    also have "\<dots> = filter C (k # ks)" using False by (simp add: C_def del: map_option_eq_Some)
    finally show ?thesis .
  qed
  then show ?case unfolding C_def .
qed simp

lemma ix_visible_snapshot:
  assumes "version_sorted (map (\<lambda>i. ks ! unat i) it)" and "id_keyed (map (\<lambda>i. ks ! unat i) it)"
  shows "ix_visible ks ts None it = snapshot ts (map (\<lambda>i. ks ! unat i) it)"
  using keys_visible_filter [of None "map (\<lambda>i. ks ! unat i) it" ts] assms
  by (simp add: ix_visible_keys snapshot_def newer_visible_def)

lemma version_sorted_rows:
  fixes it :: "u32 list"
  assumes ks: "version_sorted ks" and it: "sorted_wrt (<) it" and fit: "\<forall>i \<in> set it. unat i < length ks"
  shows "version_sorted (map (\<lambda>i. ks ! unat i) it)"
  unfolding version_sorted_def sorted_wrt_map
proof (rule sorted_wrt_mono_rel [OF _ it])
  fix i j assume "i \<in> set it" "j \<in> set it" "i < j"
  then show "compareEventKeyTimestamp (ks ! unat i) (ks ! unat j) < 0"
    using ks fit by (auto simp: version_sorted_def word_less_nat_alt intro: sorted_wrt_nth_less)
qed

lemma version_sorted_le: "version_sorted ks \<Longrightarrow> sorted_wrt (\<lambda>a b. compareEventKeyTimestamp a b \<le> 0) ks"
  unfolding version_sorted_def by (erule sorted_wrt_mono_rel [rotated]) simp

lemma version_sorted_filter: "version_sorted ks \<Longrightarrow> version_sorted (filter P ks)"
  unfolding version_sorted_def by (rule sorted_wrt_filter)

lemma version_sorted_distinct: "version_sorted ks \<Longrightarrow> distinct ks"
proof (induction ks)
  case (Cons k ks)
  then show ?case using version_order.refl [of k] by (auto simp: version_sorted_def)
qed simp

subsection \<open>The iterator of a mem table\<close>

lemma mt_visible_filter:
  fixes elems :: "(EventKey \<times> ('ts, 'f) memTableItem) list"
  assumes "version_sorted (case_option [] (\<lambda>p. [p]) p @ map fst elems)"
    and "id_keyed (case_option [] (\<lambda>p. [p]) p @ map fst elems)"
  shows "mt_visible F f ts p elems =
    map fst (filter (\<lambda>(k, v). key_Timestamp k \<le> ts \<and>
      \<not> (\<exists>q. p = Some q \<and> key_ID q = key_ID k \<and> key_Timestamp q \<le> ts) \<and>
      \<not> (\<exists>k' \<in> fst ` set elems. newer_visible ts k k') \<and> matchMemTableItem F f v = Inr True) elems)"
  using assms
proof (induction elems arbitrary: p)
  case (Cons e elems)
  obtain k v where e: "e = (k, v)" by fastforce
  let ?L = "case_option [] (\<lambda>p. [p]) p"
  let ?ks = "map fst elems"
  have before: "compareEventKeyTimestamp k x < 0" if "x \<in> set ?ks" for x
    using Cons.prems(1) that e by (auto simp: version_sorted_def sorted_wrt_append)
  have same: "key_ID x = key_ID y \<Longrightarrow> key_view x = key_view y" if "x \<in> set (?L @ k # ?ks)" "y \<in> set (?L @ k # ?ks)" for x y
    using Cons.prems(2) that e unfolding id_keyed_def by auto
  have newest: "\<not> newer_visible ts k x" if "x \<in> set (k # ?ks)" for x
  proof (cases "x = k")
    case False
    with that have "compareEventKeyTimestamp k x < 0" by (intro before) simp
    then show ?thesis by (auto simp: newer_visible_def version_before)
  qed (simp add: newer_visible_def)
  have older: "newer_visible ts x k \<longleftrightarrow> key_ID k = key_ID x \<and> key_Timestamp k \<le> ts" if "x \<in> set ?ks" for x
    using before [OF that] same [of x k] that
    by (auto simp: newer_visible_def version_before dest: key_view_ID)
  have prev: "key_Timestamp k \<le> ts \<and> key_ID k = key_ID x"
    if x: "x \<in> set ?ks" and q: "p = Some q" "key_ID q = key_ID x" "key_Timestamp q \<le> ts" for x q
  proof -
    have "key_view q = key_view x" using same [of q x] x q by simp
    moreover have "compareEventKeyTimestamp q k < 0" using Cons.prems(1) q e by (simp add: version_sorted_def)
    ultimately have kq: "key_view k = key_view q" "key_Timestamp k < key_Timestamp q"
      using version_between before x by blast+
    from kq(1) have "key_ID k = key_ID q" by (rule key_view_ID)
    with kq(2) q(2,3) show ?thesis by simp
  qed
  have *: "version_sorted (k # ?ks)"
    by (rule version_sorted_parts(1) [of ?L]) (use Cons.prems(1) e in simp)
  have **: "id_keyed (k # ?ks)"
    by (rule id_keyed_parts(1) [of ?L]) (use Cons.prems(2) e in simp)
  define C :: "EventKey \<times> ('ts, 'f) memTableItem \<Rightarrow> bool" where "C = (\<lambda>(x, w). key_Timestamp x \<le> ts \<and>
      \<not> (\<exists>q. p = Some q \<and> key_ID q = key_ID x \<and> key_Timestamp q \<le> ts) \<and>
      \<not> (\<exists>k' \<in> fst ` set (e # elems). newer_visible ts x k') \<and> matchMemTableItem F f w = Inr True)"
  from * ** Cons.IH [of "Some k"] have "mt_visible F f ts (Some k) elems =
      map fst (filter (\<lambda>(x, v). key_Timestamp x \<le> ts \<and> \<not> (key_ID k = key_ID x \<and> key_Timestamp k \<le> ts) \<and>
        \<not> (\<exists>k' \<in> fst ` set elems. newer_visible ts x k') \<and> matchMemTableItem F f v = Inr True) elems)"
    by simp
  also have "\<dots> = map fst (filter C elems)"
  proof (intro arg_cong [where f = "map fst"] filter_cong refl)
    fix xw assume "xw \<in> set elems"
    then have "fst xw \<in> set ?ks" by simp
    then obtain x w where xw: "xw = (x, w)" and x: "x \<in> set ?ks" by (cases xw) simp
    show "(case xw of (x, v) \<Rightarrow> key_Timestamp x \<le> ts \<and> \<not> (key_ID k = key_ID x \<and> key_Timestamp k \<le> ts) \<and>
        \<not> (\<exists>k' \<in> fst ` set elems. newer_visible ts x k') \<and> matchMemTableItem F f v = Inr True) = C xw"
      using older [OF x] prev [OF x] unfolding xw C_def e by auto
  qed
  finally have IH: "mt_visible F f ts (Some k) elems = map fst (filter C elems)" .
  have "C (k, v) \<longleftrightarrow> key_Timestamp k \<le> ts \<and>
      \<not> (\<exists>q. p = Some q \<and> key_ID q = key_ID k \<and> key_Timestamp q \<le> ts) \<and> matchMemTableItem F f v = Inr True"
    using newest unfolding C_def e by auto
  with IH have "mt_visible F f ts p (e # elems) = map fst (filter C (e # elems))"
    unfolding e by simp
  then show ?case unfolding C_def .
qed simp

lemma mt_visible_snapshot:
  assumes "version_sorted (map fst elems)" and "id_keyed (map fst elems)"
  shows "mt_visible F f ts None elems =
    map fst (filter (\<lambda>(k, v). k \<in> set (snapshot ts (map fst elems)) \<and> matchMemTableItem F f v = Inr True) elems)"
proof -
  have "mt_visible F f ts None elems = map fst (filter (\<lambda>(k, v). key_Timestamp k \<le> ts \<and>
      \<not> (\<exists>k' \<in> fst ` set elems. newer_visible ts k k') \<and> matchMemTableItem F f v = Inr True) elems)"
    using mt_visible_filter [of None elems F f ts] assms by simp
  also have "\<dots> = map fst (filter (\<lambda>(k, v). k \<in> set (snapshot ts (map fst elems)) \<and>
      matchMemTableItem F f v = Inr True) elems)"
    by (intro arg_cong [where f = "map fst"] filter_cong)
      (force simp: snapshot_def newer_visible_def)+
  finally show ?thesis .
qed

subsection \<open>The order of a mem table\<close>

definition put_all ::
  "(EventKey, 'v, 's) skiplist \<Rightarrow> (EventKey \<times> 'v) list \<Rightarrow> 's memTable" where
  "put_all S writes = fold (\<lambda>(k, v) mt. putItem S mt k v) writes (newMemTable S)"

lemma insert_desc_keys:
  "fst ` set (insert_desc f k v xs) \<subseteq> insert k (fst ` set xs)"
proof (induction xs)
  case (Cons x xs)
  then show ?case by (cases x) (simp, blast)
qed simp

lemma insert_desc_sorted:
  "version_sorted (map fst xs) \<Longrightarrow> version_sorted (map fst (insert_desc memTable_compare k v xs))"
proof (induction xs)
  case (Cons x xs)
  obtain k' v' where x: "x = (k', v')" by fastforce
  have tail: "\<forall>y \<in> fst ` set xs. compareEventKeyTimestamp k' y < 0"
    using Cons.prems by (simp add: version_sorted_def x)
  consider "compareEventKeyTimestamp k k' < 0" | "compareEventKeyTimestamp k k' = 0"
    | "compareEventKeyTimestamp k' k < 0"
    using version_order.antisym [of k k'] by linarith
  then show ?case
  proof cases
    case 1
    then have "\<forall>y \<in> fst ` set xs. compareEventKeyTimestamp k y < 0"
      using tail version_less_trans by (auto simp: version_order.cmp_neg)
    with 1 Cons.prems show ?thesis by (simp add: x memTable_compare_reverse version_sorted_def)
  next
    case 2
    with Cons.prems show ?thesis by (simp add: x memTable_compare_reverse version_sorted_def)
  next
    case 3
    then have "\<not> compareEventKeyTimestamp k k' \<le> 0" using version_order.antisym [of k k'] by linarith
    then have "insert_desc memTable_compare k v (x # xs) = x # insert_desc memTable_compare k v xs"
      by (simp add: x memTable_compare_reverse)
    moreover have "\<forall>y \<in> fst ` set (insert_desc memTable_compare k v xs). compareEventKeyTimestamp k' y < 0"
      using 3 tail insert_desc_keys [of memTable_compare k v xs] by blast
    ultimately show ?thesis using Cons by (simp add: x version_sorted_def)
  qed
qed (simp add: version_sorted_def)

lemma put_all_sorted:
  assumes S: "skip_list S made"
  shows "version_sorted (map fst (sl_items S (mt_items (put_all S writes))))"
proof -
  have "made memTable_compare (mt_items (fold (\<lambda>(k, v) mt. putItem S mt k v) writes mt)) \<and>
      version_sorted (map fst (sl_items S (mt_items (fold (\<lambda>(k, v) mt. putItem S mt k v) writes mt))))"
    if "made memTable_compare (mt_items mt)" "version_sorted (map fst (sl_items S (mt_items mt)))" for mt
    using that
  proof (induction writes arbitrary: mt)
    case (Cons w writes)
    then show ?case
      by (cases w) (simp add: putItem_def skip_list.made_set [OF S] skip_list.set_items [OF S] insert_desc_sorted)
  qed simp
  moreover have "made memTable_compare (mt_items (newMemTable S))"
    and "sl_items S (mt_items (newMemTable S)) = []"
    by (simp_all add: newMemTable_def skip_list.made_new [OF S] skip_list.new_items [OF S])
  ultimately show ?thesis by (simp add: put_all_def version_sorted_def)
qed

subsection \<open>The rows of a table that holds live events\<close>

text \<open>What \<open>BatchCreateEvents\<close> writes for an event.\<close>

definition table_write :: "'f bloom \<Rightarrow> ('ts option \<Rightarrow> go_time) \<Rightarrow> 'ts row \<Rightarrow>
    EventKey \<times> ('ts, 'f) memTableItem" where
  "table_write F as_time row = (case row of (e, ts, d) \<Rightarrow>
     (EventKeyFromProto as_time (Some e) ts d, newMemTableItem F (Some e) ts d))"

lemma table_write_row:
  "mi_event (snd (table_write F as_time row)) = Some (fst row)"
  "fst (table_write F as_time row) = EventKeyFromProto as_time (Some (fst row)) (fst (snd row)) (snd (snd row))"
  by (simp_all add: table_write_def newMemTableItem_def Let_def split: prod.splits)

lemma item_rows_mset:
  fixes xs ys :: "(EventKey \<times> ('ts, 'f) memTableItem) list"
  assumes a: "mset xs = mset ys"
  shows "mset (item_rows xs) = mset (item_rows ys)"
proof -
  have "mset (item_rows zs) = (\<Sum>x \<in># mset zs. mset (case x of (key, val) \<Rightarrow> (case mi_event val of None \<Rightarrow> []
      | Some e \<Rightarrow> [(e, key_Timestamp key, key_IsDeleted key)])))" for zs :: "(EventKey \<times> ('ts, 'f) memTableItem) list"
    by (induction zs rule: item_rows.induct) (auto split: option.splits)
  then show ?thesis using a by simp
qed

lemma item_rows_writes: "item_rows (map (table_write F as_time) rows) = rows"
  by (induction rows) (auto simp: table_write_def newMemTableItem_def EventKeyFromProto_def Let_def)

lemma version_view_row_key:
  "version_view (row_key as_time row) = version_view (fst (table_write F as_time row))"
  by (cases row) (simp add: row_key_def table_write_def EventKeyFromProto_def getters version_view_def
      key_view_def instant_def in_Local_def)

lemma item_rows_views:
  "\<forall>x \<in> set xs. \<exists>row. x = table_write F as_time row \<Longrightarrow>
     map (version_view \<circ> row_key as_time) (item_rows xs) = map (version_view \<circ> fst) xs"
proof (induction xs)
  case (Cons x xs)
  then obtain row where x: "x = table_write F as_time row" by auto
  have "map (version_view \<circ> row_key as_time) (item_rows xs) = map (version_view \<circ> fst) xs"
    by (rule Cons.IH) (use Cons.prems in simp)
  moreover have "item_rows (x # xs) = row # item_rows xs"
    by (cases row) (simp add: x table_write_def newMemTableItem_def EventKeyFromProto_def Let_def)
  ultimately show ?case using version_view_row_key [of as_time row F] by (simp add: x o_def)
qed simp

lemma version_sorted_views:
  "version_sorted ks \<longleftrightarrow> sorted_wrt version_less (map version_view ks)"
  by (simp add: version_sorted_def sorted_wrt_map version_order.cmp_neg)

lemma mset_insert_desc:
  "\<forall>x \<in> fst ` set xs. version_view x \<noteq> version_view k \<Longrightarrow>
     mset (insert_desc memTable_compare k v xs) = add_mset (k, v) (mset xs)"
proof (induction xs)
  case (Cons x xs)
  then have "memTable_compare k (fst x) \<noteq> 0"
    using version_order.cmp_zero [of k "fst x"] by (auto simp: memTable_compare_reverse)
  with Cons show ?case by (cases x) simp
qed simp

lemma put_all_items:
  assumes S: "skip_list S made" and d: "distinct (map (version_view \<circ> fst) writes)"
  shows "mset (sl_items S (mt_items (put_all S writes))) = mset writes"
proof -
  have "mset (sl_items S (mt_items (fold (\<lambda>(k, v) mt. putItem S mt k v) writes mt))) =
      mset writes + mset (sl_items S (mt_items mt))"
    if "made memTable_compare (mt_items mt)"
      and "distinct (map (version_view \<circ> fst) (writes @ sl_items S (mt_items mt)))" for mt
    using that
  proof (induction writes arbitrary: mt)
    case (Cons w writes)
    obtain k v where w: "w = (k, v)" by fastforce
    let ?mt = "putItem S mt k v"
    have items: "sl_items S (mt_items ?mt) = insert_desc memTable_compare k v (sl_items S (mt_items mt))"
      using Cons.prems(1) by (simp add: putItem_def skip_list.set_items [OF S])
    have new: "\<forall>x \<in> fst ` set (sl_items S (mt_items mt)). version_view x \<noteq> version_view k"
      using Cons.prems(2) by (force simp: w)
    have ms: "mset (sl_items S (mt_items ?mt)) = add_mset (k, v) (mset (sl_items S (mt_items mt)))"
      unfolding items by (rule mset_insert_desc [OF new])
    have "mset (map (version_view \<circ> fst) (sl_items S (mt_items ?mt))) =
        mset (map (version_view \<circ> fst) ((k, v) # sl_items S (mt_items mt)))"
      using ms by simp
    then have "mset (map (version_view \<circ> fst) (writes @ sl_items S (mt_items ?mt))) =
        mset (map (version_view \<circ> fst) ((w # writes) @ sl_items S (mt_items mt)))"
      by (simp add: w)
    with Cons.prems(2) have "distinct (map (version_view \<circ> fst) (writes @ sl_items S (mt_items ?mt)))"
      using mset_eq_imp_distinct_iff by blast
    moreover have "made memTable_compare (mt_items ?mt)"
      using Cons.prems(1) by (simp add: putItem_def skip_list.made_set [OF S])
    ultimately have "mset (sl_items S (mt_items (fold (\<lambda>(k, v) mt. putItem S mt k v) writes ?mt))) =
        mset writes + mset (sl_items S (mt_items ?mt))" by (rule Cons.IH [rotated])
    then show ?case using ms by (simp add: w)
  qed simp
  moreover have "made memTable_compare (mt_items (newMemTable S))"
    and "sl_items S (mt_items (newMemTable S)) = []"
    by (simp_all add: newMemTable_def skip_list.made_new [OF S] skip_list.new_items [OF S])
  ultimately show ?thesis using d by (simp add: put_all_def)
qed

lemma table_rows:
  assumes R: "roaring_bitmap R" and S: "skip_list S made" and n: "length rows \<le> 2 ^ 32"
    and d: "distinct (map (version_view \<circ> row_key as_time) rows)"
  shows "\<exists>ri rows'. fromMemTable R S as_time (put_all S (map (table_write F as_time) rows)) = Some ri \<and>
    ri_rep R as_time ri rows' \<and> mset rows' = mset rows \<and> version_sorted (ri_keys ri)"
proof -
  let ?w = "map (table_write F as_time) rows"
  let ?mt = "put_all S ?w"
  let ?xs = "sl_items S (mt_items ?mt)"
  have views: "map (version_view \<circ> fst) ?w = map (version_view \<circ> row_key as_time) rows"
    by (simp add: version_view_row_key [of as_time _ F])
  then have ms: "mset ?xs = mset ?w" using put_all_items [OF S] d by metis
  then have mem: "\<forall>x \<in> set ?xs. \<exists>row. x = table_write F as_time row"
    using mset_eq_setD by fastforce
  then have "\<forall>(key, val) \<in> set ?xs. mi_event val \<noteq> None"
    using table_write_row(1) by (fastforce simp: prod_eq_iff)
  moreover have "length ?xs \<le> 2 ^ 32" using arg_cong [OF ms, of size] n by simp
  ultimately obtain ri where ri: "fromMemTable R S as_time ?mt = Some ri" "ri_rep R as_time ri (item_rows ?xs)"
    using roaring_bitmap.fromMemTable_rep [OF R] by blast
  have "mset (item_rows ?xs) = mset rows"
    using item_rows_mset [OF ms] by (simp add: item_rows_writes)
  moreover have "version_sorted (ri_keys ri)"
    using put_all_sorted [OF S, of ?w] item_rows_views [OF mem] ri_repD(2) [OF ri(2)]
    by (simp add: version_sorted_views)
  ultimately show ?thesis using ri by blast
qed

end
