(* ===== verification/Storage_Write.thy ===== *)
theory Storage_Write
  imports Snapshot
begin

text \<open>
  The write path of the storage (\<open>Storage\<close> of \<open>src/storage.go\<close>): the table that takes the writes,
  the indices that wait to be merged (\<open>pen\<close>), the four levels they are merged into, and the two
  goroutines that move events along this way. The write worker alone stores \<open>cur\<close> and \<open>pen\<close>, the
  flush worker alone stores \<open>levels\<close>; they talk over channels without buffers.

  An index is never changed once it is published. A pointer to one is an address together with
  the index, and pointers are compared by address.
\<close>

subsection \<open>State\<close>

type_synonym ('ts, 'f) writeItem = "EventKey \<times> ('ts, 'f) memTableItem"

type_synonym 'b index_ptr = "nat \<times> 'b roaringIndex"

record ('b, 's) Storage =
  st_cur :: "'s memTable"
  st_pen :: "'b index_ptr list"
  st_levels :: "'b roaringIndex option list"     \<comment> \<open>four of them\<close>

definition maxMemTableSize :: nat where
  "maxMemTableSize = 16384"

definition levelLimit :: "nat \<Rightarrow> nat option" where
  "levelLimit i =
     (if i = 0 then Some 256000 else if i = 1 then Some 1024000 else if i = 2 then Some 4096000 else None)"

text \<open>What \<open>Open\<close> stores.\<close>

definition open_storage :: "(EventKey, 'v, 's) skiplist \<Rightarrow> ('b, 's) Storage" where
  "open_storage S = \<lparr>st_cur = newMemTable S, st_pen = [], st_levels = [None, None, None, None]\<rparr>"

subsection \<open>The operations\<close>

text \<open>The first case of both \<open>select\<close> statements of \<open>writeWorker\<close>.\<close>

fun remove_pen :: "nat \<Rightarrow> 'b index_ptr list \<Rightarrow> 'b index_ptr list" where
  "remove_pen a [] = []"
| "remove_pen a (t # ts) = (if fst t = a then ts else t # remove_pen a ts)"

text \<open>One turn of the loop of \<open>mergeLevel\<close>, and the loop. \<open>None\<close> is a panic.\<close>

definition spill :: "'b roaring \<Rightarrow> nat \<Rightarrow> 'b roaringIndex option list \<Rightarrow> 'b roaringIndex option list option" where
  "spill R i levels =
     (case levels ! i of
        None \<Rightarrow> Some levels
      | Some l \<Rightarrow>
        (case levelLimit i of
           None \<Rightarrow> Some levels
         | Some limit \<Rightarrow>
           if bm_cardinality R (ri_all l) \<ge> limit
           then map_option (\<lambda>m. levels[i + 1 := m, i := None])
                  (mergeTwoIndices R (Some l) (levels ! (i + 1)))
           else Some levels))"

fun spill_levels :: "'b roaring \<Rightarrow> nat list \<Rightarrow> 'b roaringIndex option list \<Rightarrow>
    'b roaringIndex option list option" where
  "spill_levels R [] levels = Some levels"
| "spill_levels R (i # is) levels = Option.bind (spill R i levels) (spill_levels R is)"

text \<open>\<open>mergeLevel\<close> up to the store of the new levels; what it sends afterwards is a step of the
  worker.\<close>

definition mergeLevel :: "'b roaring \<Rightarrow> 'b roaringIndex option list \<Rightarrow> 'b roaringIndex \<Rightarrow>
    'b roaringIndex option list option" where
  "mergeLevel R levels ri =
     Option.bind
       (case levels ! 0 of
          None \<Rightarrow> Some (levels[0 := Some ri])
        | Some l \<Rightarrow> map_option (\<lambda>m. levels[0 := m]) (mergeTwoIndices R (Some l) (Some ri)))
       (spill_levels R [0, 1, 2])"

text \<open>The two parts of \<open>batchCreateEvents\<close>: the current table becomes a waiting index when it is full,
  and the items are put into the table. The address is the one the new index gets.\<close>

definition full_table :: "(EventKey, 'v, 's) skiplist \<Rightarrow> ('b, 's, 'm) Storage_scheme \<Rightarrow> bool" where
  "full_table S st \<longleftrightarrow> maxMemTableSize \<le> mt_size S (st_cur st)"

definition append_pen :: "nat \<Rightarrow> 'b roaringIndex \<Rightarrow> ('b, 's, 'm) Storage_scheme \<Rightarrow> ('b, 's, 'm) Storage_scheme" where
  "append_pen a ri st = st\<lparr>st_pen := st_pen st @ [(a, ri)]\<rparr>"

fun put_batch :: "(EventKey, ('ts, 'f) memTableItem, 's) skiplist \<Rightarrow> ('ts, 'f) writeItem list \<Rightarrow>
    's memTable \<Rightarrow> 's memTable" where
  "put_batch S [] table = table"
| "put_batch S (wi # wis) table = put_batch S wis (putItem S table (fst wi) (snd wi))"

definition batchCreateEvents ::
  "'b roaring \<Rightarrow> (EventKey, ('ts, 'f) memTableItem, 's) skiplist \<Rightarrow> ('ts option \<Rightarrow> go_time) \<Rightarrow> nat \<Rightarrow>
   ('ts, 'f) writeItem list \<Rightarrow> ('b, 's) Storage \<Rightarrow> ('b, 's) Storage option" where
  "batchCreateEvents R S as_time a batch st =
     (if full_table S st
      then map_option (\<lambda>ri. append_pen a ri (st\<lparr>st_cur := put_batch S batch (newMemTable S)\<rparr>))
             (fromMemTable R S as_time (st_cur st))
      else Some (st\<lparr>st_cur := put_batch S batch (st_cur st)\<rparr>))"

subsection \<open>Sizes of the levels\<close>

text \<open>Every level but the last stays below its limit.\<close>

definition below_limit :: "'b roaring \<Rightarrow> 'b roaringIndex option list \<Rightarrow> nat \<Rightarrow> bool" where
  "below_limit R levels i \<longleftrightarrow>
     (\<forall>l limit. levels ! i = Some l \<longrightarrow> levelLimit i = Some limit \<longrightarrow> bm_cardinality R (ri_all l) < limit)"

lemma spill_below:
  assumes "spill R i levels = Some levels'" and "Suc i < length levels"
  shows "below_limit R levels' i" and "length levels' = length levels"
    and "j \<noteq> i \<Longrightarrow> j \<noteq> Suc i \<Longrightarrow> levels' ! j = levels ! j"
  using assms by (auto simp: spill_def below_limit_def split: option.splits if_splits)

lemma mergeLevel_below:
  assumes "mergeLevel R levels ri = Some levels'" and "length levels = 4"
  shows "length levels' = 4" and "i < 3 \<Longrightarrow> below_limit R levels' i"
proof -
  from assms(1) obtain m where m: "spill_levels R [0, 1, 2] (levels[0 := m]) = Some levels'"
    by (cases "levels ! 0") (auto simp: mergeLevel_def bind_eq_Some_conv)
  define l0 where "l0 = levels[0 := m]"
  then have l0: "length l0 = length levels" by simp
  from m [folded l0_def] obtain l1 l2 where
    s: "spill R 0 l0 = Some l1" "spill R 1 l1 = Some l2" "spill R 2 l2 = Some levels'"
    by (auto simp: bind_eq_Some_conv)
  note 0 = spill_below [OF s(1)] and 1 = spill_below [OF s(2)] and 2 = spill_below [OF s(3)]
  have n: "length l0 = 4" "length l1 = 4" "length l2 = 4" using l0 assms(2) 0(2) 1(2) by simp_all
  then show "length levels' = 4" using 2(2) by simp
  have "below_limit R l2 0" using 0(1) 1(3) [of 0] n by (simp add: below_limit_def)
  moreover have "below_limit R l2 1" using 1(1) n by simp
  ultimately show "below_limit R levels' i" if "i < 3"
    using 2(1) 2(3) [of 0] 2(3) [of 1] n that by (auto simp: below_limit_def less_Suc_eq numeral_eq_Suc)
qed

subsection \<open>The keys of an index\<close>

text \<open>The keys under which an index holds the events of a batch have their times in the local location.\<close>

definition index_key :: "EventKey \<Rightarrow> EventKey" where
  "index_key k = k\<lparr>key_StartTime := in_Local (key_StartTime k)\<rparr>"

lemma row_key_write: "row_key as_time row = index_key (fst (table_write F as_time row))"
  by (cases row) (simp add: row_key_def table_write_def EventKeyFromProto_def getters index_key_def)

definition level_keys :: "'b roaringIndex option \<Rightarrow> EventKey multiset" where
  "level_keys l = (case l of None \<Rightarrow> {#} | Some ri \<Rightarrow> mset (ri_keys ri))"

definition levels_keys :: "'b roaringIndex option list \<Rightarrow> EventKey multiset" where
  "levels_keys ls = sum_list (map level_keys ls)"

text \<open>The index stands for rows that are all among \<open>W\<close>.\<close>

definition holds_rows :: "'b roaring \<Rightarrow> ('ts option \<Rightarrow> go_time) \<Rightarrow> 'ts row set \<Rightarrow> 'b roaringIndex \<Rightarrow> bool" where
  "holds_rows R as_time W ri \<longleftrightarrow> (\<exists>rows. ri_rep R as_time ri rows \<and> set rows \<subseteq> W)"

definition level_rows :: "'b roaring \<Rightarrow> ('ts option \<Rightarrow> go_time) \<Rightarrow> 'ts row set \<Rightarrow> 'b roaringIndex option \<Rightarrow> bool" where
  "level_rows R as_time W l \<longleftrightarrow> (\<forall>ri. l = Some ri \<longrightarrow> holds_rows R as_time W ri)"

lemma level_rows_simps [simp]:
  "level_rows R as_time W None" "level_rows R as_time W (Some ri) \<longleftrightarrow> holds_rows R as_time W ri"
  by (simp_all add: level_rows_def)

lemma level_keys_simps [simp]: "level_keys None = {#}" "level_keys (Some ri) = mset (ri_keys ri)"
  by (simp_all add: level_keys_def)

lemma holds_rows_mono: "holds_rows R as_time W ri \<Longrightarrow> W \<subseteq> V \<Longrightarrow> holds_rows R as_time V ri"
  unfolding holds_rows_def by blast

lemma levels_keys_update:
  "i < length ls \<Longrightarrow> levels_keys (ls[i := l]) + level_keys (ls ! i) = levels_keys ls + level_keys l"
proof (induction ls arbitrary: i)
  case (Cons x ls)
  then show ?case by (cases i) (simp_all add: levels_keys_def ac_simps)
qed simp

lemma merged_holds:
  assumes R: "roaring_bitmap R" and a: "holds_rows R as_time W a" and b: "level_rows R as_time W b"
    and n: "size (mset (ri_keys a) + level_keys b) \<le> 2 ^ 32"
  shows "\<exists>ri. mergeTwoIndices R (Some a) b = Some (Some ri) \<and> holds_rows R as_time W ri \<and>
    mset (ri_keys ri) = mset (ri_keys a) + level_keys b"
proof (cases b)
  case None
  with a show ?thesis by (simp add: mergeTwoIndices_def)
next
  case (Some y)
  obtain A B where A: "ri_rep R as_time a A" "set A \<subseteq> W" and B: "ri_rep R as_time y B" "set B \<subseteq> W"
    using a b unfolding Some level_rows_simps holds_rows_def by blast
  have "length A + length B \<le> 2 ^ 32" using n by (simp add: Some ri_repD(2) [OF A(1)] ri_repD(2) [OF B(1)])
  from roaring_bitmap.merge_indices_rep [OF R A(1) B(1) this] obtain ri where
    ri: "merge_indices R a y = Some ri" "ri_rep R as_time ri (merge_rows as_time A B)" by blast
  note ms = mset_merge_rows [of as_time A B]
  have "set (merge_rows as_time A B) \<subseteq> W"
    using arg_cong [OF ms, of set_mset] A(2) B(2) by simp
  moreover have "mset (ri_keys ri) = mset (ri_keys a) + mset (ri_keys y)"
    by (simp add: ri_repD(2) [OF ri(2)] ri_repD(2) [OF A(1)] ri_repD(2) [OF B(1)] ms)
  ultimately show ?thesis using ri by (auto simp: mergeTwoIndices_def Some holds_rows_def)
qed

lemma size_two_levels:
  assumes "i < length ls" "j < length ls" "i \<noteq> j"
  shows "level_keys (ls ! i) + level_keys (ls ! j) \<subseteq># levels_keys ls"
proof -
  have "levels_keys (ls[i := None, j := None]) + level_keys (ls ! j) = levels_keys (ls[i := None])"
    using levels_keys_update [of j "ls[i := None]" None] assms by simp
  moreover have "levels_keys (ls[i := None]) + level_keys (ls ! i) = levels_keys ls"
    using levels_keys_update [of i ls None] assms by simp
  ultimately have "levels_keys ls = levels_keys (ls[i := None, j := None]) + (level_keys (ls ! i) + level_keys (ls ! j))"
    by (simp add: ac_simps)
  then show ?thesis by simp
qed

lemma spill_holds:
  assumes R: "roaring_bitmap R" and ls: "\<forall>l \<in> set ls. level_rows R as_time W l" and i: "Suc i < length ls"
    and n: "size (levels_keys ls) \<le> 2 ^ 32"
  shows "\<exists>ls'. spill R i ls = Some ls' \<and> length ls' = length ls \<and>
    (\<forall>l \<in> set ls'. level_rows R as_time W l) \<and> levels_keys ls' = levels_keys ls"
proof (cases "\<exists>l limit. ls ! i = Some l \<and> levelLimit i = Some limit \<and> limit \<le> bm_cardinality R (ri_all l)")
  case True
  then obtain l limit where l: "ls ! i = Some l" "levelLimit i = Some limit" "limit \<le> bm_cardinality R (ri_all l)"
    by blast
  have "ls ! i \<in> set ls" "ls ! Suc i \<in> set ls" using i by simp_all
  then have h: "holds_rows R as_time W l" "level_rows R as_time W (ls ! Suc i)" using ls l(1) by auto
  have "size (mset (ri_keys l) + level_keys (ls ! Suc i)) \<le> 2 ^ 32"
    using size_two_levels [of i ls "Suc i"] i l(1) n size_mset_mono order_trans by fastforce
  from merged_holds [OF R h this] obtain ri where ri: "mergeTwoIndices R (Some l) (ls ! Suc i) = Some (Some ri)"
    "holds_rows R as_time W ri" "mset (ri_keys ri) = mset (ri_keys l) + level_keys (ls ! Suc i)" by blast
  let ?ls = "ls[Suc i := Some ri, i := None]"
  have "spill R i ls = Some ?ls" using l ri(1) by (simp add: spill_def)
  moreover have "\<forall>l \<in> set ?ls. level_rows R as_time W l"
    using ls ri(2) by (auto dest!: set_update_subset_insert [THEN subsetD])
  moreover have "levels_keys ?ls = levels_keys ls"
    using levels_keys_update [of i "ls[Suc i := Some ri]" None] levels_keys_update [of "Suc i" ls "Some ri"] i l(1) ri(3)
    by simp
  ultimately show ?thesis by auto
next
  case False
  then have "spill R i ls = Some ls" by (auto simp: spill_def split: option.splits)
  with ls show ?thesis by blast
qed

lemma spill_levels_holds:
  assumes R: "roaring_bitmap R"
  shows "\<forall>l \<in> set ls. level_rows R as_time W l \<Longrightarrow> \<forall>i \<in> set is. Suc i < length ls \<Longrightarrow>
    size (levels_keys ls) \<le> 2 ^ 32 \<Longrightarrow>
    \<exists>ls'. spill_levels R is ls = Some ls' \<and> length ls' = length ls \<and>
      (\<forall>l \<in> set ls'. level_rows R as_time W l) \<and> levels_keys ls' = levels_keys ls"
proof (induction "is" arbitrary: ls)
  case (Cons i "is")
  have "Suc i < length ls" using Cons.prems(2) by simp
  from spill_holds [OF R Cons.prems(1) this Cons.prems(3)] obtain ls1 where
    ls1: "spill R i ls = Some ls1" "length ls1 = length ls" "\<forall>l \<in> set ls1. level_rows R as_time W l"
      "levels_keys ls1 = levels_keys ls" by blast
  with Cons.IH [of ls1] Cons.prems show ?case by simp
qed simp

text \<open>Merging an index into the levels keeps all rows and cannot panic.\<close>

lemma mergeLevel_holds:
  assumes R: "roaring_bitmap R" and ls: "\<forall>l \<in> set ls. level_rows R as_time W l" "length ls = 4"
    and ri: "holds_rows R as_time W ri" and n: "size (levels_keys ls + mset (ri_keys ri)) \<le> 2 ^ 32"
  shows "\<exists>ls'. mergeLevel R ls ri = Some ls' \<and> length ls' = 4 \<and>
    (\<forall>l \<in> set ls'. level_rows R as_time W l) \<and> levels_keys ls' = levels_keys ls + mset (ri_keys ri)"
proof -
  have 0: "0 < length ls" "ls ! 0 \<in> set ls" using ls(2) by simp_all
  have "\<exists>m. (case ls ! 0 of None \<Rightarrow> Some (ls[0 := Some ri])
      | Some l \<Rightarrow> map_option (\<lambda>m. ls[0 := m]) (mergeTwoIndices R (Some l) (Some ri))) = Some (ls[0 := Some m]) \<and>
      holds_rows R as_time W m \<and> mset (ri_keys m) = level_keys (ls ! 0) + mset (ri_keys ri)"
  proof (cases "ls ! 0")
    case (Some l)
    have "level_keys (ls ! 0) \<subseteq># levels_keys ls" using size_two_levels [of 0 ls 1] ls(2)
      by (metis One_nat_def add_leD1 less_numeral_extra(1) mset_subset_eq_add_left subset_mset.order_trans
          one_less_numeral_iff semiring_norm(76) zero_less_numeral zero_neq_one)
    then have "size (mset (ri_keys l) + level_keys (Some ri)) \<le> 2 ^ 32"
      using n size_mset_mono [of "level_keys (ls ! 0)" "levels_keys ls"] Some by simp
    moreover have "holds_rows R as_time W l" using ls(1) 0(2) Some by fastforce
    ultimately show ?thesis using merged_holds [OF R _ _ , of as_time W l "Some ri"] ri Some by auto
  qed (use ri in auto)
  then obtain m where m: "(case ls ! 0 of None \<Rightarrow> Some (ls[0 := Some ri])
      | Some l \<Rightarrow> map_option (\<lambda>m. ls[0 := m]) (mergeTwoIndices R (Some l) (Some ri))) = Some (ls[0 := Some m])"
      "holds_rows R as_time W m" "mset (ri_keys m) = level_keys (ls ! 0) + mset (ri_keys ri)" by blast
  have keys: "levels_keys (ls[0 := Some m]) = levels_keys ls + mset (ri_keys ri)"
    using levels_keys_update [OF 0(1), of "Some m"] m(3) by (simp add: ac_simps)
  have "\<forall>l \<in> set (ls[0 := Some m]). level_rows R as_time W l"
    using ls(1) m(2) by (auto dest!: set_update_subset_insert [THEN subsetD])
  from spill_levels_holds [OF R this, of "[0, 1, 2]"] show ?thesis
    using n ls(2) by (simp add: mergeLevel_def m(1) keys)
qed

end
