(* ===== verification/Strconv.thy ===== *)
theory Strconv
  imports Bitstar_Prelude
begin

text \<open>
  What the filter syntax uses of the Go library packages \<open>unicode/utf8\<close> and \<open>strconv\<close>: decoding
  and encoding of runes, \<open>Quote\<close> and \<open>Unquote\<close> of double-quoted literals. A Go string is a list of
  bytes, here of characters. The table of printable runes above Latin-1 is the parameter
  \<open>is_print\<close>.

  \<open>Unquote\<close> inverts \<open>Quote\<close> on every byte string, valid UTF-8 or not.
\<close>

subsection \<open>UTF-8\<close>

abbreviation byte :: "nat \<Rightarrow> char" where
  "byte n \<equiv> char_of n"

definition RuneError :: nat where
  "RuneError = 65533"

definition is_cont :: "nat \<Rightarrow> bool" where
  "is_cont b \<longleftrightarrow> 128 \<le> b \<and> b < 192"

text \<open>\<open>DecodeRuneInString\<close>: the rune and its width; on an invalid sequence \<open>RuneError\<close> and 1.\<close>

definition decode2 :: "nat \<Rightarrow> nat \<Rightarrow> nat" where
  "decode2 a b = (a - 192) * 64 + (b - 128)"

definition decode3 :: "nat \<Rightarrow> nat \<Rightarrow> nat \<Rightarrow> nat" where
  "decode3 a b c = (a - 224) * 4096 + (b - 128) * 64 + (c - 128)"

definition decode4 :: "nat \<Rightarrow> nat \<Rightarrow> nat \<Rightarrow> nat \<Rightarrow> nat" where
  "decode4 a b c d = (a - 240) * 262144 + (b - 128) * 4096 + (c - 128) * 64 + (d - 128)"

definition ok3 :: "nat \<Rightarrow> nat \<Rightarrow> nat \<Rightarrow> bool" where
  "ok3 a b c \<longleftrightarrow> 224 \<le> a \<and> a < 240 \<and> is_cont b \<and> is_cont c \<and>
     (a = 224 \<longrightarrow> 160 \<le> b) \<and> (a = 237 \<longrightarrow> b < 160)"

definition ok4 :: "nat \<Rightarrow> nat \<Rightarrow> nat \<Rightarrow> nat \<Rightarrow> bool" where
  "ok4 a b c d \<longleftrightarrow> 240 \<le> a \<and> a < 245 \<and> is_cont b \<and> is_cont c \<and> is_cont d \<and>
     (a = 240 \<longrightarrow> 144 \<le> b) \<and> (a = 244 \<longrightarrow> b < 144)"

definition DecodeRune :: "string \<Rightarrow> nat \<times> nat" where
  "DecodeRune s =
     (case map of_char s of
        [] \<Rightarrow> (RuneError, 0)
      | a # t \<Rightarrow>
          if a < 128 then (a, 1)
          else if 194 \<le> a \<and> a < 224 then
            (case t of b # _ \<Rightarrow> if is_cont b then (decode2 a b, 2) else (RuneError, 1)
             | [] \<Rightarrow> (RuneError, 1))
          else
            (case t of
               b # c # t \<Rightarrow>
                 if ok3 a b c then (decode3 a b c, 3)
                 else (case t of d # _ \<Rightarrow> if ok4 a b c d then (decode4 a b c d, 4) else (RuneError, 1)
                       | [] \<Rightarrow> (RuneError, 1))
             | _ \<Rightarrow> (RuneError, 1)))"

definition ValidRune :: "nat \<Rightarrow> bool" where
  "ValidRune r \<longleftrightarrow> r < 55296 \<or> (57344 \<le> r \<and> r < 1114112)"

definition AppendRune :: "nat \<Rightarrow> string" where
  "AppendRune r =
     (let r = if ValidRune r then r else RuneError
      in if r < 128 then [byte r]
         else if r < 2048 then [byte (192 + r div 64), byte (128 + r mod 64)]
         else if r < 65536 then
           [byte (224 + r div 4096), byte (128 + r div 64 mod 64), byte (128 + r mod 64)]
         else
           [byte (240 + r div 262144), byte (128 + r div 4096 mod 64), byte (128 + r div 64 mod 64),
            byte (128 + r mod 64)])"

subsection \<open>Unquote\<close>

definition unhex :: "char \<Rightarrow> nat option" where
  "unhex c =
     (let b = of_char c :: nat
      in if 48 \<le> b \<and> b \<le> 57 then Some (b - 48)
         else if 97 \<le> b \<and> b \<le> 102 then Some (b - 97 + 10)
         else if 65 \<le> b \<and> b \<le> 70 then Some (b - 65 + 10)
         else None)"

text \<open>A number of \<open>n\<close> hexadecimal digits, and what follows.\<close>

fun hex_digits :: "nat \<Rightarrow> nat \<Rightarrow> string \<Rightarrow> (nat \<times> string) option" where
  "hex_digits 0 v s = Some (v, s)"
| "hex_digits (Suc n) v [] = None"
| "hex_digits (Suc n) v (c # s) =
     (case unhex c of None \<Rightarrow> None | Some x \<Rightarrow> hex_digits n (v * 16 + x) s)"

definition octal :: "char \<Rightarrow> nat option" where
  "octal c = (let b = of_char c :: nat in if 48 \<le> b \<and> b \<le> 55 then Some (b - 48) else None)"

text \<open>The escapes of one letter after the backslash.\<close>

definition simple_escape :: "char \<Rightarrow> nat option" where
  "simple_escape c = map_of [(CHR ''a'', 7), (CHR ''b'', 8), (CHR ''f'', 12), (CHR ''n'', 10),
     (CHR ''r'', 13), (CHR ''t'', 9), (CHR ''v'', 11), (CHR 0x5C, 92), (CHR 0x22, 34)] c"

text \<open>\<open>UnquoteChar(s, '"')\<close>: the rune, whether it is to be appended as UTF-8, and the rest.\<close>

definition UnquoteEscape :: "char \<Rightarrow> string \<Rightarrow> (nat \<times> bool \<times> string) option" where
  "UnquoteEscape c s =
     (case simple_escape c of
        Some v \<Rightarrow> Some (v, False, s)
      | None \<Rightarrow>
          if c = CHR ''x'' then map_option (\<lambda>(v, s). (v, False, s)) (hex_digits 2 0 s)
          else if c = CHR ''u'' \<or> c = CHR ''U'' then
            Option.bind (hex_digits (if c = CHR ''u'' then 4 else 8) 0 s)
              (\<lambda>(v, s). if ValidRune v then Some (v, True, s) else None)
          else
            (case (octal c, s) of
               (Some x, d # e # s) \<Rightarrow>
                 (case (octal d, octal e) of
                    (Some y, Some z) \<Rightarrow>
                      let v = x * 64 + y * 8 + z in if v > 255 then None else Some (v, False, s)
                  | _ \<Rightarrow> None)
             | _ \<Rightarrow> None))"

definition UnquoteChar :: "string \<Rightarrow> (nat \<times> bool \<times> string) option" where
  "UnquoteChar s =
     (case s of
        [] \<Rightarrow> None
      | c # t \<Rightarrow>
          if c = CHR 0x22 then None
          else if of_char c \<ge> (128 :: nat) then
            (let (r, size) = DecodeRune s in Some (r, True, drop size s))
          else if c \<noteq> CHR 0x5C then Some (of_char c, False, t)
          else (case t of [] \<Rightarrow> None | d # t \<Rightarrow> UnquoteEscape d t))"

text \<open>The loop of \<open>Unquote\<close> after the opening quote, up to and with the closing one, at the end of the
  literal.\<close>

lemma hex_digits_shorter: "hex_digits n v s = Some (w, t) \<Longrightarrow> length t \<le> length s"
  by (induction n v s rule: hex_digits.induct) (auto split: option.splits)

lemma UnquoteEscape_shorter: "UnquoteEscape c s = Some (r, m, t) \<Longrightarrow> length t \<le> length s"
  by (auto simp: UnquoteEscape_def Let_def bind_eq_Some_conv split: option.splits if_splits list.splits
      dest: hex_digits_shorter)

lemma DecodeRune_width: "s \<noteq> [] \<Longrightarrow> 0 < snd (DecodeRune s) \<and> snd (DecodeRune s) \<le> length s"
  by (auto simp: DecodeRune_def split: list.splits)

lemma UnquoteChar_shorter: "UnquoteChar s = Some (r, m, t) \<Longrightarrow> length t < length s"
  using DecodeRune_width [of s]
  by (auto simp: UnquoteChar_def Let_def split: list.splits if_splits prod.splits
      dest: UnquoteEscape_shorter)

function unquote_loop :: "string \<Rightarrow> string option" where
  "unquote_loop s =
     (case s of
        [] \<Rightarrow> None
      | c # t \<Rightarrow>
          if c = CHR 0x22 then (if t = [] then Some [] else None)
          else if c = CHR 0x0A then None
          else (case UnquoteChar s of
                  None \<Rightarrow> None
                | Some (r, multibyte, rest) \<Rightarrow>
                    map_option ((@) (if r < 128 \<or> \<not> multibyte then [byte r] else AppendRune r))
                      (unquote_loop rest)))"
  by auto
termination by (relation "measure length") (auto dest: UnquoteChar_shorter)

declare unquote_loop.simps [simp del]

definition Unquote :: "string \<Rightarrow> string option" where
  "Unquote s = (case s of c # t \<Rightarrow> if c = CHR 0x22 then unquote_loop t else None | [] \<Rightarrow> None)"

subsection \<open>Quote\<close>

definition IsPrint :: "(nat \<Rightarrow> bool) \<Rightarrow> nat \<Rightarrow> bool" where
  "IsPrint is_print r \<longleftrightarrow>
     (if r \<le> 255 then (32 \<le> r \<and> r < 127) \<or> (161 \<le> r \<and> r \<noteq> 173) else is_print r)"

definition lowerhex :: "nat \<Rightarrow> char" where
  "lowerhex n = (if n < 10 then byte (48 + n) else byte (97 + (n - 10)))"

text \<open>\<open>n\<close> hexadecimal digits of a number.\<close>

fun hex :: "nat \<Rightarrow> nat \<Rightarrow> string" where
  "hex 0 r = []"
| "hex (Suc n) r = lowerhex (r div 16 ^ n mod 16) # hex n r"

definition escape_letter :: "nat \<Rightarrow> char option" where
  "escape_letter r = map_of [(7, CHR ''a''), (8, CHR ''b''), (12, CHR ''f''), (10, CHR ''n''),
     (13, CHR ''r''), (9, CHR ''t''), (11, CHR ''v'')] r"

definition appendEscapedRune :: "(nat \<Rightarrow> bool) \<Rightarrow> nat \<Rightarrow> string" where
  "appendEscapedRune is_print r =
     (if r = 34 \<or> r = 92 then [CHR 0x5C, byte r]
      else if IsPrint is_print r then AppendRune r
      else case escape_letter r of
          Some c \<Rightarrow> [CHR 0x5C, c]
        | None \<Rightarrow>
            if r < 32 \<or> r = 127 then [CHR 0x5C, CHR ''x''] @ hex 2 r
            else let r = if ValidRune r then r else RuneError
                 in if r < 65536 then [CHR 0x5C, CHR ''u''] @ hex 4 r else [CHR 0x5C, CHR ''U''] @ hex 8 r)"

function quote_loop :: "(nat \<Rightarrow> bool) \<Rightarrow> string \<Rightarrow> string" where
  "quote_loop is_print s =
     (if s = [] then []
      else
        let (r, width) = (if of_char (hd s) < (128 :: nat) then (of_char (hd s), 1) else DecodeRune s)
        in (if width = 1 \<and> r = RuneError then [CHR 0x5C, CHR ''x''] @ hex 2 (of_char (hd s))
            else appendEscapedRune is_print r) @ quote_loop is_print (drop width s))"
  by auto
termination
proof (relation "measure (length \<circ> snd)")
  fix is_print s x r width
  assume "s \<noteq> []" and "x = (if of_char (hd s) < (128 :: nat) then (of_char (hd s), 1) else DecodeRune s)"
    and "(r, width) = x"
  then have "0 < width" using DecodeRune_width [of s] by (auto split: if_splits simp: prod_eq_iff)
  with \<open>s \<noteq> []\<close> show "((is_print, drop width s), is_print, s) \<in> measure (length \<circ> snd)" by simp
qed simp

declare quote_loop.simps [simp del]

definition Quote :: "(nat \<Rightarrow> bool) \<Rightarrow> string \<Rightarrow> string" where
  "Quote is_print s = [CHR 0x22] @ quote_loop is_print s @ [CHR 0x22]"

subsection \<open>Decoding inverts encoding\<close>

lemma digits:
  fixes x y k :: nat
  assumes "y < k"
  shows "(x * k + y) div k = x" and "(x * k + y) mod k = y"
  using assms by simp_all

lemma digits64:
  fixes x y z w :: nat
  assumes y: "y < 64" and z: "z < 64" and w: "w < 64"
  shows "(x * 4096 + y * 64 + z) div 4096 = x" and "(x * 4096 + y * 64 + z) div 64 mod 64 = y"
    and "(x * 4096 + y * 64 + z) mod 64 = z"
    and "(x * 262144 + y * 4096 + z * 64 + w) div 262144 = x"
    and "(x * 262144 + y * 4096 + z * 64 + w) div 4096 mod 64 = y"
    and "(x * 262144 + y * 4096 + z * 64 + w) div 64 mod 64 = z"
    and "(x * 262144 + y * 4096 + z * 64 + w) mod 64 = w"
proof -
  have yz: "y * 64 + z < 4096" and zw: "z * 64 + w < 4096" using assms by linarith+
  then have yzw: "y * 4096 + (z * 64 + w) < 262144" using y by linarith
  have e: "x * 4096 + y * 64 + z = (x * 64 + y) * 64 + z" "x * 4096 + y * 64 + z = x * 4096 + (y * 64 + z)"
    by simp_all
  show "(x * 4096 + y * 64 + z) div 4096 = x" unfolding e(2) by (rule digits(1) [OF yz])
  show "(x * 4096 + y * 64 + z) div 64 mod 64 = y"
    unfolding e(1) digits [OF z] by (rule digits(2) [OF y])
  show "(x * 4096 + y * 64 + z) mod 64 = z" unfolding e(1) by (rule digits(2) [OF z])
  have f: "x * 262144 + y * 4096 + z * 64 + w = x * 262144 + (y * 4096 + (z * 64 + w))"
    "x * 262144 + y * 4096 + z * 64 + w = (x * 64 + y) * 4096 + (z * 64 + w)"
    "x * 262144 + y * 4096 + z * 64 + w = ((x * 64 + y) * 64 + z) * 64 + w"
    by simp_all
  show "(x * 262144 + y * 4096 + z * 64 + w) div 262144 = x" unfolding f(1) by (rule digits(1) [OF yzw])
  show "(x * 262144 + y * 4096 + z * 64 + w) div 4096 mod 64 = y"
    unfolding f(2) digits [OF zw] by (rule digits(2) [OF y])
  show "(x * 262144 + y * 4096 + z * 64 + w) div 64 mod 64 = z"
    unfolding f(3) digits [OF w] by (rule digits(2) [OF z])
  show "(x * 262144 + y * 4096 + z * 64 + w) mod 64 = w" unfolding f(3) by (rule digits(2) [OF w])
qed

lemma is_contE: "is_cont b \<Longrightarrow> (\<And>y. b = 128 + y \<Longrightarrow> y < 64 \<Longrightarrow> P) \<Longrightarrow> P"
  unfolding is_cont_def using le_Suc_ex [of 128 b] by auto

lemma AppendRune_decode2:
  assumes "194 \<le> a" and "a < 224" and "is_cont b"
  shows "AppendRune (decode2 a b) = [byte a, byte b] \<and> ValidRune (decode2 a b) \<and> 128 \<le> decode2 a b"
proof -
  obtain x where a: "a = 192 + x" "2 \<le> x" "x < 32" using le_Suc_ex [of 192 a] assms by auto
  obtain y where b: "b = 128 + y" "y < 64" using assms(3) by (rule is_contE)
  have r: "decode2 a b = x * 64 + y" by (simp add: decode2_def a b)
  have "128 \<le> x * 64 + y" "x * 64 + y < 2048" using a b by linarith+
  then show ?thesis
    using digits [OF b(2), of x] unfolding r by (simp add: AppendRune_def ValidRune_def a b)
qed

lemma AppendRune_decode3:
  assumes "ok3 a b c"
  shows "AppendRune (decode3 a b c) = [byte a, byte b, byte c] \<and> ValidRune (decode3 a b c) \<and>
    128 \<le> decode3 a b c"
proof -
  from assms have cont: "is_cont b" "is_cont c" and range: "224 \<le> a" "a < 240"
    "a = 224 \<Longrightarrow> 160 \<le> b" "a = 237 \<Longrightarrow> b < 160" by (auto simp: ok3_def)
  obtain x where a: "a = 224 + x" "x < 16" using le_Suc_ex [of 224 a] range by auto
  obtain y where b: "b = 128 + y" "y < 64" using cont(1) by (rule is_contE)
  obtain z where c: "c = 128 + z" "z < 64" using cont(2) by (rule is_contE)
  have r: "decode3 a b c = x * 4096 + y * 64 + z" by (simp add: decode3_def a b c)
  have "x * 4096 + y * 64 + z < 65536" using a(2) b(2) c(2) by linarith
  moreover have "2048 \<le> x * 4096 + y * 64 + z"
  proof (cases "x = 0")
    case True
    then have "32 \<le> y" using range(3) a b by simp
    then show ?thesis by linarith
  qed linarith
  moreover have "x * 4096 + y * 64 + z < 55296 \<or> 57344 \<le> x * 4096 + y * 64 + z"
  proof (cases "x = 13")
    case True
    then have "y < 32" using range(4) a b by simp
    with True c show ?thesis by linarith
  next
    case False
    then have "x \<le> 12 \<or> 14 \<le> x" by linarith
    then show ?thesis using b c by linarith
  qed
  ultimately show ?thesis
    using digits64(1-3) [OF b(2) c(2) c(2), of x] unfolding r by (simp add: AppendRune_def ValidRune_def a b c)
qed

lemma AppendRune_decode4:
  assumes "ok4 a b c d"
  shows "AppendRune (decode4 a b c d) = [byte a, byte b, byte c, byte d] \<and> ValidRune (decode4 a b c d) \<and>
    128 \<le> decode4 a b c d"
proof -
  from assms have cont: "is_cont b" "is_cont c" "is_cont d" and range: "240 \<le> a" "a < 245"
    "a = 240 \<Longrightarrow> 144 \<le> b" "a = 244 \<Longrightarrow> b < 144" by (auto simp: ok4_def)
  obtain x where a: "a = 240 + x" "x < 5" using le_Suc_ex [of 240 a] range by auto
  obtain y where b: "b = 128 + y" "y < 64" using cont(1) by (rule is_contE)
  obtain z where c: "c = 128 + z" "z < 64" using cont(2) by (rule is_contE)
  obtain w where d: "d = 128 + w" "w < 64" using cont(3) by (rule is_contE)
  have r: "decode4 a b c d = x * 262144 + y * 4096 + z * 64 + w" by (simp add: decode4_def a b c d)
  have "65536 \<le> x * 262144 + y * 4096 + z * 64 + w"
  proof (cases "x = 0")
    case True
    then have "16 \<le> y" using range(3) a b by simp
    then show ?thesis by linarith
  qed linarith
  moreover have "x * 262144 + y * 4096 + z * 64 + w < 1114112"
  proof (cases "x = 4")
    case True
    then have "y < 16" using range(4) a b by simp
    with True c d show ?thesis by linarith
  next
    case False
    then have "x \<le> 3" using a by linarith
    then show ?thesis using b c d by linarith
  qed
  ultimately show ?thesis
    using digits64(4-7) [OF b(2) c(2) d(2), of x] unfolding r
    by (simp add: AppendRune_def ValidRune_def a b c d)
qed

text \<open>A decoded rune that is no error encodes to the bytes it was decoded from, and these bytes
  decode to it whatever follows.\<close>

lemma DecodeRune_valid:
  assumes "DecodeRune s = (r, w)" and "\<not> (w = 1 \<and> r = RuneError)" and "s \<noteq> []"
    and "128 \<le> (of_char (hd s) :: nat)"
  shows "AppendRune r = take w s \<and> ValidRune r \<and> 128 \<le> r \<and> DecodeRune (take w s @ t) = (r, w)"
proof -
  obtain c1 s1 where s: "s = c1 # s1" using assms(3) by (cases s) auto
  let ?a = "of_char c1 :: nat"
  have a: "\<not> ?a < 128" using assms(4) by (simp add: s)
  show ?thesis
  proof (cases "194 \<le> ?a \<and> ?a < 224")
    case True
    with assms(1,2) a obtain c2 s2 where s1: "s1 = c2 # s2" and c: "is_cont (of_char c2)"
      and r: "r = decode2 ?a (of_char c2)" "w = 2"
      by (auto simp: DecodeRune_def s split: list.splits if_splits)
    from AppendRune_decode2 [of ?a "of_char c2"] True c show ?thesis
      by (auto simp: r s s1 DecodeRune_def)
  next
    case False
    with assms(1,2) a obtain c2 c3 s3 where s1: "s1 = c2 # c3 # s3"
      by (auto simp: DecodeRune_def s split: list.splits if_splits)
    let ?b = "of_char c2 :: nat" and ?c = "of_char c3 :: nat"
    show ?thesis
    proof (cases "ok3 ?a ?b ?c")
      case True
      with False assms(1) a have r: "r = decode3 ?a ?b ?c" "w = 3"
        by (auto simp: DecodeRune_def s s1)
      from AppendRune_decode3 [OF True] False True a show ?thesis
        by (auto simp: r s s1 DecodeRune_def eval_nat_numeral)
    next
      case no3: False
      with False assms(1,2) a obtain c4 s4 where s3: "s3 = c4 # s4" and o: "ok4 ?a ?b ?c (of_char c4)"
        and r: "r = decode4 ?a ?b ?c (of_char c4)" "w = 4"
        by (auto simp: DecodeRune_def s s1 split: list.splits if_splits)
      from AppendRune_decode4 [OF o] o False no3 a show ?thesis
        by (auto simp: r s s1 s3 DecodeRune_def eval_nat_numeral)
    qed
  qed
qed

subsection \<open>Unquoting a quoted string\<close>

lemma unhex_lowerhex: "n < 16 \<Longrightarrow> unhex (lowerhex n) = Some n"
  by (auto simp: unhex_def lowerhex_def Let_def)

lemma hex_digits_hex: "hex_digits n v (hex n r @ t) = Some (v * 16 ^ n + r mod 16 ^ n, t)"
proof (induction n arbitrary: v)
  case (Suc n)
  have "r mod 16 ^ Suc n = 16 ^ n * (r div 16 ^ n mod 16) + r mod 16 ^ n"
    using mod_mult2_eq [of r "16 ^ n" 16] by (simp add: mult.commute)
  then show ?case by (simp add: Suc unhex_lowerhex algebra_simps)
qed simp

lemma unquote_escape:
  "UnquoteEscape d t = Some (r, m, rest) \<Longrightarrow>
     unquote_loop (CHR 0x5C # d # t) =
       map_option ((@) (if r < 128 \<or> \<not> m then [byte r] else AppendRune r)) (unquote_loop rest)"
  by (subst unquote_loop.simps) (simp add: UnquoteChar_def)

lemma unquote_simple:
  "simple_escape d = Some r \<Longrightarrow> unquote_loop (CHR 0x5C # d # t) = map_option ((#) (byte r)) (unquote_loop t)"
  by (subst unquote_escape [of _ _ r False t]) (auto simp: UnquoteEscape_def map_option_case split: option.splits)

lemma unquote_x:
  "r < 256 \<Longrightarrow> unquote_loop ([CHR 0x5C, CHR ''x''] @ hex 2 r @ t) = map_option ((#) (byte r)) (unquote_loop t)"
  using hex_digits_hex [of 2 0 r t]
  by (simp only: append.simps)
    (subst unquote_escape [of _ _ r False t]; simp add: UnquoteEscape_def simple_escape_def map_option_case split: option.splits)

lemma unquote_u:
  assumes "ValidRune r" and "128 \<le> r"
  shows "r < 65536 \<Longrightarrow> unquote_loop ([CHR 0x5C, CHR ''u''] @ hex 4 r @ t) = map_option ((@) (AppendRune r)) (unquote_loop t)"
    and "unquote_loop ([CHR 0x5C, CHR ''U''] @ hex 8 r @ t) = map_option ((@) (AppendRune r)) (unquote_loop t)"
proof -
  have "r < 1114112" using assms(1) by (auto simp: ValidRune_def)
  then show "unquote_loop ([CHR 0x5C, CHR ''U''] @ hex 8 r @ t) = map_option ((@) (AppendRune r)) (unquote_loop t)"
    using hex_digits_hex [of 8 0 r t] assms
    by (simp only: append.simps)
      (subst unquote_escape [of _ _ r True t]; simp add: UnquoteEscape_def simple_escape_def)
  assume "r < 65536"
  then show "unquote_loop ([CHR 0x5C, CHR ''u''] @ hex 4 r @ t) = map_option ((@) (AppendRune r)) (unquote_loop t)"
    using hex_digits_hex [of 4 0 r t] assms
    by (simp only: append.simps)
      (subst unquote_escape [of _ _ r True t]; simp add: UnquoteEscape_def simple_escape_def)
qed

text \<open>One step of the loop of \<open>Quote\<close>, undone.\<close>

definition quote_piece :: "(nat \<Rightarrow> bool) \<Rightarrow> string \<Rightarrow> string \<times> nat" where
  "quote_piece is_print s =
     (let (r, width) = (if of_char (hd s) < (128 :: nat) then (of_char (hd s), 1) else DecodeRune s)
      in (if width = 1 \<and> r = RuneError then [CHR 0x5C, CHR ''x''] @ hex 2 (of_char (hd s))
          else appendEscapedRune is_print r, width))"

lemma quote_loop_piece:
  "s \<noteq> [] \<Longrightarrow> quote_loop is_print s =
     fst (quote_piece is_print s) @ quote_loop is_print (drop (snd (quote_piece is_print s)) s)"
  by (subst quote_loop.simps) (simp add: quote_piece_def split: prod.split)

lemma of_char_lt: "(of_char c :: nat) < 256"
  by (metis of_char_of char_of_char mod_less_divisor zero_less_numeral)

lemma of_char_iff:
  "of_char c = (34 :: nat) \<longleftrightarrow> c = CHR 0x22" "of_char c = (92 :: nat) \<longleftrightarrow> c = CHR 0x5C"
  "of_char c = (10 :: nat) \<longleftrightarrow> c = CHR 0x0A"
proof -
  show "of_char c = (34 :: nat) \<longleftrightarrow> c = CHR 0x22" using of_char_eq_iff [of c "CHR 0x22", where ?'a = nat] by simp
  show "of_char c = (92 :: nat) \<longleftrightarrow> c = CHR 0x5C" using of_char_eq_iff [of c "CHR 0x5C", where ?'a = nat] by simp
  show "of_char c = (10 :: nat) \<longleftrightarrow> c = CHR 0x0A" using of_char_eq_iff [of c "CHR 0x0A", where ?'a = nat] by simp
qed

lemma byte_consts: "byte 34 = CHR 0x22" "byte 92 = CHR 0x5C"
  by (rule of_char_eqI [where 'a = nat], simp)+

lemma append_one: "(@) [c] = (#) c"
  by (rule ext) simp

lemma unquote_plain:
  "of_char c < (128 :: nat) \<Longrightarrow> c \<notin> {CHR 0x22, CHR 0x5C, CHR 0x0A} \<Longrightarrow>
     unquote_loop (c # t) = map_option ((#) c) (unquote_loop t)"
  by (subst unquote_loop.simps) (simp add: UnquoteChar_def append_one)

lemma unquote_ascii:
  assumes "of_char c < (128 :: nat)"
  shows "unquote_loop (appendEscapedRune is_print (of_char c) @ t) = map_option ((#) c) (unquote_loop t)"
proof -
  let ?r = "of_char c :: nat"
  consider "?r = 34" | "?r = 92" | "32 \<le> ?r" "?r < 127" "?r \<noteq> 34" "?r \<noteq> 92"
    | l where "?r < 32 \<or> ?r = 127" "escape_letter ?r = Some l"
    | "?r < 32 \<or> ?r = 127" "escape_letter ?r = None"
    using assms by (cases "escape_letter ?r") force+
  then show ?thesis
  proof cases
    case 1
    then show ?thesis
      using unquote_simple [of "CHR 0x22" 34 t] of_char_iff(1) [of c]
      by (simp add: appendEscapedRune_def simple_escape_def byte_consts)
  next
    case 2
    then show ?thesis
      using unquote_simple [of "CHR 0x5C" 92 t] of_char_iff(2) [of c]
      by (simp add: appendEscapedRune_def simple_escape_def byte_consts)
  next
    case 3
    then have "c \<notin> {CHR 0x22, CHR 0x5C, CHR 0x0A}" by auto
    moreover have "AppendRune ?r = [c]" using assms by (simp add: AppendRune_def ValidRune_def)
    moreover have "IsPrint is_print ?r" using 3 by (simp add: IsPrint_def)
    ultimately show ?thesis using unquote_plain [OF assms] 3 by (simp add: appendEscapedRune_def)
  next
    case 4
    then have "simple_escape l = Some ?r"
      by (auto simp: escape_letter_def simple_escape_def split: if_splits)
    from unquote_simple [OF this] 4 show ?thesis by (auto simp: appendEscapedRune_def IsPrint_def)
  next
    case 5
    with unquote_x [of ?r t] of_char_lt [of c] show ?thesis
      by (auto simp: appendEscapedRune_def IsPrint_def)
  qed
qed

lemma unquote_rune:
  assumes "DecodeRune s = (r, w)" and "\<not> (w = 1 \<and> r = RuneError)" and "s \<noteq> []"
    and hd: "128 \<le> (of_char (hd s) :: nat)"
  shows "unquote_loop (appendEscapedRune is_print r @ t) = map_option ((@) (take w s)) (unquote_loop t)"
proof -
  from DecodeRune_valid [OF assms] have enc: "AppendRune r = take w s" "ValidRune r" "128 \<le> r"
    and dec: "\<And>t. DecodeRune (take w s @ t) = (r, w)" by auto
  have w: "0 < w" "w \<le> length s" using DecodeRune_width [OF assms(3)] assms(1) by auto
  show ?thesis
  proof (cases "IsPrint is_print r")
    case True
    obtain c s' where ts: "take w s = c # s'" and c: "c = hd s" using w assms(3) by (cases s; cases w) auto
    have "UnquoteChar (take w s @ t) = Some (r, True, drop w (take w s @ t))"
      using dec [of t] hd c ts by (auto simp: UnquoteChar_def)
    moreover have "c \<noteq> CHR 0x22" "c \<noteq> CHR 0x0A" using hd c by auto
    moreover have "length (c # s') = w" using w(2) unfolding ts [symmetric] by simp
    then have "drop w (c # s' @ t) = t" by (metis append_Cons append_eq_conv_conj)
    ultimately have "unquote_loop (take w s @ t) = map_option ((@) (AppendRune r)) (unquote_loop t)"
      using enc(3) by (subst unquote_loop.simps) (simp add: ts)
    with True enc show ?thesis by (simp add: appendEscapedRune_def)
  next
    case False
    have "escape_letter r = None" using enc(3) by (auto simp: escape_letter_def)
    then have "appendEscapedRune is_print r =
        (if r < 65536 then [CHR 0x5C, CHR ''u''] @ hex 4 r else [CHR 0x5C, CHR ''U''] @ hex 8 r)"
      using False enc by (simp add: appendEscapedRune_def)
    then show ?thesis using unquote_u [OF enc(2,3), of t] by (simp only: enc(1) append_assoc split: if_split) blast
  qed
qed

lemma unquote_piece:
  assumes "s \<noteq> []"
  shows "unquote_loop (fst (quote_piece is_print s) @ t) =
    map_option ((@) (take (snd (quote_piece is_print s)) s)) (unquote_loop t)"
proof (cases "of_char (hd s) < (128 :: nat)")
  case True
  moreover have "take (Suc 0) s = [hd s]" using assms by (cases s) auto
  ultimately show ?thesis
    using unquote_ascii [OF True, of is_print t] by (simp add: quote_piece_def RuneError_def append_one)
next
  case False
  obtain r w where d: "DecodeRune s = (r, w)" by fastforce
  show ?thesis
  proof (cases "w = 1 \<and> r = RuneError")
    case True
    moreover have "take (Suc 0) s = [hd s]" using assms by (cases s) auto
    ultimately show ?thesis
      using unquote_x [OF of_char_lt [of "hd s"], of t] False d by (simp add: quote_piece_def append_one)
  next
    case valid: False
    from unquote_rune [OF d valid assms] False d valid show ?thesis by (auto simp: quote_piece_def)
  qed
qed

lemma quote_piece_width: "s \<noteq> [] \<Longrightarrow> 0 < snd (quote_piece is_print s)"
  using DecodeRune_width [of s] by (auto simp: quote_piece_def split: prod.split)

lemma unquote_quote_loop: "unquote_loop (quote_loop is_print s @ [CHR 0x22]) = Some s"
proof (induction s rule: length_induct)
  case (1 s)
  show ?case
  proof (cases "s = []")
    case True
    then show ?thesis by (simp add: quote_loop.simps unquote_loop.simps)
  next
    case False
    let ?w = "snd (quote_piece is_print s)"
    have "unquote_loop (quote_loop is_print (drop ?w s) @ [CHR 0x22]) = Some (drop ?w s)"
      using 1 quote_piece_width [OF False, of is_print] False by simp
    then show ?thesis
      unfolding quote_loop_piece [OF False] append_assoc unquote_piece [OF False] by simp
  qed
qed

lemma Unquote_Quote: "Unquote (Quote is_print s) = Some s"
  by (simp add: Quote_def Unquote_def unquote_quote_loop)

end
