(* ===== verification/Filter_Lexer.thy ===== *)
theory Filter_Lexer
  imports Strconv
begin

text \<open>
  The lexer of filters (\<open>filterLexer\<close> of \<open>src/filtering/filtering.go\<close>).

  The regular expression of the source is an alternation of eleven groups. The Go library takes
  the leftmost match, and at one place the first alternative that matches. The first alternative
  alone is anchored with \<open>^\<close>, so all others may match after skipping bytes: \<open>find_match\<close> goes
  through the places, \<open>match_here\<close> through the alternatives. Bytes from 128 on, which make up
  the longer runes, match the same classes as any letter. The class \<open>\s\<close> is the five ASCII
  spaces \<open>re_space\<close>.
\<close>

subsection \<open>Tokens\<close>

datatype kind = kindComparator | kindNegate | kindAnd | kindOr | kindDot | kindLParen | kindRParen
  | kindComma | kindString | kindText | kindEnd

record token =
  tk_kind :: kind
  tk_value :: string

record filterLexer =
  lx_input :: string
  lx_next :: "token option"

definition NewLexer :: "string \<Rightarrow> filterLexer" where
  "NewLexer input = \<lparr>lx_input = input, lx_next = None\<rparr>"

subsection \<open>The regular expression\<close>

definition re_space :: "char \<Rightarrow> bool" where
  "re_space c \<longleftrightarrow> c \<in> {CHR 0x09, CHR 0x0A, CHR 0x0C, CHR 0x0D, CHR '' ''}"

text \<open>\<open>[^\s\.,<>=!:\(\)]\<close>\<close>

definition re_text :: "char \<Rightarrow> bool" where
  "re_text c \<longleftrightarrow> \<not> re_space c \<and> c \<notin> {CHR ''.'', CHR '','', CHR ''<'', CHR ''>'', CHR ''='', CHR ''!'',
     CHR '':'', CHR ''('', CHR '')''}"

text \<open>\<open>(?:[^"\\]|\\.)*"\<close>: the length up to and with the first quote that is not escaped. An escaped
  newline does not match.\<close>

fun string_end :: "string \<Rightarrow> nat option" where
  "string_end [] = None"
| "string_end (c # s) =
     (if c = CHR 0x22 then Some 1
      else if c = CHR 0x5C then
        (case s of [] \<Rightarrow> None
         | d # t \<Rightarrow> if d = CHR 0x0A then None else map_option (\<lambda>n. n + 2) (string_end t))
      else map_option Suc (string_end s))"

text \<open>A keyword and one space.\<close>

definition keyword :: "string \<Rightarrow> string \<Rightarrow> bool" where
  "keyword w s \<longleftrightarrow> take (length w) s = w \<and> length w < length s \<and> re_space (s ! length w)"

text \<open>The first alternative that matches at the front of \<open>s\<close>: the number of its group, what the group
  holds, and the length of the whole match. The whole match of group 3 is not used by the lexer.\<close>

definition match_here :: "bool \<Rightarrow> string \<Rightarrow> (nat \<times> string \<times> nat) option" where
  "match_here at_start s =
     (case s of
        [] \<Rightarrow> None
      | c # t \<Rightarrow>
          if at_start \<and> take 2 s \<in> {''<='', ''>='', ''!=''} then Some (1, take 2 s, 2)
          else if at_start \<and> c \<in> {CHR ''<'', CHR ''>'', CHR ''='', CHR '':''} then Some (1, [c], 1)
          else if keyword ''NOT'' s then Some (2, take 4 s, 4)
          else if c = CHR ''-'' \<and> t \<noteq> [] \<and> \<not> re_space (hd t) then Some (3, [c], 2)
          else if keyword ''AND'' s then Some (4, take 4 s, 4)
          else if keyword ''OR'' s then Some (5, take 3 s, 3)
          else if c = CHR ''.'' then Some (6, [c], 1)
          else if c = CHR ''('' then Some (7, [c], 1)
          else if c = CHR '')'' then Some (8, [c], 1)
          else if c = CHR '','' then Some (9, [c], 1)
          else
            (case (if c = CHR 0x22 then string_end t else None) of
               Some n \<Rightarrow> Some (10, take (Suc n) s, Suc n)
             | None \<Rightarrow>
                 let w = takeWhile re_text s
                 in if w = [] then None else Some (11, w, length w)))"

fun find_match :: "bool \<Rightarrow> string \<Rightarrow> (nat \<times> string \<times> nat) option" where
  "find_match at_start s =
     (case match_here at_start s of
        Some m \<Rightarrow> Some m
      | None \<Rightarrow> (case s of [] \<Rightarrow> None | c # t \<Rightarrow> find_match False t))"

declare find_match.simps [simp del]

subsection \<open>The lexer\<close>

datatype filtering_error =
    UnableToLex string
  | Expected kind kind string          \<comment> \<open>expected kind, token\<close>
  | ExpectedSequenceAfterAnd
  | ExpectedTermAfterOr
  | ExpectedSimpleAfterNegation string
  | ExpectedArg string
  | ExpectedValueAfterDot
  | UnquotingString
  | ExpectedExpression
  | OutOfFuel                          \<comment> \<open>of the model; shown not to occur\<close>

definition TrimLeft :: "string \<Rightarrow> string" where
  "TrimLeft s = dropWhile (\<lambda>c. c \<in> {CHR '' '', CHR 0x09, CHR 0x0D, CHR 0x0A}) s"

definition group_kind :: "nat \<Rightarrow> kind" where
  "group_kind g = [kindEnd, kindComparator, kindNegate, kindNegate, kindAnd, kindOr, kindDot, kindLParen,
     kindRParen, kindComma, kindString, kindText] ! g"

text \<open>Groups 2, 4 and 5 hold the keyword and the space after it.\<close>

definition group_value :: "nat \<Rightarrow> string \<Rightarrow> string" where
  "group_value g v = (if g \<in> {2, 4, 5} then butlast v else v)"

definition lexer_Next :: "filterLexer \<Rightarrow> filtering_error + token \<times> filterLexer" where
  "lexer_Next l =
     (case lx_next l of
        Some t \<Rightarrow> Inr (t, l\<lparr>lx_next := None\<rparr>)
      | None \<Rightarrow>
        (let input = TrimLeft (lx_input l); l = l\<lparr>lx_input := input\<rparr>
         in if input = [] then Inr (\<lparr>tk_kind = kindEnd, tk_value = []\<rparr>, l)
            else case find_match True input of
                None \<Rightarrow> Inl (UnableToLex input)
              | Some (g, v, n) \<Rightarrow>
                  Inr (\<lparr>tk_kind = group_kind g, tk_value = group_value g v\<rparr>,
                    l\<lparr>lx_input := drop (if g = 3 then 1 else n) input\<rparr>)))"

definition lexer_Peek :: "filterLexer \<Rightarrow> filtering_error + token \<times> filterLexer" where
  "lexer_Peek l =
     (case lx_next l of
        Some t \<Rightarrow> Inr (t, l)
      | None \<Rightarrow>
        (case lexer_Next l of
           Inl e \<Rightarrow> Inl e
         | Inr (t, l) \<Rightarrow> Inr (t, l\<lparr>lx_next := Some t\<rparr>)))"

subsection \<open>Every token is taken off the input\<close>

lemma string_end_range: "string_end s = Some n \<Longrightarrow> 0 < n \<and> n \<le> length s"
  by (induction s arbitrary: n rule: string_end.induct) (auto split: if_splits list.splits)

lemma match_here_group:
  "match_here b s = Some (g, v, n) \<Longrightarrow> 1 \<le> g \<and> g \<le> 11 \<and> 0 < n \<and> v \<noteq> [] \<and> s \<noteq> []"
  by (auto simp: match_here_def Let_def keyword_def split: list.splits if_splits option.splits)

lemma find_match_group:
  "find_match b s = Some (g, v, n) \<Longrightarrow> 1 \<le> g \<and> g \<le> 11 \<and> 0 < n \<and> v \<noteq> [] \<and> s \<noteq> []"
proof (induction b s rule: find_match.induct)
  case (1 b s)
  from "1.prems" have f: "(case match_here b s of Some m \<Rightarrow> Some m
      | None \<Rightarrow> (case s of [] \<Rightarrow> None | c # t \<Rightarrow> find_match False t)) = Some (g, v, n)"
    by (simp add: find_match.simps [of b s])
  show ?case
  proof (cases "match_here b s")
    case None
    with f 1(1) show ?thesis by (cases s) auto
  next
    case (Some m)
    with f match_here_group [of b s g v n] show ?thesis by simp
  qed
qed

text \<open>What is still to be consumed: the input and a token that was peeked at.\<close>

definition lexer_size :: "filterLexer \<Rightarrow> nat" where
  "lexer_size l = length (lx_input l) +
     (case lx_next l of Some t \<Rightarrow> (if tk_kind t = kindEnd then 0 else 1) | None \<Rightarrow> 0)"

lemma length_TrimLeft: "length (TrimLeft s) \<le> length s"
  unfolding TrimLeft_def by (rule length_dropWhile_le)

lemma group_kind_end: "1 \<le> g \<Longrightarrow> g \<le> 11 \<Longrightarrow> group_kind g \<noteq> kindEnd"
proof -
  assume "1 \<le> g" "g \<le> 11"
  then have "g < 12" "g \<noteq> 0" by simp_all
  then show ?thesis by (auto simp: group_kind_def less_Suc_eq numeral_eq_Suc)
qed

lemma lexer_Next_size:
  assumes "lexer_Next l = Inr (t, l')"
  shows "lx_next l' = None \<and> lexer_size l' + (if tk_kind t = kindEnd then 0 else 1) \<le> lexer_size l"
proof (cases "lx_next l")
  case (Some u)
  with assms show ?thesis by (auto simp: lexer_Next_def lexer_size_def)
next
  case None
  let ?in = "TrimLeft (lx_input l)"
  show ?thesis
  proof (cases "?in = []")
    case True
    with assms None show ?thesis by (auto simp: lexer_Next_def lexer_size_def Let_def)
  next
    case False
    with assms None obtain g v n where f: "find_match True ?in = Some (g, v, n)"
      and t: "t = \<lparr>tk_kind = group_kind g, tk_value = group_value g v\<rparr>"
      and l': "l' = l\<lparr>lx_input := drop (if g = 3 then 1 else n) ?in\<rparr>"
      by (auto simp: lexer_Next_def Let_def split: option.splits)
    from find_match_group [OF f] have "0 < n" "group_kind g \<noteq> kindEnd" using group_kind_end by auto
    moreover define d where "d = (if g = 3 then 1 else n)"
    moreover have "0 < length ?in" using False by simp
    ultimately have d: "0 < d" "0 < length ?in" by simp_all
    then have "length (drop d ?in) + 1 \<le> length (lx_input l)"
      using length_TrimLeft [of "lx_input l"] unfolding length_drop by arith
    with \<open>group_kind g \<noteq> kindEnd\<close> None show ?thesis by (simp add: t l' lexer_size_def d_def)
  qed
qed

lemma lexer_Peek_size:
  assumes "lexer_Peek l = Inr (t, l')"
  shows "lx_next l' = Some t \<and> lexer_size l' \<le> lexer_size l"
proof (cases "lx_next l")
  case None
  with assms obtain l1 where n: "lexer_Next l = Inr (t, l1)" and l': "l' = l1\<lparr>lx_next := Some t\<rparr>"
    by (auto simp: lexer_Peek_def split: sum.splits)
  from lexer_Next_size [OF n] show ?thesis by (auto simp: l' lexer_size_def split: if_splits)
qed (use assms in \<open>auto simp: lexer_Peek_def\<close>)

end
