(* ===== verification/Filter_Parser.thy ===== *)
theory Filter_Parser
  imports Filter_Lexer Filter_Semantics
begin

text \<open>
  The recursive-descent parser of filters (\<open>parser\<close> and \<open>ParseFilter\<close> of
  \<open>src/filtering/filtering.go\<close>). A method of the parser is a function from the state of the lexer to
  an error or a result with the new state; an error ends the parse, so its state is not kept, and
  where the source returns a tree along with an error, the error stands. The nil results of the
  methods are \<open>None\<close>.

  The methods are mutually recursive through parenthesised expressions. Each takes the parser of
  expressions as an argument, and \<open>parser_expression\<close> ties the knot with the depth of nesting as
  fuel; the loops take what is left of the input as fuel. \<open>ParseFilter\<close> provides the length of its
  input, which is enough: it never answers \<open>OutOfFuel\<close>.
\<close>

type_synonym 'a parser = "filterLexer \<Rightarrow> filtering_error + 'a \<times> filterLexer"

definition parse_return :: "'a \<Rightarrow> 'a parser" where
  "parse_return x l = Inr (x, l)"

definition parse_fail :: "filtering_error \<Rightarrow> 'a parser" where
  "parse_fail e l = Inl e"

text \<open>\<open>x, err := p(); if err != nil { return nil, err }\<close>, then the rest.\<close>

definition parse_then :: "'a parser \<Rightarrow> ('a \<Rightarrow> 'b parser) \<Rightarrow> 'b parser" where
  "parse_then p f l = (case p l of Inl e \<Rightarrow> Inl e | Inr (x, l) \<Rightarrow> f x l)"

subsection \<open>Tokens\<close>

definition parser_expect :: "kind \<Rightarrow> unit parser" where
  "parser_expect k = parse_then lexer_Peek (\<lambda>t.
     if tk_kind t \<noteq> k then parse_fail (Expected k (tk_kind t) (tk_value t))
     else parse_then lexer_Next (\<lambda>_. parse_return ()))"

definition parser_accept :: "kind \<Rightarrow> token option parser" where
  "parser_accept k = parse_then lexer_Peek (\<lambda>t.
     if tk_kind t \<noteq> k then parse_return None
     else parse_then lexer_Next (\<lambda>t. parse_return (Some t)))"

subsection \<open>Values and members\<close>

definition parser_value :: "Value option parser" where
  "parser_value = parse_then (parser_accept kindString) (\<lambda>v.
     case v of
       Some v \<Rightarrow> (case Unquote (tk_value v) of
           None \<Rightarrow> parse_fail UnquotingString
         | Some s \<Rightarrow> parse_return (Some (Value True s)))
     | None \<Rightarrow> parse_then (parser_accept kindText) (\<lambda>v.
         case v of
           None \<Rightarrow> parse_return None
         | Some v \<Rightarrow> parse_return (Some (Value False (tk_value v)))))"

text \<open>The loop that \<open>member\<close>, \<open>factor\<close> and \<open>expression\<close> share: while the separator follows, another part
  has to follow it.\<close>

fun sep_loop :: "nat \<Rightarrow> kind \<Rightarrow> filtering_error \<Rightarrow> 'a option parser \<Rightarrow> 'a option list \<Rightarrow> 'a option list parser" where
  "sep_loop 0 sep err p xs = parse_fail OutOfFuel"
| "sep_loop (Suc n) sep err p xs = parse_then (parser_accept sep) (\<lambda>t.
     case t of
       None \<Rightarrow> parse_return xs
     | Some _ \<Rightarrow> parse_then p (\<lambda>x.
         case x of
           None \<Rightarrow> parse_fail err
         | Some x \<Rightarrow> sep_loop n sep err p (xs @ [Some x])))"

definition sep_parts :: "kind \<Rightarrow> filtering_error \<Rightarrow> 'a option parser \<Rightarrow> 'a option list \<Rightarrow> 'a option list parser" where
  "sep_parts sep err p xs l = sep_loop (Suc (lexer_size l)) sep err p xs l"

definition parser_member :: "Member option parser" where
  "parser_member = parse_then parser_value (\<lambda>v.
     case v of
       None \<Rightarrow> parse_return None
     | Some v \<Rightarrow> parse_then (sep_parts kindDot ExpectedValueAfterDot parser_value []) (\<lambda>fs.
         parse_return (Some (Member (Some v) fs))))"

definition parser_comparable :: "Comparable option parser" where
  "parser_comparable = parse_then parser_member (\<lambda>m.
     case m of None \<Rightarrow> parse_return None | Some m \<Rightarrow> parse_return (Some (Comparable (Some m))))"

subsection \<open>Restrictions\<close>

definition parser_composite :: "Expression option parser \<Rightarrow> Expression option parser" where
  "parser_composite expr = parse_then (parser_accept kindLParen) (\<lambda>lparen.
     case lparen of
       None \<Rightarrow> parse_return None
     | Some _ \<Rightarrow> parse_then expr (\<lambda>e.
         case e of
           None \<Rightarrow> parse_fail ExpectedExpression
         | Some e \<Rightarrow> parse_then (parser_expect kindRParen) (\<lambda>_. parse_return (Some e))))"

definition parser_arg :: "Expression option parser \<Rightarrow> Arg option parser" where
  "parser_arg expr = parse_then parser_comparable (\<lambda>c.
     case c of
       Some c \<Rightarrow> parse_return (Some (Arg (Some c) None))
     | None \<Rightarrow> parse_then (parser_composite expr) (\<lambda>e.
         case e of
           Some e \<Rightarrow> parse_return (Some (Arg None (Some e)))
         | None \<Rightarrow> parse_return None))"

definition parser_restriction :: "Expression option parser \<Rightarrow> Restriction option parser" where
  "parser_restriction expr = parse_then parser_comparable (\<lambda>c.
     case c of
       None \<Rightarrow> parse_return None
     | Some c \<Rightarrow> parse_then (parser_accept kindComparator) (\<lambda>op.
         case op of
           None \<Rightarrow> parse_return (Some (Restriction (Some c) [] None))
         | Some op \<Rightarrow> parse_then (parser_arg expr) (\<lambda>a.
             case a of
               None \<Rightarrow> parse_fail (ExpectedArg (tk_value op))
             | Some a \<Rightarrow> parse_return (Some (Restriction (Some c) (tk_value op) (Some a))))))"

definition parser_simple :: "Expression option parser \<Rightarrow> Simple option parser" where
  "parser_simple expr = parse_then (parser_restriction expr) (\<lambda>r.
     case r of
       Some r \<Rightarrow> parse_return (Some (Simple (Some r) None))
     | None \<Rightarrow> parse_then (parser_composite expr) (\<lambda>c.
         case c of
           Some c \<Rightarrow> parse_return (Some (Simple None (Some c)))
         | None \<Rightarrow> parse_return None))"

definition parser_term :: "Expression option parser \<Rightarrow> Term option parser" where
  "parser_term expr = parse_then (parser_accept kindNegate) (\<lambda>n.
     parse_then (parser_simple expr) (\<lambda>s.
       case s of
         None \<Rightarrow> (case n of
             Some n \<Rightarrow> parse_fail (ExpectedSimpleAfterNegation (tk_value n))
           | None \<Rightarrow> parse_return None)
       | Some s \<Rightarrow> parse_return (Some (Term (n \<noteq> None) (Some s)))))"

subsection \<open>Factors, sequences, expressions\<close>

definition parser_factor :: "Expression option parser \<Rightarrow> Factor option parser" where
  "parser_factor expr = parse_then (parser_term expr) (\<lambda>t.
     case t of
       None \<Rightarrow> parse_return None
     | Some t \<Rightarrow> parse_then (sep_parts kindOr ExpectedTermAfterOr (parser_term expr) [Some t]) (\<lambda>ts.
         parse_return (Some (Factor ts))))"

fun sequence_loop :: "nat \<Rightarrow> Expression option parser \<Rightarrow> Factor option list \<Rightarrow> Factor option list parser" where
  "sequence_loop 0 expr fs = parse_fail OutOfFuel"
| "sequence_loop (Suc n) expr fs = parse_then (parser_factor expr) (\<lambda>f.
     case f of
       None \<Rightarrow> parse_return fs
     | Some f \<Rightarrow> sequence_loop n expr (fs @ [Some f]))"

definition parser_sequence :: "Expression option parser \<Rightarrow> Sequence option parser" where
  "parser_sequence expr = parse_then (\<lambda>l. sequence_loop (Suc (lexer_size l)) expr [] l) (\<lambda>fs.
     if fs = [] then parse_return None else parse_return (Some (Sequence fs)))"

definition expression_body :: "Expression option parser \<Rightarrow> Expression option parser" where
  "expression_body expr = parse_then (parser_sequence expr) (\<lambda>s.
     case s of
       None \<Rightarrow> parse_return None
     | Some s \<Rightarrow> parse_then (sep_parts kindAnd ExpectedSequenceAfterAnd (parser_sequence expr) [Some s]) (\<lambda>ss.
         parse_return (Some (Expression ss))))"

fun parser_expression :: "nat \<Rightarrow> Expression option parser" where
  "parser_expression 0 = parse_fail OutOfFuel"
| "parser_expression (Suc n) = expression_body (parser_expression n)"

definition parser_filter :: "nat \<Rightarrow> Filter parser" where
  "parser_filter fuel = parse_then (parser_accept kindEnd) (\<lambda>t.
     case t of
       Some _ \<Rightarrow> parse_return (Filter None)
     | None \<Rightarrow> parse_then (parser_expression fuel) (\<lambda>e.
         parse_then (parser_expect kindEnd) (\<lambda>_. parse_return (Filter e))))"

definition ParseFilter :: "string \<Rightarrow> filtering_error + Filter" where
  "ParseFilter input =
     (case parser_filter (Suc (length input)) (NewLexer input) of
        Inl e \<Rightarrow> Inl e
      | Inr (f, _) \<Rightarrow> Inr f)"

subsection \<open>Reasoning about parsers\<close>

text \<open>From the state \<open>l\<close> the parser does not run out of fuel, and a result satisfies \<open>Q\<close>.\<close>

definition parses :: "'a parser \<Rightarrow> filterLexer \<Rightarrow> ('a \<Rightarrow> filterLexer \<Rightarrow> bool) \<Rightarrow> bool" where
  "parses p l Q \<longleftrightarrow> (case p l of Inl e \<Rightarrow> e \<noteq> OutOfFuel | Inr (x, l') \<Rightarrow> Q x l')"

lemma parses_return [simp]: "parses (parse_return x) l Q \<longleftrightarrow> Q x l"
  by (simp add: parses_def parse_return_def)

lemma parses_fail [simp]: "parses (parse_fail e) l Q \<longleftrightarrow> e \<noteq> OutOfFuel"
  by (simp add: parses_def parse_fail_def)

lemma parses_then:
  "parses p l Q \<Longrightarrow> (\<And>x l'. Q x l' \<Longrightarrow> parses (f x) l' S) \<Longrightarrow> parses (parse_then p f) l S"
proof (cases "p l")
  case (Inr q)
  assume p: "parses p l Q" and f: "\<And>x l'. Q x l' \<Longrightarrow> parses (f x) l' S"
  obtain x l' where q: "p l = Inr (x, l')" using Inr by (cases q) auto
  with p have "Q x l'" by (simp add: parses_def)
  from f [OF this] q show ?thesis by (simp add: parses_def parse_then_def)
qed (auto simp: parses_def parse_then_def)

lemma parses_mono: "parses p l Q \<Longrightarrow> (\<And>x l'. Q x l' \<Longrightarrow> S x l') \<Longrightarrow> parses p l S"
  by (auto simp: parses_def split: sum.splits)

lemma parses_state: "parses (p l) l Q \<Longrightarrow> parses (\<lambda>l. p l l) l Q"
  by (simp add: parses_def)

text \<open>The state of the lexer: a comparator that was peeked at is not empty. A result other than nil has
  consumed a token.\<close>

definition lexer_ok :: "filterLexer \<Rightarrow> bool" where
  "lexer_ok l \<longleftrightarrow> (\<forall>t. lx_next l = Some t \<and> tk_kind t = kindComparator \<longrightarrow> tk_value t \<noteq> [])"

definition consumes :: "('a \<Rightarrow> bool) \<Rightarrow> filterLexer \<Rightarrow> 'a option \<Rightarrow> filterLexer \<Rightarrow> bool" where
  "consumes W l x l' \<longleftrightarrow> lexer_ok l' \<and>
     (case x of None \<Rightarrow> lexer_size l' \<le> lexer_size l | Some v \<Rightarrow> W v \<and> lexer_size l' < lexer_size l)"

definition within :: "('a \<Rightarrow> bool) \<Rightarrow> filterLexer \<Rightarrow> 'a \<Rightarrow> filterLexer \<Rightarrow> bool" where
  "within W l x l' \<longleftrightarrow> lexer_ok l' \<and> W x \<and> lexer_size l' \<le> lexer_size l"

lemma lexer_Next_token:
  assumes "lexer_ok l" and "lexer_Next l = Inr (t, l')"
  shows "lexer_ok l' \<and> (tk_kind t = kindComparator \<longrightarrow> tk_value t \<noteq> [])"
proof -
  have "group_value g v \<noteq> []" if "v \<noteq> []" "group_kind g = kindComparator" "1 \<le> g" "g \<le> 11" for g v
  proof -
    have "g \<notin> {2, 4, 5}" using that(2) by (auto simp: group_kind_def)
    with that(1) show ?thesis by (simp add: group_value_def)
  qed
  with assms show ?thesis
    by (auto simp: lexer_Next_def lexer_ok_def Let_def split: option.splits if_splits prod.splits
        dest!: find_match_group)
qed

lemma lexer_fuel: "lexer_Next l \<noteq> Inl OutOfFuel" "lexer_Peek l \<noteq> Inl OutOfFuel"
proof -
  show "lexer_Next l \<noteq> Inl OutOfFuel"
    by (auto simp: lexer_Next_def Let_def split: option.splits prod.splits)
  then show "lexer_Peek l \<noteq> Inl OutOfFuel"
    by (auto simp: lexer_Peek_def split: option.splits sum.splits)
qed

lemma accept_spec:
  assumes ok: "lexer_ok l"
  shows "parses (parser_accept k) l (\<lambda>x l'. lexer_ok l' \<and>
    (case x of None \<Rightarrow> lexer_size l' \<le> lexer_size l
     | Some t \<Rightarrow> tk_kind t = k \<and> (k = kindComparator \<longrightarrow> tk_value t \<noteq> []) \<and>
         lexer_size l' \<le> lexer_size l \<and> (k \<noteq> kindEnd \<longrightarrow> lexer_size l' < lexer_size l)))"
proof (cases "lexer_Peek l")
  case (Inl e)
  then show ?thesis using lexer_fuel(2) [of l] by (auto simp: parses_def parser_accept_def parse_then_def)
next
  case (Inr q)
  then obtain t l1 where p: "lexer_Peek l = Inr (t, l1)" by (cases q) auto
  from lexer_Peek_size [OF p] have n: "lx_next l1 = Some t" and s: "lexer_size l1 \<le> lexer_size l" by auto
  have ok1: "lexer_ok l1"
  proof (cases "lx_next l")
    case None
    with p obtain l2 where "lexer_Next l = Inr (t, l2)" "l1 = l2\<lparr>lx_next := Some t\<rparr>"
      by (auto simp: lexer_Peek_def split: sum.splits)
    with lexer_Next_token [OF ok] show ?thesis by (auto simp: lexer_ok_def)
  next
    case (Some u)
    with p ok show ?thesis by (auto simp: lexer_Peek_def)
  qed
  have "lexer_Next l1 = Inr (t, l1\<lparr>lx_next := None\<rparr>)" using n by (simp add: lexer_Next_def)
  moreover have "tk_kind t = kindComparator \<longrightarrow> tk_value t \<noteq> []" using ok1 n by (simp add: lexer_ok_def)
  ultimately show ?thesis using p n s ok1
    by (auto simp: parses_def parser_accept_def parse_then_def parse_return_def lexer_size_def lexer_ok_def)
qed

text \<open>Accepting a token other than the end, as a result.\<close>

lemma accept_consumes:
  "lexer_ok l \<Longrightarrow> k \<noteq> kindEnd \<Longrightarrow>
     parses (parser_accept k) l (consumes (\<lambda>t. k = kindComparator \<longrightarrow> tk_value t \<noteq> []) l)"
  by (rule parses_mono [OF accept_spec]) (auto simp: consumes_def split: option.splits)

lemma expect_spec:
  assumes "lexer_ok l"
  shows "parses (parser_expect k) l (within (\<lambda>_. True) l)"
proof -
  from accept_spec [OF assms, of k] have "parses (parser_accept k) l (\<lambda>x l'. lexer_ok l' \<and> lexer_size l' \<le> lexer_size l)"
    by (rule parses_mono) (auto split: option.splits)
  then show ?thesis
    by (auto simp: parses_def parser_expect_def parser_accept_def parse_then_def parse_return_def
        parse_fail_def within_def split: sum.splits if_splits)
qed

text \<open>The shapes of the methods: a nil result ends the method, any other is used.\<close>

lemma parses_consumes:
  assumes "parses p l (consumes W l)"
    and "\<And>l'. lexer_ok l' \<Longrightarrow> lexer_size l' \<le> lexer_size l \<Longrightarrow> parses (f None) l' S"
    and "\<And>v l'. lexer_ok l' \<Longrightarrow> lexer_size l' < lexer_size l \<Longrightarrow> W v \<Longrightarrow> parses (f (Some v)) l' S"
  shows "parses (parse_then p f) l S"
proof (rule parses_then [OF assms(1)])
  fix x l' assume "consumes W l x l'"
  then show "parses (f x) l' S" using assms(2,3) by (cases x) (auto simp: consumes_def)
qed

lemma consumes_less: "lexer_size l' < lexer_size l \<Longrightarrow> within W l' v l'' \<Longrightarrow> consumes W l (Some v) l''"
  by (auto simp: consumes_def within_def)

lemma consumes_le: "lexer_size l' \<le> lexer_size l \<Longrightarrow> consumes W l' x l'' \<Longrightarrow> consumes W l x l''"
  by (auto simp: consumes_def split: option.splits)

lemma consumes_simps [simp]:
  "consumes W l None l' \<longleftrightarrow> lexer_ok l' \<and> lexer_size l' \<le> lexer_size l"
  "consumes W l (Some v) l' \<longleftrightarrow> lexer_ok l' \<and> W v \<and> lexer_size l' < lexer_size l"
  by (auto simp: consumes_def)

lemma value_spec: "lexer_ok l \<Longrightarrow> parses parser_value l (consumes (\<lambda>_. True) l)"
  unfolding parser_value_def
proof (rule parses_consumes [OF accept_consumes], assumption)
  fix l1 assume l1: "lexer_ok l1" "lexer_size l1 \<le> lexer_size l"
  show "parses (case None of Some v \<Rightarrow> (case Unquote (tk_value v) of None \<Rightarrow> parse_fail UnquotingString
        | Some s \<Rightarrow> parse_return (Some (Value True s)))
      | None \<Rightarrow> parse_then (parser_accept kindText) (\<lambda>v. case v of None \<Rightarrow> parse_return None
        | Some v \<Rightarrow> parse_return (Some (Value False (tk_value v))))) l1 (consumes (\<lambda>_. True) l)"
    unfolding option.case
    by (rule parses_consumes [OF accept_consumes [OF l1(1)]]) (use l1 in auto)
qed (auto split: option.splits)

text \<open>The loop ends, and appends well-formed parts.\<close>

lemma sep_loop_spec:
  assumes sep: "sep \<noteq> kindEnd" "err \<noteq> OutOfFuel"
    and p: "\<And>l. lexer_ok l \<Longrightarrow> lexer_size l < N \<Longrightarrow> parses p l (consumes (\<lambda>x. W (Some x)) l)"
  shows "lexer_ok l \<Longrightarrow> lexer_size l < n \<Longrightarrow> lexer_size l \<le> N \<Longrightarrow> list_all W xs \<Longrightarrow>
     parses (sep_loop n sep err p xs) l (within (\<lambda>ys. list_all W ys \<and> (xs \<noteq> [] \<longrightarrow> ys \<noteq> [])) l)"
proof (induction n arbitrary: xs l)
  case (Suc n)
  show ?case unfolding sep_loop.simps
  proof (rule parses_consumes [OF accept_consumes [OF Suc.prems(1) sep(1)]])
    fix t l1 assume l1: "lexer_ok l1" "lexer_size l1 < lexer_size l"
    then have "lexer_size l1 < N" using Suc.prems(3) by simp
    note px = p [OF l1(1) this]
    show "parses (case Some t of None \<Rightarrow> parse_return xs | Some _ \<Rightarrow> parse_then p (\<lambda>x.
        case x of None \<Rightarrow> parse_fail err | Some x \<Rightarrow> sep_loop n sep err p (xs @ [Some x])))
        l1 (within (\<lambda>ys. list_all W ys \<and> (xs \<noteq> [] \<longrightarrow> ys \<noteq> [])) l)"
      unfolding option.case
    proof (rule parses_consumes [OF px])
      fix v l2 assume l2: "lexer_ok l2" "lexer_size l2 < lexer_size l1" and v: "W (Some v)"
      have "parses (sep_loop n sep err p (xs @ [Some v])) l2
          (within (\<lambda>ys. list_all W ys \<and> (xs @ [Some v] \<noteq> [] \<longrightarrow> ys \<noteq> [])) l2)"
        by (rule Suc.IH) (use Suc.prems l1 l2 v in auto)
      then show "parses (case Some v of None \<Rightarrow> parse_fail err
          | Some v \<Rightarrow> sep_loop n sep err p (xs @ [Some v])) l2
          (within (\<lambda>ys. list_all W ys \<and> (xs \<noteq> [] \<longrightarrow> ys \<noteq> [])) l)"
        unfolding option.case by (rule parses_mono) (use l1 l2 in \<open>auto simp: within_def\<close>)
    qed (use sep in simp)
  qed (use Suc.prems in \<open>auto simp: within_def\<close>)
qed simp

lemma sep_parts_spec:
  assumes "sep \<noteq> kindEnd" and "err \<noteq> OutOfFuel"
    and "\<And>l. lexer_ok l \<Longrightarrow> lexer_size l < N \<Longrightarrow> parses p l (consumes (\<lambda>x. W (Some x)) l)"
    and "lexer_ok l" and "lexer_size l \<le> N" and "list_all W xs"
  shows "parses (sep_parts sep err p xs) l (within (\<lambda>ys. list_all W ys \<and> (xs \<noteq> [] \<longrightarrow> ys \<noteq> [])) l)"
  using sep_loop_spec [where p = p and W = W and n = "Suc (lexer_size l)" and xs = xs, OF assms(1-4)] assms(5,6)
  by (simp add: parses_def sep_parts_def)

lemma member_spec: "lexer_ok l \<Longrightarrow> parses parser_member l (consumes (\<lambda>m. wf_Member (Some m)) l)"
  unfolding parser_member_def
proof (rule parses_consumes [OF value_spec], assumption)
  fix v l1 assume l1: "lexer_ok l1" "lexer_size l1 < lexer_size l"
  have V: "parses parser_value l (consumes (\<lambda>x. wf_Value (Some x)) l)" if "lexer_ok l" for l
    by (rule parses_mono [OF value_spec [OF that]]) (auto simp: consumes_def wf_Value_def split: option.splits)
  have "parses (sep_parts kindDot ExpectedValueAfterDot parser_value []) l1
      (within (\<lambda>ys. list_all wf_Value ys \<and> ([] \<noteq> ([] :: Value option list) \<longrightarrow> ys \<noteq> [])) l1)"
    by (rule sep_parts_spec [where N = "lexer_size l1"]) (simp_all add: l1 V)
  then show "parses (case Some v of None \<Rightarrow> parse_return None | Some v \<Rightarrow>
      parse_then (sep_parts kindDot ExpectedValueAfterDot parser_value []) (\<lambda>fs. parse_return (Some (Member (Some v) fs))))
      l1 (consumes (\<lambda>m. wf_Member (Some m)) l)"
    unfolding option.case by (rule parses_then) (use l1 in \<open>auto simp: within_def wf_Value_def\<close>)
qed simp

lemma comparable_spec:
  "lexer_ok l \<Longrightarrow> parses parser_comparable l (consumes (\<lambda>c. wf_Comparable (Some c)) l)"
  unfolding parser_comparable_def by (rule parses_consumes [OF member_spec]) auto

subsection \<open>The recursive methods\<close>

text \<open>\<open>good_expr N expr\<close>: the parser of expressions behaves on every state smaller than \<open>N\<close>.\<close>

definition good_expr :: "nat \<Rightarrow> Expression option parser \<Rightarrow> bool" where
  "good_expr N expr \<longleftrightarrow> (\<forall>l. lexer_ok l \<and> lexer_size l < N \<longrightarrow>
     parses expr l (consumes (\<lambda>e. wf_Expression (Some e)) l))"

lemma good_exprD:
  "good_expr N expr \<Longrightarrow> lexer_ok l \<Longrightarrow> lexer_size l < N \<Longrightarrow>
     parses expr l (consumes (\<lambda>e. wf_Expression (Some e)) l)"
  by (simp add: good_expr_def)

lemma composite_spec:
  assumes E: "good_expr N expr" and l: "lexer_ok l" "lexer_size l \<le> N"
  shows "parses (parser_composite expr) l (consumes (\<lambda>e. wf_Expression (Some e)) l)"
  unfolding parser_composite_def
proof (rule parses_consumes [OF accept_consumes [OF l(1)]])
  fix t l1 assume l1: "lexer_ok l1" "lexer_size l1 < lexer_size l"
  show "parses (case Some t of None \<Rightarrow> parse_return None | Some _ \<Rightarrow> parse_then expr (\<lambda>e. case e of
      None \<Rightarrow> parse_fail ExpectedExpression
      | Some e \<Rightarrow> parse_then (parser_expect kindRParen) (\<lambda>_. parse_return (Some e)))) l1
      (consumes (\<lambda>e. wf_Expression (Some e)) l)"
    unfolding option.case
  proof (rule parses_consumes [OF good_exprD [OF E l1(1)]])
    fix e l2 assume l2: "lexer_ok l2" "lexer_size l2 < lexer_size l1" and e: "wf_Expression (Some e)"
    show "parses (case Some e of None \<Rightarrow> parse_fail ExpectedExpression
        | Some e \<Rightarrow> parse_then (parser_expect kindRParen) (\<lambda>_. parse_return (Some e))) l2
        (consumes (\<lambda>e. wf_Expression (Some e)) l)"
      unfolding option.case
      by (rule parses_then [OF expect_spec [OF l2(1)]]) (use l1 l2 e in \<open>auto simp: within_def\<close>)
  qed (use l1 l(2) in auto)
qed auto

lemma arg_spec:
  assumes E: "good_expr N expr" and l: "lexer_ok l" "lexer_size l \<le> N"
  shows "parses (parser_arg expr) l (consumes (\<lambda>a. wf_Arg (Some a)) l)"
  unfolding parser_arg_def
proof (rule parses_consumes [OF comparable_spec [OF l(1)]])
  fix l1 assume l1: "lexer_ok l1" "lexer_size l1 \<le> lexer_size l"
  show "parses (case None of Some c \<Rightarrow> parse_return (Some (Arg (Some c) None))
      | None \<Rightarrow> parse_then (parser_composite expr) (\<lambda>e. case e of Some e \<Rightarrow> parse_return (Some (Arg None (Some e)))
        | None \<Rightarrow> parse_return None)) l1 (consumes (\<lambda>a. wf_Arg (Some a)) l)"
    unfolding option.case
    by (rule parses_consumes [OF composite_spec [OF E l1(1)]]) (use l1 l(2) in auto)
qed auto

lemma restriction_spec:
  assumes E: "good_expr N expr" and l: "lexer_ok l" "lexer_size l \<le> N"
  shows "parses (parser_restriction expr) l (consumes (\<lambda>r. wf_Restriction (Some r)) l)"
  unfolding parser_restriction_def
proof (rule parses_consumes [OF comparable_spec [OF l(1)]])
  fix c l1 assume l1: "lexer_ok l1" "lexer_size l1 < lexer_size l" and c: "wf_Comparable (Some c)"
  show "parses (case Some c of None \<Rightarrow> parse_return None | Some c \<Rightarrow>
      parse_then (parser_accept kindComparator) (\<lambda>op. case op of
        None \<Rightarrow> parse_return (Some (Restriction (Some c) [] None))
      | Some op \<Rightarrow> parse_then (parser_arg expr) (\<lambda>a. case a of
          None \<Rightarrow> parse_fail (ExpectedArg (tk_value op))
        | Some a \<Rightarrow> parse_return (Some (Restriction (Some c) (tk_value op) (Some a)))))) l1
      (consumes (\<lambda>r. wf_Restriction (Some r)) l)"
    unfolding option.case
  proof (rule parses_consumes [OF accept_consumes [OF l1(1)]])
    fix op l2 assume l2: "lexer_ok l2" "lexer_size l2 < lexer_size l1"
      and op: "kindComparator = kindComparator \<longrightarrow> tk_value op \<noteq> []"
    show "parses (case Some op of None \<Rightarrow> parse_return (Some (Restriction (Some c) [] None))
      | Some op \<Rightarrow> parse_then (parser_arg expr) (\<lambda>a. case a of
          None \<Rightarrow> parse_fail (ExpectedArg (tk_value op))
        | Some a \<Rightarrow> parse_return (Some (Restriction (Some c) (tk_value op) (Some a))))) l2
      (consumes (\<lambda>r. wf_Restriction (Some r)) l)"
      unfolding option.case
      by (rule parses_consumes [OF arg_spec [OF E l2(1)]]) (use l l1 l2 c op in auto)
  qed (use l1 c in auto)
qed auto

lemma simple_spec:
  assumes E: "good_expr N expr" and l: "lexer_ok l" "lexer_size l \<le> N"
  shows "parses (parser_simple expr) l (consumes (\<lambda>s. wf_Simple (Some s)) l)"
  unfolding parser_simple_def
proof (rule parses_consumes [OF restriction_spec [OF E l]])
  fix l1 assume l1: "lexer_ok l1" "lexer_size l1 \<le> lexer_size l"
  show "parses (case None of Some r \<Rightarrow> parse_return (Some (Simple (Some r) None))
      | None \<Rightarrow> parse_then (parser_composite expr) (\<lambda>c. case c of Some c \<Rightarrow> parse_return (Some (Simple None (Some c)))
        | None \<Rightarrow> parse_return None)) l1 (consumes (\<lambda>s. wf_Simple (Some s)) l)"
    unfolding option.case
    by (rule parses_consumes [OF composite_spec [OF E l1(1)]]) (use l1 l(2) in auto)
qed auto

lemma term_spec:
  assumes E: "good_expr N expr" and l: "lexer_ok l" "lexer_size l \<le> N"
  shows "parses (parser_term expr) l (consumes (\<lambda>t. wf_Term (Some t)) l)"
  unfolding parser_term_def
proof (rule parses_then [OF accept_consumes [OF l(1)]])
  fix n l1 assume n: "consumes (\<lambda>t. kindNegate = kindComparator \<longrightarrow> tk_value t \<noteq> []) l n l1"
  then have l1: "lexer_ok l1" "lexer_size l1 \<le> lexer_size l" by (cases n; simp)+
  then show "parses (parse_then (parser_simple expr) (\<lambda>s. case s of
      None \<Rightarrow> (case n of Some n \<Rightarrow> parse_fail (ExpectedSimpleAfterNegation (tk_value n))
        | None \<Rightarrow> parse_return None)
      | Some s \<Rightarrow> parse_return (Some (Term (n \<noteq> None) (Some s))))) l1 (consumes (\<lambda>t. wf_Term (Some t)) l)"
    by (intro parses_consumes [OF simple_spec [OF E]]) (use l in \<open>auto split: option.splits\<close>)
qed simp

lemma factor_spec:
  assumes E: "good_expr N expr" and l: "lexer_ok l" "lexer_size l \<le> N"
  shows "parses (parser_factor expr) l (consumes (\<lambda>f. wf_Factor (Some f)) l)"
  unfolding parser_factor_def
proof (rule parses_consumes [OF term_spec [OF E l]])
  fix t l1 assume l1: "lexer_ok l1" "lexer_size l1 < lexer_size l" and t: "wf_Term (Some t)"
  have "parses (sep_parts kindOr ExpectedTermAfterOr (parser_term expr) [Some t]) l1
      (within (\<lambda>ys. list_all wf_Term ys \<and> ([Some t] \<noteq> [] \<longrightarrow> ys \<noteq> [])) l1)"
    by (rule sep_parts_spec [where N = N]) (use term_spec [OF E] l l1 t in simp_all)
  then show "parses (case Some t of None \<Rightarrow> parse_return None | Some t \<Rightarrow>
      parse_then (sep_parts kindOr ExpectedTermAfterOr (parser_term expr) [Some t])
        (\<lambda>ts. parse_return (Some (Factor ts)))) l1 (consumes (\<lambda>f. wf_Factor (Some f)) l)"
    unfolding option.case by (rule parses_then) (use l1 in \<open>auto simp: within_def\<close>)
qed simp

lemma sequence_loop_spec:
  assumes E: "good_expr N expr"
  shows "lexer_ok l \<Longrightarrow> lexer_size l < n \<Longrightarrow> lexer_size l \<le> N \<Longrightarrow> list_all wf_Factor fs \<Longrightarrow>
     parses (sequence_loop n expr fs) l (\<lambda>gs l'. within (list_all wf_Factor) l gs l' \<and>
       (fs = [] \<and> gs \<noteq> [] \<longrightarrow> lexer_size l' < lexer_size l))"
proof (induction n arbitrary: fs l)
  case (Suc n)
  show ?case unfolding sequence_loop.simps
  proof (rule parses_consumes [OF factor_spec [OF E Suc.prems(1,3)]])
    fix f l1 assume l1: "lexer_ok l1" "lexer_size l1 < lexer_size l" and f: "wf_Factor (Some f)"
    have "parses (sequence_loop n expr (fs @ [Some f])) l1 (\<lambda>gs l'. within (list_all wf_Factor) l1 gs l' \<and>
        (fs @ [Some f] = [] \<and> gs \<noteq> [] \<longrightarrow> lexer_size l' < lexer_size l1))"
      by (rule Suc.IH) (use Suc.prems l1 f in auto)
    then show "parses (case Some f of None \<Rightarrow> parse_return fs | Some f \<Rightarrow> sequence_loop n expr (fs @ [Some f])) l1
        (\<lambda>gs l'. within (list_all wf_Factor) l gs l' \<and> (fs = [] \<and> gs \<noteq> [] \<longrightarrow> lexer_size l' < lexer_size l))"
      unfolding option.case by (rule parses_mono) (use l1 in \<open>auto simp: within_def\<close>)
  qed (use Suc.prems in \<open>auto simp: within_def\<close>)
qed simp

lemma sequence_spec:
  assumes E: "good_expr N expr" and l: "lexer_ok l" "lexer_size l \<le> N"
  shows "parses (parser_sequence expr) l (consumes (\<lambda>s. wf_Sequence (Some s)) l)"
  unfolding parser_sequence_def
proof (rule parses_then)
  show "parses (\<lambda>l. sequence_loop (Suc (lexer_size l)) expr [] l) l (\<lambda>gs l'. within (list_all wf_Factor) l gs l' \<and>
      ([] = ([] :: Factor option list) \<and> gs \<noteq> [] \<longrightarrow> lexer_size l' < lexer_size l))"
    by (rule parses_state) (rule sequence_loop_spec [OF E]; simp add: l)
qed (auto simp: within_def)

lemma expression_body_spec:
  assumes E: "good_expr N expr" and l: "lexer_ok l" "lexer_size l \<le> N"
  shows "parses (expression_body expr) l (consumes (\<lambda>e. wf_Expression (Some e)) l)"
  unfolding expression_body_def
proof (rule parses_consumes [OF sequence_spec [OF E l]])
  fix s l1 assume l1: "lexer_ok l1" "lexer_size l1 < lexer_size l" and s: "wf_Sequence (Some s)"
  have "parses (sep_parts kindAnd ExpectedSequenceAfterAnd (parser_sequence expr) [Some s]) l1
      (within (\<lambda>ys. list_all wf_Sequence ys \<and> ([Some s] \<noteq> [] \<longrightarrow> ys \<noteq> [])) l1)"
    by (rule sep_parts_spec [where N = N]) (use sequence_spec [OF E] l l1 s in simp_all)
  then show "parses (case Some s of None \<Rightarrow> parse_return None | Some s \<Rightarrow>
      parse_then (sep_parts kindAnd ExpectedSequenceAfterAnd (parser_sequence expr) [Some s])
        (\<lambda>ss. parse_return (Some (Expression ss)))) l1 (consumes (\<lambda>e. wf_Expression (Some e)) l)"
    unfolding option.case by (rule parses_then) (use l1 in \<open>auto simp: within_def\<close>)
qed simp

text \<open>Fuel beyond the size of the state is enough.\<close>

lemma expression_good: "good_expr n (parser_expression n)"
proof (induction n)
  case (Suc n)
  show ?case
    unfolding good_expr_def parser_expression.simps using expression_body_spec [OF Suc] by auto
qed (simp add: good_expr_def)

lemma filter_spec:
  assumes "lexer_ok l" and "lexer_size l < n"
  shows "parses (parser_filter n) l (within wf_Filter l)"
  unfolding parser_filter_def
proof (rule parses_then [OF accept_spec [OF assms(1)]])
  fix x l1
  assume x: "lexer_ok l1 \<and> (case x of None \<Rightarrow> lexer_size l1 \<le> lexer_size l
     | Some t \<Rightarrow> tk_kind t = kindEnd \<and> (kindEnd = kindComparator \<longrightarrow> tk_value t \<noteq> []) \<and>
         lexer_size l1 \<le> lexer_size l \<and> (kindEnd \<noteq> kindEnd \<longrightarrow> lexer_size l1 < lexer_size l))"
  then have l1: "lexer_ok l1" "lexer_size l1 \<le> lexer_size l" by (auto split: option.splits)
  then have e: "parses (parser_expression n) l1 (consumes (\<lambda>e. wf_Expression (Some e)) l1)"
    using good_exprD [OF expression_good] assms(2) by simp
  have "parses (parse_then (parser_expression n) (\<lambda>e. parse_then (parser_expect kindEnd)
      (\<lambda>_. parse_return (Filter e)))) l1 (within wf_Filter l)"
  proof (rule parses_then [OF e])
    fix e l2 assume "consumes (\<lambda>e. wf_Expression (Some e)) l1 e l2"
    then have l2: "lexer_ok l2" "lexer_size l2 \<le> lexer_size l1" and "wf_Filter (Filter e)"
      by (cases e; simp add: wf_Filter_def)+
    then show "parses (parse_then (parser_expect kindEnd) (\<lambda>_. parse_return (Filter e))) l2 (within wf_Filter l)"
      by (intro parses_then [OF expect_spec]) (use l1 in \<open>auto simp: within_def\<close>)
  qed
  with l1 show "parses (case x of Some _ \<Rightarrow> parse_return (Filter None)
      | None \<Rightarrow> parse_then (parser_expression n) (\<lambda>e. parse_then (parser_expect kindEnd)
          (\<lambda>_. parse_return (Filter e)))) l1 (within wf_Filter l)"
    by (auto simp: within_def wf_Filter_def split: option.splits)
qed

lemma ParseFilter_spec:
  "ParseFilter s \<noteq> Inl OutOfFuel" "ParseFilter s = Inr f \<Longrightarrow> wf_Filter f"
proof -
  have "parses (parser_filter (Suc (length s))) (NewLexer s) (within wf_Filter (NewLexer s))"
    by (rule filter_spec) (simp_all add: NewLexer_def lexer_ok_def lexer_size_def)
  then show "ParseFilter s \<noteq> Inl OutOfFuel" "ParseFilter s = Inr f \<Longrightarrow> wf_Filter f"
    by (auto simp: parses_def ParseFilter_def within_def split: sum.splits)
qed

end
