(* ===== verification/Storage_Rpc.thy ===== *)
theory Storage_Rpc
  imports Storage_Write Filter_Parser
begin

text \<open>
  The calls of the service that write events: \<open>BatchCreateEvents\<close>, \<open>UpdateEvent\<close> and
  \<open>DeleteEvent\<close> of \<open>src/storage.go\<close>, with the rows of \<open>src/schema.go\<close>.

  A call threads the world through its steps: the state \<open>'y\<close> of the YT cluster, which the operations
  of the client change, and the requests that reached the write worker. The client
  (\<open>src/ytclient\<close>), the protobuf encoding of an event, the decoding of wire rows and the UUIDs
  are parameters; an error of theirs is a string. A call ends with a result or with one of the errors
  the source returns. A send on a channel races with the cancellation of the call's context; which
  of them wins is an argument.
\<close>

subsection \<open>Rows\<close>

record EventRow =
  er_ResourceTypeCode :: string
  er_ResourceExternalID :: string
  er_StartTime :: u64
  er_ID :: string
  er_Event :: "u8 list"

record EventRowKey =
  rk_ResourceTypeCode :: string
  rk_ResourceExternalID :: string
  rk_StartTime :: u64
  rk_ID :: string

record EventIndexRowKey =
  ik_ID :: string

text \<open>The slices of rows have elements of any of these types.\<close>

datatype any_row = ARow EventRow | AKey EventRowKey | AIndex EventIndexRowKey

definition eventsTable :: string where
  "eventsTable = ''//home/events''"

definition eventsIdUniqIndexTable :: string where
  "eventsIdUniqIndexTable = ''//home/events_id_uniq_idx''"

subsection \<open>The client and the codecs\<close>

record ('y, 'g, 'r, 'n) yt_client =
  yt_GenerateTimestamp :: "'y \<Rightarrow> (string + u64) \<times> 'y"
  yt_StartTabletTx :: "'y \<Rightarrow> (string + 'g \<times> u64) \<times> 'y"
  yt_CommitTabletTx :: "'g \<Rightarrow> 'y \<Rightarrow> (string + u64) \<times> 'y"
  yt_AbortTabletTx :: "'g \<Rightarrow> 'y \<Rightarrow> (string + unit) \<times> 'y"
  yt_InsertRows :: "'g \<Rightarrow> string \<Rightarrow> any_row list \<Rightarrow> 'y \<Rightarrow> (string + unit) \<times> 'y"
  yt_DeleteRows :: "'g \<Rightarrow> string \<Rightarrow> any_row list \<Rightarrow> 'y \<Rightarrow> (string + unit) \<times> 'y"
  yt_LookupRows :: "string \<Rightarrow> any_row list \<Rightarrow> u64 \<Rightarrow> 'y \<Rightarrow> (string + 'r list \<times> 'n) \<times> 'y"

record ('ts, 'r, 'n) codec =
  cd_marshal :: "'ts event \<Rightarrow> string + u8 list"          \<comment> \<open>\<open>proto.Marshal\<close>\<close>
  cd_unmarshal :: "u8 list \<Rightarrow> string + 'ts event"        \<comment> \<open>\<open>proto.Unmarshal\<close>\<close>
  cd_key :: "'n \<Rightarrow> 'r \<Rightarrow> string + EventRowKey"            \<comment> \<open>\<open>UnmarshalRow\<close> into a key\<close>
  cd_row :: "'n \<Rightarrow> 'r \<Rightarrow> string + EventRow"               \<comment> \<open>\<open>UnmarshalRow\<close> into a row\<close>

subsection \<open>Calls\<close>

datatype rpc_error =
    WriteFail string | StartTxFail string | InsertFail string | CommitFail string
  | LookupFail "string option"          \<comment> \<open>no inner error when the number of rows is wrong\<close>
  | RowUnmarshalFail string | ProtoUnmarshalFail string | ProtoMarshalFail string
  | DeleteFail string | DeleteIdxFail string | InsertEventFail string | InsertEventIdxFail string
  | ListFail string | ListFilterFail filter_error | ParseFail filtering_error
  | ContextDone                         \<comment> \<open>\<open>ctx.Err()\<close>\<close>
  | NilPanic                            \<comment> \<open>a panic: a field of a nil message\<close>
  | ListPanic                           \<comment> \<open>a panic of the listing\<close>

record ('y, 'w) world =
  wd_yt :: 'y
  wd_sent :: "'w list list"

type_synonym ('y, 'w, 'a) call = "('y, 'w) world \<Rightarrow> (rpc_error + 'a) \<times> ('y, 'w) world"

definition call_return :: "'a \<Rightarrow> ('y, 'w, 'a) call" where
  "call_return x w = (Inr x, w)"

definition call_fail :: "rpc_error \<Rightarrow> ('y, 'w, 'a) call" where
  "call_fail e w = (Inl e, w)"

definition call_then :: "('y, 'w, 'a) call \<Rightarrow> ('a \<Rightarrow> ('y, 'w, 'b) call) \<Rightarrow> ('y, 'w, 'b) call" where
  "call_then m f w = (case m w of (Inl e, w) \<Rightarrow> (Inl e, w) | (Inr x, w) \<Rightarrow> f x w)"

text \<open>An operation of the client, and a computation without effect, with the error they become.\<close>

definition client :: "(string \<Rightarrow> rpc_error) \<Rightarrow> ('y \<Rightarrow> (string + 'a) \<times> 'y) \<Rightarrow> ('y, 'w, 'a) call" where
  "client fail op w =
     (case op (wd_yt w) of (r, y) \<Rightarrow>
        (case r of Inl e \<Rightarrow> Inl (fail e) | Inr x \<Rightarrow> Inr x, w\<lparr>wd_yt := y\<rparr>))"

definition lift_error :: "(string \<Rightarrow> rpc_error) \<Rightarrow> string + 'a \<Rightarrow> ('y, 'w, 'a) call" where
  "lift_error fail r = (case r of Inl e \<Rightarrow> call_fail (fail e) | Inr x \<Rightarrow> call_return x)"

text \<open>The two \<open>select\<close> statements after a commit: the write worker takes the request and answers it, or
  the context ends before or after it has taken it.\<close>

datatype write_outcome = Answered | EndedAfterSend | EndedBeforeSend

definition submit :: "write_outcome \<Rightarrow> 'w list \<Rightarrow> ('y, 'w, unit) call" where
  "submit outcome batch w =
     (case outcome of
        Answered \<Rightarrow> (Inr (), w\<lparr>wd_sent := wd_sent w @ [batch]\<rparr>)
      | EndedAfterSend \<Rightarrow> (Inl ContextDone, w\<lparr>wd_sent := wd_sent w @ [batch]\<rparr>)
      | EndedBeforeSend \<Rightarrow> (Inl ContextDone, w))"

lemmas call_defs = call_return_def call_fail_def call_then_def client_def lift_error_def submit_def

subsection \<open>Creating events\<close>

text \<open>\<open>uint64(event.GetStartTime().AsTime().UnixMicro())\<close>\<close>

definition start_micro :: "('ts option \<Rightarrow> go_time) \<Rightarrow> 'ts event \<Rightarrow> u64" where
  "start_micro as_time e = UnixMicro (as_time (GetStartTime (Some e)))"

definition event_row_key :: "('ts option \<Rightarrow> go_time) \<Rightarrow> 'ts event \<Rightarrow> EventRowKey" where
  "event_row_key as_time e =
     \<lparr>rk_ResourceTypeCode = GetTypeCode (GetResource (Some e)),
      rk_ResourceExternalID = GetExternalId (GetResource (Some e)),
      rk_StartTime = start_micro as_time e, rk_ID = GetId (Some e)\<rparr>"

definition event_row :: "('ts option \<Rightarrow> go_time) \<Rightarrow> 'ts event \<Rightarrow> u8 list \<Rightarrow> EventRow" where
  "event_row as_time e bytes =
     \<lparr>er_ResourceTypeCode = GetTypeCode (GetResource (Some e)),
      er_ResourceExternalID = GetExternalId (GetResource (Some e)),
      er_StartTime = start_micro as_time e, er_ID = GetId (Some e), er_Event = bytes\<rparr>"

text \<open>The loop over the requests. A request is the event it carries; a call of \<open>uuid.NewV7\<close> takes the next
  of the given ids. The result is the events, the keys and the rows.\<close>

fun create_loop :: "('ts, 'r, 'n) codec \<Rightarrow> ('ts option \<Rightarrow> go_time) \<Rightarrow> (nat \<Rightarrow> string) \<Rightarrow> nat \<Rightarrow> 'ts event option list \<Rightarrow>
    ('y, 'w, ('ts event \<times> any_row \<times> any_row) list) call" where
  "create_loop K as_time uuids n [] = call_return []"
| "create_loop K as_time uuids n (None # reqs) = call_fail NilPanic"
| "create_loop K as_time uuids n (Some e # reqs) =
     (let event = e\<lparr>ev_Id := uuids n\<rparr>
      in call_then (lift_error WriteFail (cd_marshal K event)) (\<lambda>eventBytes.
         call_then (create_loop K as_time uuids (Suc n) reqs) (\<lambda>rest.
           call_return ((event, AKey (event_row_key as_time event), ARow (event_row as_time event eventBytes)) # rest))))"

text \<open>\<open>InsertRows\<close>, and on an error \<open>AbortTabletTx\<close>, whose own error is dropped.\<close>

definition insert_or_abort :: "('y, 'g, 'r, 'n) yt_client \<Rightarrow> 'g \<Rightarrow> string \<Rightarrow> any_row list \<Rightarrow> ('y, 'w, unit) call" where
  "insert_or_abort C tx path rows w =
     (case client InsertFail (yt_InsertRows C tx path rows) w of
        (Inl e, w) \<Rightarrow> (Inl e, w\<lparr>wd_yt := snd (yt_AbortTabletTx C tx (wd_yt w))\<rparr>)
      | (Inr x, w) \<Rightarrow> (Inr x, w))"

definition BatchCreateEvents ::
  "('y, 'g, 'r, 'n) yt_client \<Rightarrow> ('ts, 'r, 'n) codec \<Rightarrow> 'f bloom \<Rightarrow> ('ts option \<Rightarrow> go_time) \<Rightarrow> (nat \<Rightarrow> string) \<Rightarrow>
   write_outcome \<Rightarrow> 'ts event option list \<Rightarrow> ('y, ('ts, 'f) writeItem, 'ts event list) call" where
  "BatchCreateEvents C K F as_time uuids outcome reqs =
     call_then (create_loop K as_time uuids 0 reqs) (\<lambda>created.
     call_then (client StartTxFail (yt_StartTabletTx C)) (\<lambda>(tx, _).
     call_then (insert_or_abort C tx eventsIdUniqIndexTable (map (fst \<circ> snd) created)) (\<lambda>_.
     call_then (insert_or_abort C tx eventsTable (map (snd \<circ> snd) created)) (\<lambda>_.
     call_then (client CommitFail (yt_CommitTabletTx C tx)) (\<lambda>ts.
     call_then (submit outcome (map (\<lambda>(e, _).
         (EventKeyFromProto as_time (Some e) ts False, newMemTableItem F (Some e) ts False)) created)) (\<lambda>_.
       call_return (map fst created)))))))"

subsection \<open>Looking an event up\<close>

text \<open>A lookup that has to find exactly one row.\<close>

definition lookup_one :: "('y, 'g, 'r, 'n) yt_client \<Rightarrow> string \<Rightarrow> any_row \<Rightarrow> u64 \<Rightarrow> ('y, 'w, 'r \<times> 'n) call" where
  "lookup_one C path key ts =
     call_then (client (LookupFail \<circ> Some) (yt_LookupRows C path [key] ts)) (\<lambda>(wireRows, nameTable).
       if length wireRows \<noteq> 1 then call_fail (LookupFail None) else call_return (hd wireRows, nameTable))"

definition lookup_key :: "('y, 'g, 'r, 'n) yt_client \<Rightarrow> ('ts, 'r, 'n) codec \<Rightarrow> string \<Rightarrow> u64 \<Rightarrow> ('y, 'w, EventRowKey) call" where
  "lookup_key C K i ts =
     call_then (lookup_one C eventsIdUniqIndexTable (AIndex \<lparr>ik_ID = i\<rparr>) ts) (\<lambda>(row, nameTable).
       lift_error RowUnmarshalFail (cd_key K nameTable row))"

subsection \<open>Deleting an event\<close>

definition tombstone_key :: "EventRowKey \<Rightarrow> u64 \<Rightarrow> EventKey" where
  "tombstone_key key ts =
     \<lparr>key_ResourceTypeCode = rk_ResourceTypeCode key, key_ResourceExternalID = rk_ResourceExternalID key,
      key_StartTime = time_UnixMicro (rk_StartTime key), key_ID = rk_ID key, key_Timestamp = ts,
      key_IsDeleted = True\<rparr>"

definition tombstone :: "'f bloom \<Rightarrow> EventRowKey \<Rightarrow> u64 \<Rightarrow> ('ts, 'f) writeItem" where
  "tombstone F key ts = (tombstone_key key ts, newMemTableItem F None ts True)"

definition DeleteEvent ::
  "('y, 'g, 'r, 'n) yt_client \<Rightarrow> ('ts, 'r, 'n) codec \<Rightarrow> 'f bloom \<Rightarrow> write_outcome \<Rightarrow> string \<Rightarrow>
   ('y, ('ts, 'f) writeItem, unit) call" where
  "DeleteEvent C K F outcome i =
     call_then (client StartTxFail (yt_StartTabletTx C)) (\<lambda>(tx, ts).
     call_then (lookup_key C K i ts) (\<lambda>key.
     call_then (client DeleteFail (yt_DeleteRows C tx eventsTable [AKey key])) (\<lambda>_.
     call_then (client DeleteIdxFail (yt_DeleteRows C tx eventsIdUniqIndexTable [AIndex \<lparr>ik_ID = i\<rparr>])) (\<lambda>_.
     call_then (client CommitFail (yt_CommitTabletTx C tx)) (\<lambda>ts.
       submit outcome [tombstone F key ts])))))"

subsection \<open>Updating an event\<close>

text \<open>A path of the mask; other paths are ignored. The flag is \<open>keyChanged\<close>.\<close>

definition apply_path :: "'ts event option \<Rightarrow> string \<Rightarrow> 'ts event \<times> bool \<Rightarrow> 'ts event \<times> bool" where
  "apply_path new path = (\<lambda>(event, keyChanged).
     if path = ''title'' then (event\<lparr>ev_Title := GetTitle new\<rparr>, keyChanged)
     else if path = ''description'' then (event\<lparr>ev_Description := GetDescription new\<rparr>, keyChanged)
     else if path = ''start_time'' then (event\<lparr>ev_StartTime := GetStartTime new\<rparr>, True)
     else if path = ''end_time'' then (event\<lparr>ev_EndTime := GetEndTime new\<rparr>, keyChanged)
     else if path = ''tags'' then (event\<lparr>ev_Tags := GetTags new\<rparr>, keyChanged)
     else if path = ''annotations'' then (event\<lparr>ev_Annotations := GetAnnotations new\<rparr>, keyChanged)
     else (event, keyChanged))"

definition apply_paths :: "'ts event option \<Rightarrow> string list \<Rightarrow> 'ts event \<Rightarrow> 'ts event \<times> bool" where
  "apply_paths new paths event = fold (apply_path new) paths (event, False)"

text \<open>The new event is written, and at a new start time the old key is deleted.\<close>

definition update_writes :: "'f bloom \<Rightarrow> ('ts option \<Rightarrow> go_time) \<Rightarrow> 'ts event \<Rightarrow> EventRowKey \<Rightarrow> bool \<Rightarrow> u64 \<Rightarrow>
    ('ts, 'f) writeItem list" where
  "update_writes F as_time event key keyChanged ts =
     (\<lparr>key_ResourceTypeCode = GetTypeCode (GetResource (Some event)),
       key_ResourceExternalID = GetExternalId (GetResource (Some event)),
       key_StartTime = as_time (GetStartTime (Some event)), key_ID = GetId (Some event), key_Timestamp = ts,
       key_IsDeleted = False\<rparr>, newMemTableItem F (Some event) ts False) #
     (if keyChanged then [tombstone F key ts] else [])"

definition UpdateEvent ::
  "('y, 'g, 'r, 'n) yt_client \<Rightarrow> ('ts, 'r, 'n) codec \<Rightarrow> 'f bloom \<Rightarrow> ('ts option \<Rightarrow> go_time) \<Rightarrow> write_outcome \<Rightarrow>
   'ts event option \<Rightarrow> string list \<Rightarrow> ('y, ('ts, 'f) writeItem, unit) call" where
  "UpdateEvent C K F as_time outcome new paths =
     call_then (client StartTxFail (yt_StartTabletTx C)) (\<lambda>(tx, ts).
     call_then (lookup_key C K (GetId new) ts) (\<lambda>key.
     call_then (lookup_one C eventsTable (AKey key) ts) (\<lambda>(wireRow, nameTable).
     call_then (lift_error RowUnmarshalFail (cd_row K nameTable wireRow)) (\<lambda>row.
     call_then (lift_error ProtoUnmarshalFail (cd_unmarshal K (er_Event row))) (\<lambda>event.
       let (event, keyChanged) = apply_paths new paths event in
     call_then (if keyChanged then client DeleteFail (yt_DeleteRows C tx eventsTable [AKey key]) else call_return ()) (\<lambda>_.
     call_then (lift_error ProtoMarshalFail (cd_marshal K event)) (\<lambda>bytes.
     call_then (client InsertEventFail (yt_InsertRows C tx eventsTable [ARow (event_row as_time event bytes)])) (\<lambda>_.
     call_then (client InsertEventIdxFail
       (yt_InsertRows C tx eventsIdUniqIndexTable [AKey (event_row_key as_time event)])) (\<lambda>_.
     call_then (client CommitFail (yt_CommitTabletTx C tx)) (\<lambda>ts.
       submit outcome (update_writes F as_time event key keyChanged ts)))))))))))"

end
