(* ===== verification/Live_Table.thy ===== *)
theory Live_Table
  imports Storage_Write
begin

text \<open>
  Walking a mem table while it grows. The iterator of a listing (\<open>src/iterator_memtable.go\<close>) takes the lock
  of the table in each call of \<open>Next\<close>; between two calls the write worker may put further items
  (\<open>batchCreateEvents\<close> of \<open>src/storage.go\<close>). Here the state of the iterator comes with the table and
  with the items that arrive before each later call. Whatever arrives, the walk ends, yields only
  matching items of the table, and passes over no matching item that is alone with its id.
\<close>

subsection \<open>The iterator over a table that grows\<close>

definition grown :: "(EventKey, ('ts, 'f) memTableItem, 's) skiplist \<Rightarrow> ('ts, 'f) writeItem list list \<Rightarrow> 's memTable \<Rightarrow> 's memTable" where
  "grown S puts mt = (case puts of [] \<Rightarrow> mt | now # _ \<Rightarrow> put_batch S now mt)"

definition live_Next ::
  "(EventKey, ('ts, 'f) memTableItem, 's) skiplist \<Rightarrow> 'f bloom \<Rightarrow> 's memTable \<times> ('ts, 'f) writeItem list list \<times> MemTableIterator \<Rightarrow>
   bool \<times> 's memTable \<times> ('ts, 'f) writeItem list list \<times> MemTableIterator" where
  "live_Next S F = (\<lambda>(mt, puts, mti).
     let mt = grown S puts mt;
         (again, mti) = mti_Next F (sl_items S (mt_items mt)) mti
     in (again, mt, tl puts, mti))"

subsection \<open>Where an iterator is\<close>

definition ahead :: "MemTableIterator \<Rightarrow> EventKey \<Rightarrow> bool" where
  "ahead mti k \<longleftrightarrow> \<not> mti_end mti \<and>
     (case mti_next mti of Some n \<Rightarrow> k = n \<or> version_less (version_view n) (version_view k) | None \<Rightarrow> mti_cur mti = None)"

lemma version_sorted_Cons:
  "version_sorted (k # ks) \<longleftrightarrow> (\<forall>x \<in> set ks. version_less (version_view k) (version_view x)) \<and> version_sorted ks"
  by (auto simp: version_sorted_views)

lemma version_sorted_append:
  "version_sorted (as @ bs) \<longleftrightarrow> version_sorted as \<and> version_sorted bs \<and>
     (\<forall>a \<in> set as. \<forall>b \<in> set bs. version_less (version_view a) (version_view b))"
  by (auto simp: version_sorted_views sorted_wrt_append)

lemma version_less_asym: "version_less a b \<Longrightarrow> \<not> version_less b a"
  using version_less_trans version_less_irrefl by blast

lemma split_at_ahead:
  assumes "version_sorted (map fst elems)" and "n \<in> fst ` set elems"
  shows "snd (split_at p n elems) = filter (\<lambda>x. fst x = n \<or> version_less (version_view n) (version_view (fst x))) elems"
  using assms
proof (induction elems arbitrary: p)
  case (Cons x elems)
  obtain k v where x: "x = (k, v)" by fastforce
  show ?case
  proof (cases "k = n")
    case True
    then have "filter (\<lambda>x. fst x = n \<or> version_less (version_view n) (version_view (fst x))) elems = elems"
      using Cons.prems(1) by (auto simp: filter_id_conv version_sorted_Cons x)
    with True show ?thesis by (simp add: x)
  next
    case False
    with Cons.prems have n: "n \<in> fst ` set elems" "version_sorted (map fst elems)"
      "version_less (version_view k) (version_view n)" by (auto simp: x version_sorted_Cons)
    with False Cons.IH [OF n(2,1)] version_less_asym [OF n(3)] show ?thesis by (simp add: x)
  qed
qed simp

lemma mti_Next_place:
  assumes sorted: "version_sorted (map fst elems)" and inv: "mti_inv elems mti" and Next: "mti_Next F elems mti = (True, mti')"
  obtains k v where "(k, v) \<in> set elems" and "mti_cur mti' = Some k" and "mti_inv elems mti'" and "\<not> mti_end mti'"
    and "mti_ts mti' = mti_ts mti" and "mti_f mti' = mti_f mti"
    and "ahead mti k" and "\<And>x. x \<in> fst ` set elems \<Longrightarrow> ahead mti' x \<Longrightarrow> ahead mti x" and "\<not> ahead mti' k"
proof -
  let ?start = "mti_cur mti = None \<and> mti_next mti = None"
  let ?nxt = "if ?start then (case elems of [] \<Rightarrow> None | x # _ \<Rightarrow> Some (fst x)) else mti_next mti"
  have e: "\<not> mti_end mti" using Next by (auto simp: mti_Next_def)
  then obtain n where n: "?nxt = Some n"
    using Next by (cases ?nxt) (auto simp: mti_Next_def Let_def split: if_splits)
  have adv: "mti_advance F elems (mti\<lparr>mti_next := m\<rparr>) n = mti_advance F elems mti n" for m
    by (cases mti) (auto simp: mti_advance_def split: option.splits prod.splits)
  have step: "mti_advance F elems mti n = (True, mti')"
    using Next n e adv by (cases ?start) (simp_all add: mti_Next_def)
  have ne: "n \<in> fst ` set elems" using n inv by (auto simp: mti_inv_def split: if_splits list.splits)
  have ahead: "ahead mti x \<longleftrightarrow> x = n \<or> version_less (version_view n) (version_view x)" if "x \<in> fst ` set elems" for x
  proof (cases ?start)
    case True
    with n obtain v es where "elems = (n, v) # es" by (cases elems) auto
    with sorted that True e show ?thesis by (auto simp: ahead_def version_sorted_Cons)
  qed (use n e in \<open>auto simp: ahead_def\<close>)
  let ?suf = "filter (\<lambda>x. fst x = n \<or> version_less (version_view n) (version_view (fst x))) elems"
  obtain p where split: "split_at None n elems = (p, ?suf)"
    using split_at_ahead [OF sorted ne, of None] by (metis prod.collapse)
  from step obtain k nxt where scan: "mti_scan F (mti_f mti) (mti_ts mti) p ?suf = Some (k, nxt)"
    and mti': "mti' = mti\<lparr>mti_cur := Some k, mti_next := nxt\<rparr>"
    by (auto simp: mti_advance_def split split: option.splits)
  from mti_scan_visible [of F "mti_f mti" "mti_ts mti" p ?suf] scan obtain pre v suf where
    at: "?suf = pre @ (k, v) # suf" and nxt: "nxt = (case suf of [] \<Rightarrow> None | x # _ \<Rightarrow> Some (fst x))" by auto
  have sub: "set suf \<subseteq> set ?suf" "(k, v) \<in> set ?suf" unfolding at by auto
  have kv: "(k, v) \<in> set elems" "ahead mti k" using sub(2) ahead [of k] by force+
  have "version_sorted (map fst ?suf)"
    using sorted unfolding version_sorted_def by (simp add: sorted_wrt_map sorted_wrt_filter)
  then have after: "version_less (version_view k) (version_view (fst x))" if "x \<in> set suf" for x
    using that by (simp add: at version_sorted_append version_sorted_Cons)
  show thesis
  proof (rule that [OF kv(1) _ _ _ _ _ kv(2)])
    show "mti_cur mti' = Some k" "\<not> mti_end mti'" "mti_ts mti' = mti_ts mti" "mti_f mti' = mti_f mti"
      using e by (simp_all add: mti')
    show "mti_inv elems mti'" using sub(1) nxt by (cases suf) (auto simp: mti_inv_def mti')
    have kn: "k = n \<or> version_less (version_view n) (version_view k)" using ahead [of k] kv by force
    show "ahead mti x" if x: "x \<in> fst ` set elems" "ahead mti' x" for x
    proof -
      from x(2) nxt obtain m vm suf' where m: "suf = (m, vm) # suf'" "x = m \<or> version_less (version_view m) (version_view x)"
        by (cases suf) (auto simp: ahead_def mti')
      with after have "version_less (version_view k) (version_view x)" using version_less_trans by fastforce
      with kn have "version_less (version_view n) (version_view x)" using version_less_trans by blast
      with ahead [OF x(1)] show ?thesis by simp
    qed
    show "\<not> ahead mti' k"
    proof (cases suf)
      case (Cons x xs)
      then have "version_less (version_view k) (version_view (fst x))" using after by simp
      with version_less_asym [OF this] show ?thesis by (auto simp: ahead_def mti' nxt Cons)
    qed (simp add: ahead_def mti' nxt)
  qed
qed

lemma mti_Next_end:
  assumes "mti_Next F elems mti = (False, mti')"
  shows "mti_end mti'"
  using assms by (auto simp: mti_Next_def mti_advance_def Let_def split: if_splits option.splits prod.splits)

text \<open>An id that only one key of the table has: that key is left exactly when it is ahead, visible and its
  item matches.\<close>

lemma mt_visible_mem:
  "k \<in> set (mt_visible F f ts p elems) \<Longrightarrow>
     \<exists>v. (k, v) \<in> set elems \<and> key_Timestamp k \<le> ts \<and> matchMemTableItem F f v = Inr True"
proof (induction elems arbitrary: p)
  case (Cons e elems)
  obtain k' v' where "e = (k', v')" by fastforce
  with Cons.prems Cons.IH [of "Some k'"] show ?case by (auto split: if_splits)
qed simp

lemma split_at_subset: "split_at p n elems = (q, es) \<Longrightarrow> set es \<subseteq> set elems"
proof (induction elems arbitrary: p)
  case (Cons x elems)
  obtain k v where x: "x = (k, v)" by fastforce
  show ?case
  proof (cases "k = n")
    case True
    with Cons.prems show ?thesis by (auto simp: x)
  next
    case False
    with Cons.prems Cons.IH [of "Some k"] show ?thesis by (auto simp: x)
  qed
qed simp

lemma mti_left_mem:
  assumes "k \<in> set (mti_left F elems mti)"
  shows "\<exists>v. (k, v) \<in> set elems \<and> key_Timestamp k \<le> mti_ts mti \<and> matchMemTableItem F (mti_f mti) v = Inr True"
proof (cases "mti_next mti")
  case None
  with assms mt_visible_mem show ?thesis by (fastforce simp: mti_left_def split: if_splits)
next
  case (Some n)
  obtain p es where split: "split_at None n elems = (p, es)" by fastforce
  with assms Some have "k \<in> set (mt_visible F (mti_f mti) (mti_ts mti) p es)" by (auto simp: mti_left_def split: if_splits)
  from mt_visible_mem [OF this] split_at_subset [OF split] show ?thesis by blast
qed

lemma mt_visible_alone:
  assumes "(k, v) \<in> set elems" and "distinct (map fst elems)" and "\<forall>x \<in> set elems. key_ID (fst x) = key_ID k \<longrightarrow> fst x = k"
    and "\<forall>q. p = Some q \<longrightarrow> key_ID q \<noteq> key_ID k" and "key_Timestamp k \<le> ts" and "matchMemTableItem F f v = Inr True"
  shows "k \<in> set (mt_visible F f ts p elems)"
  using assms
proof (induction elems arbitrary: p)
  case (Cons e elems)
  obtain k' v' where e: "e = (k', v')" by fastforce
  show ?case
  proof (cases "k' = k")
    case True
    with Cons.prems(1,2) have "v' = v" by (force simp: e)
    with True Cons.prems(4-6) show ?thesis by (auto simp: e)
  next
    case False
    with Cons.prems(3) have "key_ID k' \<noteq> key_ID k" by (auto simp: e)
    with False Cons.IH [of "Some k'"] Cons.prems show ?thesis by (simp add: e)
  qed
qed simp

lemma split_at_before:
  "split_at p n elems = (Some q, suf) \<Longrightarrow> version_sorted (map fst elems) \<Longrightarrow> n \<in> fst ` set elems \<Longrightarrow> p = Some q \<or>
     (q \<in> fst ` set elems \<and> version_less (version_view q) (version_view n))"
proof (induction elems arbitrary: p)
  case (Cons x elems)
  obtain k v where x: "x = (k, v)" by fastforce
  show ?case
  proof (cases "k = n")
    case False
    with Cons.prems have "split_at (Some k) n elems = (Some q, suf)" "version_sorted (map fst elems)" "n \<in> fst ` set elems"
      "version_less (version_view k) (version_view n)" by (auto simp: x version_sorted_Cons)
    with Cons.IH [of "Some k"] show ?thesis by (auto simp: x)
  qed (use Cons.prems(1) in \<open>simp add: x\<close>)
qed simp

lemma mti_left_alone:
  assumes sorted: "version_sorted (map fst elems)" and inv: "mti_inv elems mti"
    and alone: "\<forall>x \<in> set elems. key_ID (fst x) = key_ID k \<longrightarrow> fst x = k"
  shows "k \<in> set (mti_left F elems mti) \<longleftrightarrow>
    ahead mti k \<and> key_Timestamp k \<le> mti_ts mti \<and> (\<exists>v. (k, v) \<in> set elems \<and> matchMemTableItem F (mti_f mti) v = Inr True)"
proof -
  note d = version_sorted_distinct [OF sorted]
  have all: "k \<in> set (mt_visible F f ts p es) \<longleftrightarrow>
      key_Timestamp k \<le> ts \<and> (\<exists>v. (k, v) \<in> set es \<and> matchMemTableItem F f v = Inr True)"
    if es: "set es \<subseteq> set elems" "distinct (map fst es)" "\<forall>q. p = Some q \<longrightarrow> k \<in> fst ` set es \<longrightarrow> key_ID q \<noteq> key_ID k" for f ts p es
  proof
    assume "k \<in> set (mt_visible F f ts p es)"
    from mt_visible_mem [OF this] show "key_Timestamp k \<le> ts \<and> (\<exists>v. (k, v) \<in> set es \<and> matchMemTableItem F f v = Inr True)" by blast
  next
    assume "key_Timestamp k \<le> ts \<and> (\<exists>v. (k, v) \<in> set es \<and> matchMemTableItem F f v = Inr True)"
    then obtain v where v: "key_Timestamp k \<le> ts" "(k, v) \<in> set es" "matchMemTableItem F f v = Inr True" by blast
    have "k \<in> fst ` set es" using imageI [OF v(2), of fst] by simp
    with es(3) have "\<forall>q. p = Some q \<longrightarrow> key_ID q \<noteq> key_ID k" by blast
    moreover have "\<forall>x \<in> set es. key_ID (fst x) = key_ID k \<longrightarrow> fst x = k" using alone es(1) by blast
    ultimately show "k \<in> set (mt_visible F f ts p es)" using mt_visible_alone [OF v(2) es(2) _ _ v(1,3)] by blast
  qed
  show ?thesis
  proof (cases "mti_next mti")
    case None
    with all [of elems None] d show ?thesis by (auto simp: mti_left_def ahead_def)
  next
    case (Some n)
    with inv have n: "n \<in> fst ` set elems" by (simp add: mti_inv_def)
    let ?suf = "filter (\<lambda>x. fst x = n \<or> version_less (version_view n) (version_view (fst x))) elems"
    obtain p where split: "split_at None n elems = (p, ?suf)"
      using split_at_ahead [OF sorted n, of None] by (metis prod.collapse)
    have "distinct (map fst ?suf)" using d by (simp add: distinct_map_filter)
    moreover have "\<forall>q. p = Some q \<longrightarrow> k \<in> fst ` set ?suf \<longrightarrow> key_ID q \<noteq> key_ID k"
    proof (intro allI impI notI)
      fix q assume "p = Some q" "k \<in> fst ` set ?suf" "key_ID q = key_ID k"
      with split_at_before [of None n elems q ?suf] split sorted n have
        "q \<in> fst ` set elems" "version_less (version_view q) (version_view n)" by auto
      with alone \<open>key_ID q = key_ID k\<close> have "version_less (version_view k) (version_view n)" by fastforce
      with \<open>k \<in> fst ` set ?suf\<close> version_less_asym show False by fastforce
    qed
    ultimately have "k \<in> set (mt_visible F (mti_f mti) (mti_ts mti) p ?suf) \<longleftrightarrow> key_Timestamp k \<le> mti_ts mti \<and>
        (\<exists>v. (k, v) \<in> set ?suf \<and> matchMemTableItem F (mti_f mti) v = Inr True)" by (intro all) auto
    then show ?thesis by (auto simp: mti_left_def Some split ahead_def)
  qed
qed

subsection \<open>Putting items\<close>

lemma insert_desc_cases:
  "(\<exists>pre suf. xs = pre @ suf \<and> insert_desc f k v xs = pre @ (k, v) # suf) \<or>
   (\<exists>pre k' v' suf. xs = pre @ (k', v') # suf \<and> f k k' = 0 \<and> insert_desc f k v xs = pre @ (k', v) # suf)"
proof (induction xs)
  case (Cons x xs)
  obtain k' v' where x: "x = (k', v')" by fastforce
  consider "f k k' > 0" | "f k k' = 0" | "f k k' < 0" by linarith
  then show ?case
  proof cases
    case 1
    then have "x # xs = [] @ (x # xs)" "insert_desc f k v (x # xs) = [] @ (k, v) # (x # xs)" by (simp_all add: x)
    then show ?thesis by blast
  next
    case 2
    then have "x # xs = [] @ (k', v') # xs" "insert_desc f k v (x # xs) = [] @ (k', v) # xs" by (simp_all add: x)
    with 2 show ?thesis by blast
  next
    case 3
    then have step: "insert_desc f k v (x # xs) = x # insert_desc f k v xs" by (simp add: x)
    from Cons.IH show ?thesis
    proof (elim disjE exE conjE)
      fix pre suf assume "xs = pre @ suf" "insert_desc f k v xs = pre @ (k, v) # suf"
      with step show ?thesis by (intro disjI1 exI [of _ "x # pre"] exI [of _ suf]) simp
    next
      fix pre k'' v'' suf assume "xs = pre @ (k'', v'') # suf" "f k k'' = 0" "insert_desc f k v xs = pre @ (k'', v) # suf"
      with step show ?thesis by (intro disjI2 exI [of _ "x # pre"] exI [of _ k''] exI [of _ v''] exI [of _ suf]) simp
    qed
  qed
qed simp

lemma insert_desc_grows:
  "fst ` set xs \<subseteq> fst ` set (insert_desc f k v xs)"
  "length (filter (\<lambda>x. P (fst x)) (insert_desc f k v xs)) \<le> Suc (length (filter (\<lambda>x. P (fst x)) xs))"
  using insert_desc_cases [of xs f k v] by (elim disjE exE conjE; force)+

text \<open>Items of which no two have the same version.\<close>

definition one_version :: "(EventKey \<times> 'v) set \<Rightarrow> bool" where
  "one_version W \<longleftrightarrow> (\<forall>x \<in> W. \<forall>y \<in> W. version_view (fst x) = version_view (fst y) \<longrightarrow> x = y)"

lemma insert_desc_within:
  assumes "one_version W" and "set xs \<subseteq> W" and "(k, v) \<in> W"
  shows "set (insert_desc memTable_compare k v xs) = insert (k, v) (set xs)"
  using insert_desc_cases [of xs memTable_compare k v]
proof (elim disjE exE conjE)
  fix pre k' v' suf
  assume xs: "xs = pre @ (k', v') # suf" "memTable_compare k k' = 0"
    and ins: "insert_desc memTable_compare k v xs = pre @ (k', v) # suf"
  from xs(2) have "version_view k = version_view k'" using version_order.cmp_zero [of k k'] by (simp add: memTable_compare_reverse)
  moreover have "(k', v') \<in> W" using assms(2) xs(1) by auto
  ultimately have "(k', v') = (k, v)" using assms(1,3) unfolding one_version_def by (metis fst_conv)
  with xs(1) ins show ?thesis by auto
qed auto

lemma put_batch_grows:
  assumes S: "skip_list S made" and "made memTable_compare (mt_items mt)" and "version_sorted (map fst (sl_items S (mt_items mt)))"
  shows "made memTable_compare (mt_items (put_batch S ws mt)) \<and>
    version_sorted (map fst (sl_items S (mt_items (put_batch S ws mt)))) \<and>
    fst ` set (sl_items S (mt_items mt)) \<subseteq> fst ` set (sl_items S (mt_items (put_batch S ws mt))) \<and>
    length (filter (\<lambda>x. P (fst x)) (sl_items S (mt_items (put_batch S ws mt)))) \<le>
      length (filter (\<lambda>x. P (fst x)) (sl_items S (mt_items mt))) + length ws"
  using assms(2,3)
proof (induction ws arbitrary: mt)
  case (Cons w ws)
  let ?mt = "putItem S mt (fst w) (snd w)"
  have items: "sl_items S (mt_items ?mt) = insert_desc memTable_compare (fst w) (snd w) (sl_items S (mt_items mt))"
    using Cons.prems(1) by (simp add: putItem_def skip_list.set_items [OF S])
  have "made memTable_compare (mt_items ?mt)" using Cons.prems(1) by (simp add: putItem_def skip_list.made_set [OF S])
  moreover have "version_sorted (map fst (sl_items S (mt_items ?mt)))"
    unfolding items by (rule insert_desc_sorted [OF Cons.prems(2)])
  ultimately have IH: "made memTable_compare (mt_items (put_batch S ws ?mt)) \<and>
      version_sorted (map fst (sl_items S (mt_items (put_batch S ws ?mt)))) \<and>
      fst ` set (sl_items S (mt_items ?mt)) \<subseteq> fst ` set (sl_items S (mt_items (put_batch S ws ?mt))) \<and>
      length (filter (\<lambda>x. P (fst x)) (sl_items S (mt_items (put_batch S ws ?mt)))) \<le>
        length (filter (\<lambda>x. P (fst x)) (sl_items S (mt_items ?mt))) + length ws" by (rule Cons.IH)
  then show ?case
    using insert_desc_grows(1) [of "sl_items S (mt_items mt)" memTable_compare "fst w" "snd w"]
      insert_desc_grows(2) [of P memTable_compare "fst w" "snd w" "sl_items S (mt_items mt)"] unfolding items by auto
qed simp

lemma put_batch_within:
  assumes S: "skip_list S made" and "made memTable_compare (mt_items mt)" and "one_version W"
    and "set (sl_items S (mt_items mt)) \<subseteq> W" and "set ws \<subseteq> W"
  shows "set (sl_items S (mt_items (put_batch S ws mt))) = set (sl_items S (mt_items mt)) \<union> set ws"
  using assms(2,4,5)
proof (induction ws arbitrary: mt)
  case (Cons w ws)
  let ?mt = "putItem S mt (fst w) (snd w)"
  have items: "sl_items S (mt_items ?mt) = insert_desc memTable_compare (fst w) (snd w) (sl_items S (mt_items mt))"
    using Cons.prems(1) by (simp add: putItem_def skip_list.set_items [OF S])
  have "set (sl_items S (mt_items ?mt)) = insert w (set (sl_items S (mt_items mt)))"
    unfolding items using insert_desc_within [OF assms(3) Cons.prems(2), of "fst w" "snd w"] Cons.prems(3) by simp
  with Cons.IH [of ?mt] Cons.prems show ?case by (simp add: putItem_def skip_list.made_set [OF S])
qed simp

subsection \<open>The walk\<close>

definition live_inv ::
  "(EventKey, ('ts, 'f) memTableItem, 's) skiplist \<Rightarrow> ((EventKey \<Rightarrow> EventKey \<Rightarrow> int) \<Rightarrow> 's \<Rightarrow> bool) \<Rightarrow>
   's memTable \<times> ('ts, 'f) writeItem list list \<times> MemTableIterator \<Rightarrow> bool" where
  "live_inv S made = (\<lambda>(mt, puts, mti). skip_list S made \<and> made memTable_compare (mt_items mt) \<and>
     version_sorted (map fst (sl_items S (mt_items mt))) \<and> mti_inv (sl_items S (mt_items mt)) mti)"

text \<open>A bound on the values that can still come.\<close>

definition live_rank ::
  "(EventKey, ('ts, 'f) memTableItem, 's) skiplist \<Rightarrow> 's memTable \<times> ('ts, 'f) writeItem list list \<times> MemTableIterator \<Rightarrow> nat" where
  "live_rank S = (\<lambda>(mt, puts, mti).
     length (filter (\<lambda>x. ahead mti (fst x)) (sl_items S (mt_items mt))) + length (concat puts))"

fun live_run ::
  "(EventKey, ('ts, 'f) memTableItem, 's) skiplist \<Rightarrow> 'f bloom \<Rightarrow> nat \<Rightarrow>
   's memTable \<times> ('ts, 'f) writeItem list list \<times> MemTableIterator \<Rightarrow> EventKey list" where
  "live_run S F 0 s = []"
| "live_run S F (Suc n) s =
     (case live_Next S F s of (again, mt, puts, mti) \<Rightarrow>
        if again then the (mti_Value mti) # live_run S F n (mt, puts, mti) else [])"

definition live_left ::
  "(EventKey, ('ts, 'f) memTableItem, 's) skiplist \<Rightarrow> 'f bloom \<Rightarrow>
   's memTable \<times> ('ts, 'f) writeItem list list \<times> MemTableIterator \<Rightarrow> EventKey list" where
  "live_left S F s = live_run S F (live_rank S s) s"

lemma mti_inv_mono: "mti_inv xs mti \<Longrightarrow> fst ` set xs \<subseteq> fst ` set ys \<Longrightarrow> mti_inv ys mti"
  unfolding mti_inv_def by blast

lemma grown_inv:
  assumes "live_inv S made (mt, puts, mti)"
  shows "live_inv S made (grown S puts mt, tl puts, mti)" and "live_rank S (grown S puts mt, tl puts, mti) \<le> live_rank S (mt, puts, mti)"
proof -
  have "skip_list S made" "made memTable_compare (mt_items mt)" "version_sorted (map fst (sl_items S (mt_items mt)))"
    using assms by (simp_all add: live_inv_def)
  note grows = put_batch_grows [OF this]
  show "live_inv S made (grown S puts mt, tl puts, mti)"
    using assms grows [of "hd puts"] by (cases puts) (auto simp: live_inv_def grown_def elim!: mti_inv_mono)
  show "live_rank S (grown S puts mt, tl puts, mti) \<le> live_rank S (mt, puts, mti)"
    using grows [of "hd puts" "ahead mti"] by (cases puts) (auto simp: live_rank_def grown_def)
qed

lemma live_Next_more:
  assumes inv: "live_inv S made s" and Next: "live_Next S F s = (True, s')"
  shows "live_inv S made s' \<and> live_rank S s' < live_rank S s \<and> mti_Value (snd (snd s')) \<noteq> None \<and> mti_Valid (snd (snd s'))"
proof -
  obtain mt puts mti where s: "s = (mt, puts, mti)" by (cases s)
  let ?mt = "grown S puts mt" and ?elems = "sl_items S (mt_items (grown S puts mt))"
  obtain mti' where mti': "mti_Next F ?elems mti = (True, mti')" "s' = (?mt, tl puts, mti')"
    using Next by (auto simp: live_Next_def s Let_def split: prod.splits)
  note g = grown_inv [OF inv [unfolded s]]
  have sorted: "version_sorted (map fst ?elems)" and i: "mti_inv ?elems mti" using g(1) by (simp_all add: live_inv_def)
  from mti_Next_place [OF sorted i mti'(1)] obtain k v where
    k: "(k, v) \<in> set ?elems" "mti_cur mti' = Some k" "mti_inv ?elems mti'" "\<not> mti_end mti'" "ahead mti k" "\<not> ahead mti' k"
    and sub: "\<And>x. x \<in> fst ` set ?elems \<Longrightarrow> ahead mti' x \<Longrightarrow> ahead mti x" by metis
  have "length (filter (\<lambda>x. ahead mti' (fst x)) xs) \<le> length (filter (\<lambda>x. ahead mti (fst x)) xs)"
    if "set xs \<subseteq> set ?elems" for xs
    using that sub by (induction xs) (fastforce simp: le_Suc_eq)+
  moreover obtain as bs where ab: "?elems = as @ (k, v) # bs" using k(1) by (meson split_list)
  ultimately have "length (filter (\<lambda>x. ahead mti' (fst x)) ?elems) < length (filter (\<lambda>x. ahead mti (fst x)) ?elems)"
    using k(5,6) by (fastforce simp: less_Suc_eq_le intro: add_mono)
  then have "live_rank S s' < live_rank S (?mt, tl puts, mti)" by (simp add: live_rank_def mti'(2))
  moreover have "live_inv S made s'" using g(1) k(3) by (simp add: live_inv_def mti'(2))
  ultimately show ?thesis using g(2) k(2,4) by (simp add: s mti'(2) mti_Value_def mti_Valid_def)
qed

lemma live_Next_end:
  assumes inv: "live_inv S made s" and Next: "live_Next S F s = (False, s')"
  shows "live_inv S made s' \<and> live_left S F s' = [] \<and> \<not> mti_Valid (snd (snd s'))"
proof -
  obtain mt puts mti where s: "s = (mt, puts, mti)" by (cases s)
  let ?mt = "grown S puts mt" and ?elems = "sl_items S (mt_items (grown S puts mt))"
  obtain mti' where mti': "mti_Next F ?elems mti = (False, mti')" "s' = (?mt, tl puts, mti')"
    using Next by (auto simp: live_Next_def s Let_def split: prod.splits)
  have e: "mti_end mti'" by (rule mti_Next_end [OF mti'(1)])
  have g: "live_inv S made (?mt, tl puts, mti)" by (rule grown_inv(1) [OF inv [unfolded s]])
  have "mti_next mti' = None \<or> mti_next mti' = mti_next mti"
    using mti'(1) by (auto simp: mti_Next_def mti_advance_def Let_def split: if_splits option.splits prod.splits list.splits)
  with g have "mti_inv ?elems mti'" by (auto simp: live_inv_def mti_inv_def)
  moreover have "live_run S F n s' = []" for n
    using e by (cases n) (simp_all add: mti'(2) live_Next_def mti_Next_def)
  ultimately show ?thesis using g e by (simp add: live_inv_def live_left_def mti'(2) mti_Valid_def)
qed

lemma live_run_Suc: "live_inv S made s \<Longrightarrow> live_rank S s \<le> n \<Longrightarrow> live_run S F (Suc n) s = live_run S F n s"
proof (induction n arbitrary: s)
  case 0
  obtain again mt puts mti where Next: "live_Next S F s = (again, mt, puts, mti)" by (cases "live_Next S F s") auto
  with live_Next_more [OF 0(1), of F] 0(2) show ?case by (cases again) auto
next
  case (Suc n)
  obtain again mt puts mti where Next: "live_Next S F s = (again, mt, puts, mti)" by (cases "live_Next S F s") auto
  show ?case
  proof (cases again)
    case True
    with live_Next_more [OF Suc.prems(1), of F] Next have "live_inv S made (mt, puts, mti)"
      "live_rank S (mt, puts, mti) < live_rank S s" by auto
    with Suc.prems(2) have "live_inv S made (mt, puts, mti)" "live_rank S (mt, puts, mti) \<le> n" by simp_all
    from Suc.IH [OF this] True Next show ?thesis by simp
  next
    case False
    with Next show ?thesis by simp
  qed
qed

lemma live_run_enough:
  assumes "live_inv S made s" and "live_rank S s \<le> n"
  shows "live_run S F n s = live_left S F s"
  unfolding live_left_def using assms(2)
proof (induction n rule: dec_induct)
  case (step n)
  with live_run_Suc [OF assms(1) step(1)] show ?case by simp
qed simp

lemma live_left_more:
  assumes "live_inv S made s" and "live_Next S F s = (True, s')"
  shows "live_left S F s = the (mti_Value (snd (snd s'))) # live_left S F s'"
proof -
  from live_Next_more [OF assms] have s': "live_inv S made s'" "live_rank S s' < live_rank S s" by auto
  then obtain m where m: "live_rank S s = Suc m" "live_rank S s' \<le> m" by (cases "live_rank S s") auto
  with live_run_enough [OF s'(1) m(2)] assms(2) show ?thesis by (cases s') (simp add: live_left_def)
qed

lemma live_left_end: "live_Next S F s = (False, s') \<Longrightarrow> live_left S F s = []"
  unfolding live_left_def by (cases "live_rank S s"; cases s') simp_all

interpretation live: iterator "\<lambda>s. Some (live_Next S F s)" "\<lambda>s. mti_Value (snd (snd s))" "\<lambda>s. mti_Valid (snd (snd s))"
  "live_inv S made" "live_left S F"
proof
  fix s k ks assume inv: "live_inv S made s" and l: "live_left S F s = k # ks"
  obtain again s' where Next: "live_Next S F s = (again, s')" by (cases "live_Next S F s")
  with l have again using live_left_end [of S F s s'] by (cases again) auto
  with Next have Next: "live_Next S F s = (True, s')" by simp
  from live_Next_more [OF inv Next] live_left_more [OF inv Next] l Next
  show "\<exists>s'. Some (live_Next S F s) = Some (True, s') \<and> live_inv S made s' \<and> live_left S F s' = ks \<and>
      mti_Value (snd (snd s')) = Some k \<and> mti_Valid (snd (snd s'))" by auto
next
  fix s assume inv: "live_inv S made s" and l: "live_left S F s = []"
  obtain again s' where Next: "live_Next S F s = (again, s')" by (cases "live_Next S F s")
  with l live_left_more [OF inv, of F s'] have "\<not> again" by auto
  with Next live_Next_end [OF inv, of F s']
  show "\<exists>s'. Some (live_Next S F s) = Some (False, s') \<and> live_inv S made s' \<and> live_left S F s' = [] \<and>
      \<not> mti_Valid (snd (snd s'))" by simp
qed

lemma length_live_left:
  "length (live_left S F (mt, puts, mti)) \<le> length (sl_items S (mt_items mt)) + length (concat puts)"
proof -
  have "length (live_run S F n s) \<le> n" for n s
    by (induction n arbitrary: s) (auto split: prod.splits)
  also have "live_rank S (mt, puts, mti) \<le> length (sl_items S (mt_items mt)) + length (concat puts)"
    by (simp add: live_rank_def)
  finally show ?thesis by (simp add: live_left_def)
qed

lemma live_left_nil: "sl_items S (mt_items mt) = [] \<Longrightarrow> live_left S F (mt, [], mti) = []"
  using length_live_left [of S F mt "[]" mti] by simp

subsection \<open>What the walk yields\<close>

lemma grown_within:
  assumes "live_inv S made (mt, puts, mti)" and "one_version W" and "set (sl_items S (mt_items mt)) \<subseteq> W" and "set (concat puts) \<subseteq> W"
  shows "set (sl_items S (mt_items (grown S puts mt))) = set (sl_items S (mt_items mt)) \<union> set (case puts of [] \<Rightarrow> [] | p # _ \<Rightarrow> p)"
    and "set (concat (tl puts)) \<subseteq> W" and "set (sl_items S (mt_items (grown S puts mt))) \<subseteq> W"
  using put_batch_within [of S made mt W "hd puts"] assms by (cases puts; auto simp: live_inv_def grown_def)+

lemma live_left_sound:
  assumes "live_inv S made (mt, puts, mti)" and "one_version W" and "set (sl_items S (mt_items mt)) \<subseteq> W" and "set (concat puts) \<subseteq> W"
    and "k \<in> set (live_left S F (mt, puts, mti))"
  shows "\<exists>v. (k, v) \<in> W \<and> key_Timestamp k \<le> mti_ts mti \<and> matchMemTableItem F (mti_f mti) v = Inr True"
  using assms
proof (induction "live_rank S (mt, puts, mti)" arbitrary: mt puts mti rule: less_induct)
  case less
  note inv = less.prems(1)
  let ?mt = "grown S puts mt" and ?elems = "sl_items S (mt_items (grown S puts mt))"
  note g = grown_inv [OF inv] and w = grown_within [OF inv less.prems(2-4)]
  have sorted: "version_sorted (map fst ?elems)" and i: "mti_inv ?elems mti" using g(1) by (simp_all add: live_inv_def)
  obtain again s' where Next: "live_Next S F (mt, puts, mti) = (again, s')" by (cases "live_Next S F (mt, puts, mti)")
  with less.prems(5) have again using live_left_end [of S F "(mt, puts, mti)" s'] by (cases again) auto
  with Next have Next: "live_Next S F (mt, puts, mti) = (True, s')" by simp
  then obtain mti' where mti': "mti_Next F ?elems mti = (True, mti')" "s' = (?mt, tl puts, mti')"
    by (auto simp: live_Next_def Let_def split: prod.splits)
  from mti_Next_place [OF sorted i mti'(1)] have same: "mti_ts mti' = mti_ts mti" "mti_f mti' = mti_f mti" by blast+
  from live_left_more [OF inv Next] less.prems(5) consider "k = the (mti_cur mti')" | "k \<in> set (live_left S F (?mt, tl puts, mti'))"
    by (auto simp: mti'(2) mti_Value_def)
  then show ?case
  proof cases
    case 1
    with mti_Next_left [OF version_sorted_distinct [OF sorted] i, of F] mti'(1) have "k \<in> set (mti_left F ?elems mti)"
      by (auto split: list.splits)
    from mti_left_mem [OF this] w(3) show ?thesis by blast
  next
    case 2
    from live_Next_more [OF inv Next] have s': "live_inv S made (?mt, tl puts, mti')"
      "live_rank S (?mt, tl puts, mti') < live_rank S (mt, puts, mti)" by (simp_all add: mti'(2))
    from less.hyps [OF s'(2,1) less.prems(2) w(3,2) 2] show ?thesis by (simp add: same)
  qed
qed

lemma live_left_complete:
  assumes "live_inv S made (mt, puts, mti)" and "one_version W" and "set (sl_items S (mt_items mt)) \<subseteq> W" and "set (concat puts) \<subseteq> W"
    and "\<forall>x \<in> W. key_ID (fst x) = key_ID k \<longrightarrow> fst x = k"
    and "(k, v) \<in> set (sl_items S (mt_items mt))" and "ahead mti k" and "key_Timestamp k \<le> mti_ts mti"
    and "matchMemTableItem F (mti_f mti) v = Inr True"
  shows "k \<in> set (live_left S F (mt, puts, mti))"
  using assms
proof (induction "live_rank S (mt, puts, mti)" arbitrary: mt puts mti rule: less_induct)
  case less
  note inv = less.prems(1)
  let ?mt = "grown S puts mt" and ?elems = "sl_items S (mt_items (grown S puts mt))"
  note g = grown_inv [OF inv] and w = grown_within [OF inv less.prems(2-4)]
  have sorted: "version_sorted (map fst ?elems)" and i: "mti_inv ?elems mti" using g(1) by (simp_all add: live_inv_def)
  have alone: "\<forall>x \<in> set ?elems. key_ID (fst x) = key_ID k \<longrightarrow> fst x = k" using less.prems(5) w(3) by blast
  have kv: "(k, v) \<in> set ?elems" using less.prems(6) w(1) by blast
  with mti_left_alone [OF sorted i alone] less.prems(7-9) have left: "k \<in> set (mti_left F ?elems mti)" by blast
  then obtain h ks where "mti_left F ?elems mti = h # ks" by (cases "mti_left F ?elems mti") auto
  with mti_Next_left [OF version_sorted_distinct [OF sorted] i, of F] obtain mti' where
    mti': "mti_Next F ?elems mti = (True, mti')" "mti_inv ?elems mti'" "mti_left F ?elems mti' = ks" "mti_cur mti' = Some h"
    by auto
  let ?s' = "(?mt, tl puts, mti')"
  have Next: "live_Next S F (mt, puts, mti) = (True, ?s')" by (simp add: live_Next_def mti'(1))
  from mti_Next_place [OF sorted i mti'(1)] have same: "mti_ts mti' = mti_ts mti" "mti_f mti' = mti_f mti" by blast+
  show ?case
  proof (cases "k = h")
    case True
    with live_left_more [OF inv Next] mti'(4) show ?thesis by (simp add: mti_Value_def)
  next
    case False
    with left \<open>mti_left F ?elems mti = h # ks\<close> mti'(3) have "k \<in> set (mti_left F ?elems mti')" by simp
    with mti_left_alone [OF sorted mti'(2) alone] have ahead: "ahead mti' k" by blast
    from live_Next_more [OF inv Next] have s': "live_inv S made ?s'" "live_rank S ?s' < live_rank S (mt, puts, mti)" by simp_all
    have "k \<in> set (live_left S F ?s')"
      by (rule less.hyps [OF s'(2,1) less.prems(2) w(3,2) less.prems(5) kv ahead]) (use less.prems(8,9) same in simp_all)
    with live_left_more [OF inv Next] show ?thesis by simp
  qed
qed

text \<open>A fresh iterator.\<close>

lemma live_start:
  assumes "skip_list S made" and "made memTable_compare (mt_items mt)" and "version_sorted (map fst (sl_items S (mt_items mt)))"
  shows "live_inv S made (mt, puts, NewMemTableIterator f ts)" and "ahead (NewMemTableIterator f ts) k"
    and "mti_ts (NewMemTableIterator f ts) = ts" and "mti_f (NewMemTableIterator f ts) = f"
  using assms by (simp_all add: live_inv_def mti_start(1)) (simp_all add: NewMemTableIterator_def ahead_def)

end
