(* ===== verification/Storage_List.thy ===== *)
theory Storage_List
  imports Storage_Rpc Live_Table
begin

text \<open>
  Listing events (\<open>ListEvents\<close> of \<open>src/storage.go\<close>): the table, the waiting indices and the levels are
  loaded, an iterator over each is merged with the others, the first keys are taken, and their
  events are read from the table of the cluster.

  The keys are collected by a loop that need not end; \<open>None\<close> as its value is a panic or no end.
  The write worker may put items into the loaded table while the listing walks through it: the
  argument \<open>puts\<close> has the items that arrive before each call of \<open>Next\<close> on the iterator of the table.
\<close>

subsection \<open>The iterators of a listing\<close>

text \<open>\<open>[]Iterator\<close>: a mem table iterator, with the table and what will be put into it, or an index iterator
  with the keys of its index.\<close>

datatype ('ts, 'f, 's) any_iterator =
    Mem "'s memTable" "('ts, 'f) writeItem list list" MemTableIterator
  | Ind "EventKey list" IndexIterator

fun any_Next :: "(EventKey, ('ts, 'f) memTableItem, 's) skiplist \<Rightarrow> 'f bloom \<Rightarrow> ('ts, 'f, 's) any_iterator \<Rightarrow>
    (bool \<times> ('ts, 'f, 's) any_iterator) option" where
  "any_Next S F (Mem mt puts mti) = (case live_Next S F (mt, puts, mti) of (again, mt, puts, mti) \<Rightarrow> Some (again, Mem mt puts mti))"
| "any_Next S F (Ind ks ii) = map_option (\<lambda>(again, ii). (again, Ind ks ii)) (ii_Next ks ii)"

fun any_Value :: "('ts, 'f, 's) any_iterator \<Rightarrow> EventKey option" where
  "any_Value (Mem mt puts mti) = mti_Value mti"
| "any_Value (Ind ks ii) = ii_Value ks ii"

fun any_Valid :: "('ts, 'f, 's) any_iterator \<Rightarrow> bool" where
  "any_Valid (Mem mt puts mti) \<longleftrightarrow> mti_Valid mti"
| "any_Valid (Ind ks ii) \<longleftrightarrow> ii_Valid ii"

text \<open>What it has left is what the iterator inside it has left.\<close>

fun any_left :: "(EventKey, ('ts, 'f) memTableItem, 's) skiplist \<Rightarrow> 'f bloom \<Rightarrow> ('ts, 'f, 's) any_iterator \<Rightarrow> EventKey list" where
  "any_left S F (Mem mt puts mti) = live_left S F (mt, puts, mti)"
| "any_left S F (Ind ks ii) = ii_left ks ii"

fun any_inv :: "(EventKey, ('ts, 'f) memTableItem, 's) skiplist \<Rightarrow> ((EventKey \<Rightarrow> EventKey \<Rightarrow> int) \<Rightarrow> 's \<Rightarrow> bool) \<Rightarrow>
    ('ts, 'f, 's) any_iterator \<Rightarrow> bool" where
  "any_inv S made (Mem mt puts mti) \<longleftrightarrow> live_inv S made (mt, puts, mti)"
| "any_inv S made (Ind ks ii) \<longleftrightarrow> ii_inv ks ii"

interpretation any: iterator "any_Next S F" any_Value any_Valid "any_inv S made" "any_left S F"
proof
  fix s k ks assume inv: "any_inv S made s" and l: "any_left S F s = k # ks"
  show "\<exists>s'. any_Next S F s = Some (True, s') \<and> any_inv S made s' \<and> any_left S F s' = ks \<and>
      any_Value s' = Some k \<and> any_Valid s'"
  proof (cases s)
    case (Mem mt puts mti)
    with inv l live.Next_more [of S made "(mt, puts, mti)" F k ks] obtain mt' puts' mti' where
      "live_Next S F (mt, puts, mti) = (True, mt', puts', mti')" "live_inv S made (mt', puts', mti')"
      "live_left S F (mt', puts', mti') = ks" "mti_Value mti' = Some k" "mti_Valid mti'" by auto
    then show ?thesis unfolding Mem by (intro exI [of _ "Mem mt' puts' mti'"]) simp
  next
    case (Ind keys ii)
    with inv l ii.Next_more [of keys ii k ks] show ?thesis by force
  qed
next
  fix s assume inv: "any_inv S made s" and l: "any_left S F s = []"
  show "\<exists>s'. any_Next S F s = Some (False, s') \<and> any_inv S made s' \<and> any_left S F s' = [] \<and> \<not> any_Valid s'"
  proof (cases s)
    case (Mem mt puts mti)
    with inv l live.Next_done [of S made "(mt, puts, mti)" F] obtain mt' puts' mti' where
      "live_Next S F (mt, puts, mti) = (False, mt', puts', mti')" "live_inv S made (mt', puts', mti')"
      "live_left S F (mt', puts', mti') = []" "\<not> mti_Valid mti'" by auto
    then show ?thesis unfolding Mem by (intro exI [of _ "Mem mt' puts' mti'"]) simp
  next
    case (Ind keys ii)
    with inv l ii.Next_done [of keys ii] show ?thesis by force
  qed
qed

subsection \<open>Collecting the keys\<close>

text \<open>The loop over the levels and the waiting indices. The outer option is a panic of a query or of a
  new iterator; an error of a query ends the listing.\<close>

fun index_iterators :: "'b roaring \<Rightarrow> nat \<Rightarrow> go_time \<Rightarrow> go_time \<Rightarrow> Filter option \<Rightarrow> u64 \<Rightarrow> 'b roaringIndex option list \<Rightarrow>
    (filter_error + ('ts, 'f, 's) any_iterator list) option" where
  "index_iterators R numCPU startTime endTime flt ts [] = Some (Inr [])"
| "index_iterators R numCPU startTime endTime flt ts (None # ris) = index_iterators R numCPU startTime endTime flt ts ris"
| "index_iterators R numCPU startTime endTime flt ts (Some ri # ris) =
     (case query R numCPU ri startTime endTime flt of
        None \<Rightarrow> None
      | Some (Inl e) \<Rightarrow> Some (Inl e)
      | Some (Inr posting) \<Rightarrow>
        (case NewIndexIterator R (ri_keys ri) posting ts of
           None \<Rightarrow> None
         | Some ii \<Rightarrow> map_option (map_sum id ((#) (Ind (ri_keys ri) ii)))
             (index_iterators R numCPU startTime endTime flt ts ris)))"

text \<open>\<open>for len(keys) < pageSize && iter.Next()\<close>; the keys of deleted events are passed over.\<close>

partial_function (option) collect_keys ::
  "('s \<Rightarrow> (bool \<times> 's) option) \<Rightarrow> ('s \<Rightarrow> EventKey option) \<Rightarrow> int \<Rightarrow> EventKey list \<Rightarrow> 's \<Rightarrow> EventKey list option" where
  "collect_keys Next Val pageSize keys iter =
     (if int (length keys) < pageSize then
        (case Next iter of
           None \<Rightarrow> None
         | Some (again, iter) \<Rightarrow>
           if \<not> again then Some keys
           else (case Val iter of
                   None \<Rightarrow> None
                 | Some item \<Rightarrow>
                   if key_IsDeleted item then collect_keys Next Val pageSize keys iter
                   else collect_keys Next Val pageSize (keys @ [item]) iter))
      else Some keys)"

text \<open>\<open>int(in.GetPageSize() + 1)\<close>: the addition wraps in 32 bits.\<close>

definition page_size :: "u32 \<Rightarrow> int" where
  "page_size n = sint (n + 1)"

text \<open>What \<open>make([]EventKey, 0, pageSize)\<close> checks: a negative capacity is a panic.\<close>

definition list_keys ::
  "'b roaring \<Rightarrow> (EventKey, ('ts, 'f) memTableItem, 's) skiplist \<Rightarrow> 'f bloom \<Rightarrow> nat \<Rightarrow> ('b, 's) Storage \<Rightarrow>
   ('ts, 'f) writeItem list list \<Rightarrow> go_time \<Rightarrow> go_time \<Rightarrow> Filter option \<Rightarrow> u64 \<Rightarrow> u32 \<Rightarrow> (filter_error + EventKey list) option" where
  "list_keys R S F numCPU st puts startTime endTime flt ts n =
     (case index_iterators R numCPU startTime endTime flt ts (st_levels st @ map (Some \<circ> snd) (st_pen st)) of
        None \<Rightarrow> None
      | Some (Inl e) \<Rightarrow> Some (Inl e)
      | Some (Inr its) \<Rightarrow>
        if page_size n < 0 then None
        else map_option Inr
          (collect_keys (mi_Next (any_Next S F) any_Value any_Valid) mi_Value (page_size n) []
            (NewMergeIterator (Mem (st_cur st) puts (NewMemTableIterator flt ts) # its))))"

subsection \<open>The response\<close>

record stats =
  sa_PendingIndexCount :: u32
  sa_PendingIndexCardinalities :: "(u32 \<times> u32) list"
  sa_LevelCardinalities :: "(u32 \<times> u32) list"

definition index_size :: "'b roaring \<Rightarrow> 'b roaringIndex option \<Rightarrow> u32" where
  "index_size R ri = (case ri of None \<Rightarrow> 0 | Some ri \<Rightarrow> of_nat (bm_cardinality R (ri_all ri)))"

definition list_stats :: "'b roaring \<Rightarrow> ('b, 's) Storage \<Rightarrow> stats" where
  "list_stats R st =
     \<lparr>sa_PendingIndexCount = of_nat (length (st_pen st)),
      sa_PendingIndexCardinalities =
        map (\<lambda>(i, p). (of_nat i, index_size R (Some (snd p)))) (enumerate 0 (st_pen st)),
      sa_LevelCardinalities = map (\<lambda>(i, ri). (of_nat i, index_size R ri)) (enumerate 0 (st_levels st))\<rparr>"

record 'ts list_response =
  ls_Events :: "'ts event list"
  ls_NextPageToken :: string
  ls_Stats :: stats

definition key_row_key :: "EventKey \<Rightarrow> EventRowKey" where
  "key_row_key key =
     \<lparr>rk_ResourceTypeCode = key_ResourceTypeCode key, rk_ResourceExternalID = key_ResourceExternalID key,
      rk_StartTime = UnixMicro (key_StartTime key), rk_ID = key_ID key\<rparr>"

text \<open>The loop over the rows fills a map from ids to events; a later row replaces an earlier one.\<close>

fun decode_rows :: "('ts, 'r, 'n) codec \<Rightarrow> 'n \<Rightarrow> 'r list \<Rightarrow> (string \<rightharpoonup> 'ts event) \<Rightarrow> ('y, 'w, string \<rightharpoonup> 'ts event) call" where
  "decode_rows K nameTable [] m = call_return m"
| "decode_rows K nameTable (r # rs) m =
     call_then (lift_error RowUnmarshalFail (cd_row K nameTable r)) (\<lambda>row.
     call_then (lift_error ProtoUnmarshalFail (cd_unmarshal K (er_Event row))) (\<lambda>event.
       decode_rows K nameTable rs (m(ev_Id event \<mapsto> event))))"

fun found_events :: "(string \<rightharpoonup> 'ts event) \<Rightarrow> EventKey list \<Rightarrow> 'ts event list" where
  "found_events m [] = []"
| "found_events m (key # keys) =
     (case m (key_ID key) of Some ev \<Rightarrow> ev # found_events m keys | None \<Rightarrow> found_events m keys)"

text \<open>The last key becomes the token of the next page when the page is full.\<close>

definition split_page :: "(EventKey \<Rightarrow> string + string) \<Rightarrow> u32 \<Rightarrow> EventKey list \<Rightarrow> ('y, 'w, EventKey list \<times> string) call" where
  "split_page token n keys =
     (if int (length keys) = page_size n
      then call_then (lift_error ListFail (token (last keys))) (\<lambda>t. call_return (butlast keys, t))
      else call_return (keys, []))"

definition ListEvents ::
  "'b roaring \<Rightarrow> (EventKey, ('ts, 'f) memTableItem, 's) skiplist \<Rightarrow> 'f bloom \<Rightarrow> nat \<Rightarrow>
   ('y, 'g, 'r, 'n) yt_client \<Rightarrow> ('ts, 'r, 'n) codec \<Rightarrow> ('ts option \<Rightarrow> go_time) \<Rightarrow> (EventKey \<Rightarrow> string + string) \<Rightarrow>
   ('b, 's) Storage \<Rightarrow> ('ts, 'f) writeItem list list \<Rightarrow> string \<Rightarrow> 'ts option \<Rightarrow> 'ts option \<Rightarrow> u32 \<Rightarrow> ('y, 'w, 'ts list_response) call" where
  "ListEvents R S F numCPU C K as_time token st puts flt startTime endTime n =
     (case ParseFilter flt of
        Inl e \<Rightarrow> call_fail (ParseFail e)
      | Inr f \<Rightarrow>
        call_then (client ListFail (yt_GenerateTimestamp C)) (\<lambda>ts.
          case list_keys R S F numCPU st puts (as_time startTime) (as_time endTime) (Some f) ts n of
            None \<Rightarrow> call_fail ListPanic
          | Some (Inl e) \<Rightarrow> call_fail (ListFilterFail e)
          | Some (Inr []) \<Rightarrow> call_return \<lparr>ls_Events = [], ls_NextPageToken = [], ls_Stats = list_stats R st\<rparr>
          | Some (Inr keys) \<Rightarrow>
            call_then (split_page token n keys) (\<lambda>(keys, nextPageToken).
            call_then (client (LookupFail \<circ> Some)
              (yt_LookupRows C eventsTable (map (AKey \<circ> key_row_key) keys) ts)) (\<lambda>(wireRows, nameTable).
            call_then (decode_rows K nameTable wireRows (\<lambda>_. None)) (\<lambda>eventsMap.
              call_return \<lparr>ls_Events = found_events eventsMap keys, ls_NextPageToken = nextPageToken,
                ls_Stats = list_stats R st\<rparr>)))))"

end
