(* ===== verification/Storage_Workers.thy ===== *)
theory Storage_Workers
  imports Storage_Write
begin

text \<open>
  The two goroutines of the storage as a step relation (\<open>writeWorker\<close>, \<open>flushWorker\<close> and \<open>Close\<close>
  of \<open>src/storage.go\<close>). Each goroutine has a program counter with the local variables it holds
  there; a step is one communication, or the code from one store of a shared pointer to the next.
  A request on \<open>writeCh\<close> may arrive whenever the write worker waits. A channel without buffer is
  a common step of the sender and the receiver; the default of a \<open>select\<close> is taken only when
  the other side is not ready.

  A panic of either goroutine ends the process: both program counters become that of a panic, and
  no step is possible any more. The timer of the flush worker, started anew at every \<open>select\<close>, runs
  for 30 seconds; with \<open>late\<close> it may fire in any state, otherwise not in one in which the write
  worker is taking a flushed index out of \<open>pen\<close>, that is, this takes it less than 30 seconds.
\<close>

subsection \<open>States\<close>

datatype ('s, 'w) write_pc =
    W_poll                              \<comment> \<open>before the first \<open>select\<close>\<close>
  | W_wait                              \<comment> \<open>before the second \<open>select\<close>\<close>
  | W_remove nat bool                   \<comment> \<open>received an index, in the first \<open>select\<close> or not\<close>
  | W_batch "'w list"                   \<comment> \<open>received a request\<close>
  | W_convert "'s memTable" "'w list"   \<comment> \<open>has replaced the full table\<close>
  | W_notify "'w list"                  \<comment> \<open>before the send on \<open>compactCh\<close>\<close>
  | W_put "'w list"                     \<comment> \<open>in the loop over the items\<close>
  | W_panic                             \<comment> \<open>the process has ended\<close>
  | W_stopped

datatype 'b flush_pc =
    F_select nat                                  \<comment> \<open>with the counter \<open>c\<close>\<close>
  | F_load nat                                    \<comment> \<open>before the load of \<open>pen\<close>\<close>
  | F_merge nat "'b index_ptr list"               \<comment> \<open>in the loop over \<open>pen\<close>\<close>
  | F_send nat nat "'b index_ptr list"            \<comment> \<open>before the send on \<open>compactDoneCh\<close>\<close>
  | F_panic                                       \<comment> \<open>the process has ended\<close>
  | F_stopped

text \<open>Besides the storage: the program counters, whether \<open>stopCh\<close> is closed, the next address, and
  all items received so far, which no step reads.\<close>

record ('b, 's, 'w) system = "('b, 's) Storage" +
  sy_writer :: "('s, 'w) write_pc"
  sy_flusher :: "'b flush_pc"
  sy_closed :: bool
  sy_next :: nat
  sy_accepted :: "'w list"

definition open_system :: "(EventKey, 'v, 's) skiplist \<Rightarrow> ('b, 's, 'w) system" where
  "open_system S = Storage.extend (open_storage S)
     \<lparr>sy_writer = W_poll, sy_flusher = F_select 0, sy_closed = False, sy_next = 0, sy_accepted = []\<rparr>"

definition sending :: "'b flush_pc \<Rightarrow> bool" where
  "sending f \<longleftrightarrow> (\<exists>c a rest. f = F_send c a rest)"

definition selecting :: "'b flush_pc \<Rightarrow> bool" where
  "selecting f \<longleftrightarrow> (\<exists>c. f = F_select c)"

definition removing :: "('s, 'w) write_pc \<Rightarrow> bool" where
  "removing w \<longleftrightarrow> (\<exists>a b. w = W_remove a b)"

subsection \<open>Steps\<close>

inductive step ::
  "'b roaring \<Rightarrow> (EventKey, ('ts, 'f) memTableItem, 's) skiplist \<Rightarrow> ('ts option \<Rightarrow> go_time) \<Rightarrow> bool \<Rightarrow>
   ('b, 's, ('ts, 'f) writeItem) system \<Rightarrow> ('b, 's, ('ts, 'f) writeItem) system \<Rightarrow> bool"
  for R S as_time late where
  poll_done: "sy_writer s = W_poll \<Longrightarrow> sy_flusher s = F_send c a rest \<Longrightarrow>
    step R S as_time late s (s\<lparr>sy_writer := W_remove a True, sy_flusher := F_merge c rest\<rparr>)"
| poll_stop: "sy_writer s = W_poll \<Longrightarrow> sy_closed s \<Longrightarrow>
    step R S as_time late s (s\<lparr>sy_writer := W_stopped\<rparr>)"
| poll_default: "sy_writer s = W_poll \<Longrightarrow> \<not> sending (sy_flusher s) \<Longrightarrow> \<not> sy_closed s \<Longrightarrow>
    step R S as_time late s (s\<lparr>sy_writer := W_wait\<rparr>)"
| wait_write: "sy_writer s = W_wait \<Longrightarrow>
    step R S as_time late s (s\<lparr>sy_writer := W_batch batch, sy_accepted := sy_accepted s @ batch\<rparr>)"
| wait_done: "sy_writer s = W_wait \<Longrightarrow> sy_flusher s = F_send c a rest \<Longrightarrow>
    step R S as_time late s (s\<lparr>sy_writer := W_remove a False, sy_flusher := F_merge c rest\<rparr>)"
| wait_stop: "sy_writer s = W_wait \<Longrightarrow> sy_closed s \<Longrightarrow>
    step R S as_time late s (s\<lparr>sy_writer := W_stopped\<rparr>)"
| remove: "sy_writer s = W_remove a first \<Longrightarrow>
    step R S as_time late s
      (s\<lparr>st_pen := remove_pen a (st_pen s), sy_writer := (if first then W_wait else W_poll)\<rparr>)"
| batch_full: "sy_writer s = W_batch batch \<Longrightarrow> full_table S s \<Longrightarrow>
    step R S as_time late s (s\<lparr>st_cur := newMemTable S, sy_writer := W_convert (st_cur s) batch\<rparr>)"
| batch_room: "sy_writer s = W_batch batch \<Longrightarrow> \<not> full_table S s \<Longrightarrow>
    step R S as_time late s (s\<lparr>sy_writer := W_put batch\<rparr>)"
| convert: "sy_writer s = W_convert table batch \<Longrightarrow> fromMemTable R S as_time table = Some ri \<Longrightarrow>
    step R S as_time late s
      (append_pen (sy_next s) ri s\<lparr>sy_next := Suc (sy_next s), sy_writer := W_notify batch\<rparr>)"
| convert_panic: "sy_writer s = W_convert table batch \<Longrightarrow> fromMemTable R S as_time table = None \<Longrightarrow>
    step R S as_time late s (s\<lparr>sy_writer := W_panic, sy_flusher := F_panic\<rparr>)"
| notify: "sy_writer s = W_notify batch \<Longrightarrow> sy_flusher s = F_select c \<Longrightarrow>
    step R S as_time late s
      (s\<lparr>sy_writer := W_put batch, sy_flusher := (if c + 1 \<ge> 4 then F_load 0 else F_select (c + 1))\<rparr>)"
| notify_default: "sy_writer s = W_notify batch \<Longrightarrow> \<not> selecting (sy_flusher s) \<Longrightarrow>
    step R S as_time late s (s\<lparr>sy_writer := W_put batch\<rparr>)"
| put: "sy_writer s = W_put (wi # wis) \<Longrightarrow>
    step R S as_time late s
      (s\<lparr>st_cur := putItem S (st_cur s) (fst wi) (snd wi), sy_writer := W_put wis\<rparr>)"
| put_done: "sy_writer s = W_put [] \<Longrightarrow> step R S as_time late s (s\<lparr>sy_writer := W_poll\<rparr>)"
| timer: "sy_flusher s = F_select c \<Longrightarrow> late \<or> \<not> removing (sy_writer s) \<Longrightarrow>
    step R S as_time late s (s\<lparr>sy_flusher := F_load c\<rparr>)"
| flush_stop: "sy_flusher s = F_select c \<Longrightarrow> sy_closed s \<Longrightarrow>
    step R S as_time late s (s\<lparr>sy_flusher := F_stopped\<rparr>)"
| load: "sy_flusher s = F_load c \<Longrightarrow> step R S as_time late s (s\<lparr>sy_flusher := F_merge c (st_pen s)\<rparr>)"
| merge: "sy_flusher s = F_merge c ((a, ri) # rest) \<Longrightarrow> mergeLevel R (st_levels s) ri = Some levels \<Longrightarrow>
    step R S as_time late s (s\<lparr>st_levels := levels, sy_flusher := F_send c a rest\<rparr>)"
| merge_panic: "sy_flusher s = F_merge c ((a, ri) # rest) \<Longrightarrow> mergeLevel R (st_levels s) ri = None \<Longrightarrow>
    step R S as_time late s (s\<lparr>sy_writer := W_panic, sy_flusher := F_panic\<rparr>)"
| merge_done: "sy_flusher s = F_merge c [] \<Longrightarrow> step R S as_time late s (s\<lparr>sy_flusher := F_select c\<rparr>)"
| close: "\<not> sy_closed s \<Longrightarrow> sy_flusher s \<noteq> F_panic \<Longrightarrow> step R S as_time late s (s\<lparr>sy_closed := True\<rparr>)"

abbreviation steps where
  "steps R S as_time late \<equiv> (step R S as_time late)\<^sup>*\<^sup>*"

abbreviation reach where
  "reach R S as_time late \<equiv> steps R S as_time late (open_system S)"

text \<open>What one step does to the parts.\<close>

lemma open_system_simps [simp]:
  "st_cur (open_system S) = newMemTable S" "st_pen (open_system S) = []"
  "st_levels (open_system S) = [None, None, None, None]" "sy_writer (open_system S) = W_poll"
  "sy_flusher (open_system S) = F_select 0" "\<not> sy_closed (open_system S)"
  "sy_next (open_system S) = 0" "sy_accepted (open_system S) = []"
  by (simp_all add: open_system_def open_storage_def Storage.defs)

lemma append_pen_simps [simp]:
  "st_pen (append_pen a ri s) = st_pen s @ [(a, ri)]" "st_cur (append_pen a ri s) = st_cur s"
  "st_levels (append_pen a ri s) = st_levels s" "sy_writer (append_pen a ri s) = sy_writer s"
  "sy_flusher (append_pen a ri s) = sy_flusher s" "sy_closed (append_pen a ri s) = sy_closed s"
  "sy_next (append_pen a ri s) = sy_next s" "sy_accepted (append_pen a ri s) = sy_accepted s"
  by (simp_all add: append_pen_def)

lemma step_accepted: "step R S as_time late s t \<Longrightarrow> prefix (sy_accepted s) (sy_accepted t)"
  by (induction rule: step.induct) simp_all

lemma steps_accepted: "steps R S as_time late s t \<Longrightarrow> prefix (sy_accepted s) (sy_accepted t)"
  by (induction rule: rtranclp_induct) (auto dest: step_accepted intro: prefix_order.trans)

subsection \<open>Pointers\<close>

text \<open>The addresses of the indices that are already merged and still in \<open>pen\<close>, and those the flush
  worker has still to merge.\<close>

definition merged :: "('b, 's, 'w) system \<Rightarrow> nat set" where
  "merged s = {a. (\<exists>b. sy_writer s = W_remove a b) \<or> (\<exists>c rest. sy_flusher s = F_send c a rest)}"

definition queue :: "'b flush_pc \<Rightarrow> 'b index_ptr list" where
  "queue f = (case f of F_merge c rest \<Rightarrow> rest | F_send c a rest \<Rightarrow> rest | _ \<Rightarrow> [])"

lemma queue_simps [simp]:
  "queue (F_merge c rest) = rest" "queue (F_send c a rest) = rest" "queue (F_select c) = []"
  "queue (F_load c) = []" "queue F_panic = []" "queue F_stopped = []"
  by (simp_all add: queue_def)

definition ptrs_ok :: "('b, 's, 'w) system \<Rightarrow> bool" where
  "ptrs_ok s \<longleftrightarrow> distinct (map fst (st_pen s)) \<and> (\<forall>p \<in> set (st_pen s). fst p < sy_next s) \<and>
     distinct (map fst (queue (sy_flusher s))) \<and> set (queue (sy_flusher s)) \<subseteq> set (st_pen s) \<and>
     merged s \<subseteq> fst ` set (st_pen s) \<and> merged s \<inter> fst ` set (queue (sy_flusher s)) = {} \<and>
     (\<forall>a b c rest. sy_writer s = W_remove a b \<longrightarrow> sy_flusher s \<noteq> F_send c a rest) \<and>
     (\<forall>a b c. sy_writer s = W_remove a b \<longrightarrow> sy_flusher s \<noteq> F_load c)"

lemma remove_pen_filter: "distinct (map fst ps) \<Longrightarrow> remove_pen a ps = filter (\<lambda>p. fst p \<noteq> a) ps"
proof (induction ps)
  case (Cons p ps)
  then show ?case by (auto simp: image_iff intro!: filter_True [symmetric])
qed simp

lemma ptrs_ok_init: "ptrs_ok (open_system S)"
  by (simp add: ptrs_ok_def merged_def)

lemma ptrs_ok_step:
  assumes "step R S as_time False s t" and "ptrs_ok s"
  shows "ptrs_ok t"
  using assms
proof (induction rule: step.induct)
  case (remove s a first)
  then have d: "distinct (map fst (st_pen s))" by (simp add: ptrs_ok_def)
  from remove have a: "a \<notin> fst ` set (queue (sy_flusher s))" "\<And>c rest. sy_flusher s \<noteq> F_send c a rest"
    by (auto simp: ptrs_ok_def merged_def)
  have m: "merged (s\<lparr>st_pen := remove_pen a (st_pen s), sy_writer := (if first then W_wait else W_poll)\<rparr>) = merged s - {a}"
    using remove(1) a(2) by (auto simp: merged_def)
  have "set (queue (sy_flusher s)) \<subseteq> set (filter (\<lambda>p. fst p \<noteq> a) (st_pen s))"
    using remove(2) a(1) by (auto simp: ptrs_ok_def)
  moreover have "merged s - {a} \<subseteq> fst ` set (filter (\<lambda>p. fst p \<noteq> a) (st_pen s))"
    using remove(2) by (auto simp: ptrs_ok_def)
  moreover have "distinct (map fst (filter (\<lambda>p. fst p \<noteq> a) (st_pen s)))" using d by (rule distinct_map_filter)
  ultimately show ?case
    unfolding ptrs_ok_def m using remove(2) by (auto simp: ptrs_ok_def remove_pen_filter [OF d])
next
  case (convert s table batch ri)
  then show ?case by (auto simp: ptrs_ok_def merged_def)
qed (auto simp: ptrs_ok_def merged_def removing_def intro: rev_image_eqI)

end
