(* ===== verification/Storage_Invariant.thy ===== *)
theory Storage_Invariant
  imports Storage_Workers
begin

text \<open>
  The invariant of the write path: as long as no version is written twice, every accepted item, an
  event or a tombstone, is in exactly one place (still to be put, in the current table, in the table
  being converted, in a waiting index not merged yet, or in a level), and every index stands for
  accepted events only. A panic can only come from the conversion of a table with a tombstone.
\<close>

subsection \<open>Accepted items\<close>

definition row_keys :: "('ts option \<Rightarrow> go_time) \<Rightarrow> 'ts row list \<Rightarrow> EventKey multiset" where
  "row_keys as_time rows = mset (map (row_key as_time) rows)"

lemma size_row_keys [simp]: "size (row_keys as_time rows) = length rows"
  by (simp add: row_keys_def)

definition item_keys :: "('ts, 'f) writeItem list \<Rightarrow> EventKey multiset" where
  "item_keys items = mset (map (index_key \<circ> fst) items)"

lemma item_keys_simps [simp]:
  "item_keys [] = {#}" "item_keys (xs @ ys) = item_keys xs + item_keys ys"
  "item_keys (x # xs) = add_mset (index_key (fst x)) (item_keys xs)" "size (item_keys xs) = length xs"
  by (simp_all add: item_keys_def)

lemma item_keys_writes: "item_keys (map (table_write F as_time) rows) = row_keys as_time rows"
  by (simp add: item_keys_def row_keys_def row_key_write [symmetric] multiset.map_comp comp_def)

lemma version_index_key: "version_view (index_key k) = version_view k"
  by (simp add: version_view_def key_view_def index_key_def in_Local_def instant_def)

lemma item_rows_append: "item_rows (xs @ ys) = item_rows xs @ item_rows ys"
  by (induction xs rule: item_rows.induct) (auto split: option.splits)

text \<open>The items are what the calls write: events, and tombstones without one. No version is written twice;
  a commit has its own timestamp, so only an update that leaves the start time at the same instant
  does that.\<close>

definition item_ok :: "'f bloom \<Rightarrow> ('ts option \<Rightarrow> go_time) \<Rightarrow> ('ts, 'f) writeItem \<Rightarrow> bool" where
  "item_ok F as_time x \<longleftrightarrow> (\<exists>row. x = table_write F as_time row) \<or> mi_event (snd x) = None \<and> key_IsDeleted (fst x)"

definition written :: "'f bloom \<Rightarrow> ('ts option \<Rightarrow> go_time) \<Rightarrow> ('ts, 'f) writeItem list \<Rightarrow> bool" where
  "written F as_time items \<longleftrightarrow> (\<forall>x \<in> set items. item_ok F as_time x) \<and> length items \<le> 2 ^ 32 \<and>
     distinct (map (version_view \<circ> fst) items)"

lemma items_of_rows:
  assumes "\<forall>x \<in> set items. item_ok F as_time x" and "\<forall>x \<in> set items. mi_event (snd x) \<noteq> None"
  shows "items = map (table_write F as_time) (item_rows items)"
  using assms
proof (induction items)
  case (Cons x items)
  then obtain row where x: "x = table_write F as_time row" by (auto simp: item_ok_def)
  have "item_rows (x # items) = row # item_rows items"
    using item_rows_writes [of F as_time "[row]"] item_rows_append [of "[x]" items] by (simp add: x)
  with Cons x show ?case by simp
qed simp

lemma item_rows_iff: "row \<in> set (item_rows items) \<Longrightarrow> \<forall>x \<in> set items. item_ok F as_time x \<Longrightarrow> table_write F as_time row \<in> set items"
proof (induction items)
  case (Cons x items)
  show ?case
  proof (cases "row \<in> set (item_rows items)")
    case False
    have "row \<in> set (item_rows [x])" using Cons.prems(1) False item_rows_append [of "[x]" items] by simp
    moreover from this obtain row' where "x = table_write F as_time row'"
      using Cons.prems(2) by (cases x) (auto simp: item_ok_def)
    ultimately show ?thesis using item_rows_writes [of F as_time "[row']"] by simp
  qed (use Cons in simp)
qed simp

lemma item_rows_mem:
  assumes "table_write F as_time row \<in> set items"
  shows "row \<in> set (item_rows items)"
proof -
  from split_list [OF assms] obtain as bs where "items = as @ [table_write F as_time row] @ bs" by auto
  then show ?thesis using item_rows_writes [of F as_time "[row]"] by (simp add: item_rows_append del: append_Cons)
qed

lemma written_rows: "written F as_time items \<Longrightarrow> row \<in> set (item_rows items) \<longleftrightarrow> table_write F as_time row \<in> set items"
  using item_rows_iff item_rows_mem unfolding written_def by blast

lemma written_writes: "length rows \<le> 2 ^ 32 \<Longrightarrow> distinct (map (version_view \<circ> row_key as_time) rows) \<Longrightarrow>
    written F as_time (map (table_write F as_time) rows)"
  unfolding written_def item_ok_def map_map comp_assoc [symmetric]
  by (auto simp: version_view_row_key [of as_time _ F] comp_def)

lemma written_prefix: "written F as_time ys \<Longrightarrow> prefix xs ys \<Longrightarrow> written F as_time xs"
  by (auto simp: written_def elim!: prefixE)

lemma written_inj: "written F as_time items \<Longrightarrow> x \<in> set items \<Longrightarrow> y \<in> set items \<Longrightarrow> version_view (fst x) = version_view (fst y) \<Longrightarrow> x = y"
  by (auto simp: written_def distinct_map inj_on_def)

definition table_of :: "(EventKey, ('ts, 'f) memTableItem, 's) skiplist \<Rightarrow> 'f bloom \<Rightarrow> ('ts option \<Rightarrow> go_time) \<Rightarrow>
    'ts row list \<Rightarrow> 's memTable" where
  "table_of S F as_time rows = put_all S (map (table_write F as_time) rows)"

lemma put_all_Nil: "put_all S [] = newMemTable S"
  by (simp add: put_all_def)

lemma put_all_put: "putItem S (put_all S items) (fst x) (snd x) = put_all S (items @ [x])"
  by (simp add: put_all_def split: prod.splits)

subsection \<open>The invariant\<close>

definition pending_items :: "('s, 'w) write_pc \<Rightarrow> 'w list" where
  "pending_items w = (case w of W_batch b \<Rightarrow> b | W_convert t b \<Rightarrow> b | W_notify b \<Rightarrow> b | W_put b \<Rightarrow> b | _ \<Rightarrow> [])"

definition converting :: "('s, 'w) write_pc \<Rightarrow> 's memTable option" where
  "converting w = (case w of W_convert t b \<Rightarrow> Some t | _ \<Rightarrow> None)"

lemma pc_simps [simp]:
  "pending_items W_poll = []" "pending_items W_wait = []" "pending_items (W_remove a f) = []"
  "pending_items (W_batch b) = b" "pending_items (W_convert t b) = b" "pending_items (W_notify b) = b"
  "pending_items (W_put b) = b" "pending_items W_panic = []" "pending_items W_stopped = []"
  "converting W_poll = None" "converting W_wait = None" "converting (W_remove a f) = None"
  "converting (W_batch b) = None" "converting (W_convert t b) = Some t" "converting (W_notify b) = None"
  "converting (W_put b) = None" "converting W_panic = None" "converting W_stopped = None"
  by (simp_all add: pending_items_def converting_def)

definition pen_keys :: "nat set \<Rightarrow> 'b index_ptr list \<Rightarrow> EventKey multiset" where
  "pen_keys M pen = sum_list (map (\<lambda>p. mset (ri_keys (snd p))) (filter (\<lambda>p. fst p \<notin> M) pen))"

definition rows_ok ::
  "'b roaring \<Rightarrow> (EventKey, ('ts, 'f) memTableItem, 's) skiplist \<Rightarrow> 'f bloom \<Rightarrow> ('ts option \<Rightarrow> go_time) \<Rightarrow>
   ('b, 's, ('ts, 'f) writeItem) system \<Rightarrow> ('ts, 'f) writeItem list \<Rightarrow> ('ts, 'f) writeItem list \<Rightarrow> bool" where
  "rows_ok R S F as_time s ic io \<longleftrightarrow>
     st_cur s = put_all S ic \<and>
     (case converting (sy_writer s) of Some t \<Rightarrow> t = put_all S io | None \<Rightarrow> io = []) \<and>
     item_keys (sy_accepted s) = item_keys (pending_items (sy_writer s)) + item_keys ic + item_keys io +
       pen_keys (merged s) (st_pen s) + levels_keys (st_levels s) \<and>
     set (pending_items (sy_writer s)) \<union> set ic \<union> set io \<subseteq> set (sy_accepted s) \<and>
     (\<forall>p \<in> set (st_pen s). holds_rows R as_time (set (item_rows (sy_accepted s))) (snd p)) \<and>
     length (st_levels s) = 4 \<and>
     (\<forall>l \<in> set (st_levels s). level_rows R as_time (set (item_rows (sy_accepted s))) l) \<and>
     (\<forall>p \<in> set (st_pen s). fst p \<in> merged s \<longrightarrow> set (ri_keys (snd p)) \<subseteq> set_mset (levels_keys (st_levels s))) \<and>
     sy_writer s \<noteq> W_panic \<and> sy_flusher s \<noteq> F_panic"

lemma rows_ok_init: "rows_ok R S F as_time (open_system S) [] []"
  by (simp add: rows_ok_def put_all_Nil merged_def pen_keys_def levels_keys_def)

text \<open>The process has ended with a panic, after a tombstone was accepted.\<close>

definition dead :: "('b, 's, ('ts, 'f) writeItem) system \<Rightarrow> bool" where
  "dead s \<longleftrightarrow> sy_writer s = W_panic \<and> sy_flusher s = F_panic \<and> (\<exists>x \<in> set (sy_accepted s). mi_event (snd x) = None)"

lemma panic_stuck: "sy_writer s = W_panic \<Longrightarrow> sy_flusher s = F_panic \<Longrightarrow> \<not> step R S as_time late s t"
  by (auto elim: step.cases)

text \<open>Most steps change nothing the invariant speaks of.\<close>

lemma rows_ok_frame:
  assumes "rows_ok R S F as_time s ic io"
    and "st_cur t = st_cur s" "st_pen t = st_pen s" "st_levels t = st_levels s" "sy_accepted t = sy_accepted s"
    and "merged t = merged s" "pending_items (sy_writer t) = pending_items (sy_writer s)"
    and "converting (sy_writer t) = converting (sy_writer s)" 
    and "sy_writer t = W_panic \<Longrightarrow> sy_writer s = W_panic" "sy_flusher t = F_panic \<Longrightarrow> sy_flusher s = F_panic"
  shows "rows_ok R S F as_time t ic io"
  using assms by (auto simp: rows_ok_def)

lemma pen_keys_mem: "k \<in># pen_keys M pen \<Longrightarrow> \<exists>p \<in> set pen. k \<in> set (ri_keys (snd p))"
  by (induction pen) (auto simp: pen_keys_def split: if_splits)

lemma pen_keys_insert:
  assumes "(a, ri) \<in> set pen" and "distinct (map fst pen)" and "a \<notin> M"
  shows "pen_keys M pen = pen_keys (insert a M) pen + mset (ri_keys ri)"
  using assms
proof (induction pen)
  case (Cons p pen)
  show ?case
  proof (cases "p = (a, ri)")
    case True
    then have "a \<notin> fst ` set pen" using Cons.prems(2) by simp
    then have "filter (\<lambda>p. fst p \<noteq> a \<and> fst p \<notin> M) pen = filter (\<lambda>p. fst p \<notin> M) pen"
      by (intro filter_cong) auto
    with True Cons.prems(3) show ?thesis by (simp add: pen_keys_def)
  next
    case False
    then have pen: "(a, ri) \<in> set pen" using Cons.prems(1) by simp
    moreover have "fst p \<noteq> a" using Cons.prems(2) image_eqI [OF _ pen, of a fst] by auto
    ultimately have "(a, ri) \<in> set pen" "fst p \<noteq> a" .
    with Cons show ?thesis by (simp add: pen_keys_def ac_simps)
  qed
qed simp

lemma pen_keys_remove:
  "distinct (map fst pen) \<Longrightarrow> a \<in> M \<Longrightarrow> pen_keys (M - {a}) (remove_pen a pen) = pen_keys M pen"
  by (auto simp: pen_keys_def remove_pen_filter intro!: arg_cong [where f = sum_list] arg_cong2 [where f = map] filter_cong)

subsection \<open>The steps that move items\<close>

lemma parts:
  "rows_ok R S F as_time s ic io \<Longrightarrow> item_keys (sy_accepted s) =
     item_keys (pending_items (sy_writer s)) + item_keys ic + item_keys io +
     pen_keys (merged s) (st_pen s) + levels_keys (st_levels s)"
  by (simp add: rows_ok_def)

lemma total: "written F as_time (sy_accepted s) \<Longrightarrow> size (item_keys (sy_accepted s)) \<le> 2 ^ 32"
  by (simp add: written_def)

lemma distinct_sub: "mset xs \<subseteq># mset ys \<Longrightarrow> distinct ys \<Longrightarrow> distinct xs"
  by (metis distinct_append mset_append mset_eq_imp_distinct_iff mset_subset_eq_exists_conv ex_mset)

lemma item_views: "image_mset version_view (item_keys items) = mset (map (version_view \<circ> fst) items)"
  by (simp add: item_keys_def multiset.map_comp comp_def version_index_key)

lemma held_items:
  assumes acc: "written F as_time (sy_accepted s)" and sub: "item_keys items \<subseteq># item_keys (sy_accepted s)"
  shows "distinct (map (version_view \<circ> fst) items)" "length items \<le> 2 ^ 32"
proof -
  have "mset (map (version_view \<circ> fst) items) \<subseteq># mset (map (version_view \<circ> fst) (sy_accepted s))"
    using image_mset_subseteq_mono [OF sub, of version_view] unfolding item_views .
  then show "distinct (map (version_view \<circ> fst) items)"
    by (rule distinct_sub) (use acc in \<open>simp add: written_def\<close>)
  show "length items \<le> 2 ^ 32" using size_mset_mono [OF sub] total [OF acc] by simp
qed

lemma converted_items:
  assumes acc: "written F as_time (sy_accepted s)" and ok: "rows_ok R S F as_time s ic io"
  shows "distinct (map (version_view \<circ> fst) io)" "length io \<le> 2 ^ 32"
proof -
  have "item_keys io \<subseteq># item_keys (sy_accepted s)" unfolding parts [OF ok] by simp
  then show "distinct (map (version_view \<circ> fst) io)" "length io \<le> 2 ^ 32" using held_items [OF acc] by blast+
qed

lemma current_items:
  assumes acc: "written F as_time (sy_accepted s)" and ok: "rows_ok R S F as_time s ic io"
  shows "distinct (map (version_view \<circ> fst) ic)"
proof -
  have "item_keys ic \<subseteq># item_keys (sy_accepted s)" unfolding parts [OF ok] by simp
  then show ?thesis using held_items [OF acc] by blast
qed

text \<open>The keys of a table, as an index built from it holds them.\<close>

definition table_keys :: "(EventKey, 'v, 's) skiplist \<Rightarrow> 's memTable \<Rightarrow> EventKey multiset" where
  "table_keys S t = mset (map (index_key \<circ> fst) (sl_items S (mt_items t)))"

lemma put_all_keys:
  assumes S: "skip_list S made" and d: "distinct (map (version_view \<circ> fst) items)"
  shows "table_keys S (put_all S items) = item_keys items"
  using put_all_items [OF S d] unfolding table_keys_def item_keys_def mset_map by simp

lemma table_of_items:
  assumes S: "skip_list S made" and d: "distinct (map (version_view \<circ> row_key as_time) rows)"
  shows "mset (sl_items S (mt_items (table_of S F as_time rows))) = mset (map (table_write F as_time) rows)"
proof -
  have "map (version_view \<circ> fst) (map (table_write F as_time) rows) = map (version_view \<circ> row_key as_time) rows"
    by (simp add: version_view_row_key [of as_time _ F])
  then show ?thesis unfolding table_of_def by (metis put_all_items [OF S] d)
qed

text \<open>A table that can be converted has no tombstone; with one, the conversion panics.\<close>

lemma convert_index:
  assumes R: "roaring_bitmap R" and S: "skip_list S made"
    and acc: "written F as_time (sy_accepted s)" and ok: "rows_ok R S F as_time s ic io"
    and w: "sy_writer s = W_convert table batch"
  shows "case fromMemTable R S as_time table of
      Some ri \<Rightarrow> holds_rows R as_time (set (item_rows (sy_accepted s))) ri \<and> mset (ri_keys ri) = item_keys io
    | None \<Rightarrow> \<exists>x \<in> set (sy_accepted s). mi_event (snd x) = None"
proof -
  have t: "table = put_all S io" "set io \<subseteq> set (sy_accepted s)" using ok w by (auto simp: rows_ok_def)
  note d = converted_items [OF acc ok]
  have items: "set (sl_items S (mt_items table)) = set io"
    using put_all_items [OF S d(1)] unfolding t(1) by (rule mset_eq_setD)
  show ?thesis
  proof (cases "\<exists>x \<in> set io. mi_event (snd x) = None")
    case True
    then have "fromMemTable R S as_time table = None"
      unfolding fromMemTable_def by (intro index_items_tombstone) (auto simp: items)
    with True t(2) show ?thesis by auto
  next
    case False
    let ?rows = "item_rows io"
    have "\<forall>x \<in> set io. item_ok F as_time x" using acc t(2) by (auto simp: written_def)
    moreover have "\<forall>x \<in> set io. mi_event (snd x) \<noteq> None" using False by simp
    ultimately have io: "io = map (table_write F as_time) ?rows" by (rule items_of_rows)
    have views: "map (version_view \<circ> fst) (map (table_write F as_time) ?rows) = map (version_view \<circ> row_key as_time) ?rows"
      by (simp add: version_view_row_key [of as_time _ F])
    have "distinct (map (version_view \<circ> row_key as_time) ?rows)" using d(1) by (subst (asm) io) (simp only: views)
    moreover have "length ?rows \<le> 2 ^ 32" using d(2) length_item_rows [of io] by linarith
    ultimately obtain ri rows where
      ri: "fromMemTable R S as_time (put_all S (map (table_write F as_time) ?rows)) = Some ri" "ri_rep R as_time ri rows"
        "mset rows = mset ?rows"
      using table_rows [OF R S] by blast
    have "set rows \<subseteq> set (item_rows (sy_accepted s))"
    proof
      fix row assume "row \<in> set rows"
      then have "row \<in> set ?rows" using mset_eq_setD [OF ri(3)] by simp
      then have "table_write F as_time row \<in> set io" by (subst io) simp
      with t(2) show "row \<in> set (item_rows (sy_accepted s))" by (blast intro: item_rows_mem)
    qed
    moreover have "mset (ri_keys ri) = item_keys io"
      using ri(3) by (subst io) (simp add: ri_repD(2) [OF ri(2)] item_keys_writes row_keys_def)
    ultimately show ?thesis using ri unfolding t(1) io [symmetric] holds_rows_def by auto
  qed
qed

lemma convert_ok:
  assumes R: "roaring_bitmap R" and S: "skip_list S made" and ptrs: "ptrs_ok s"
    and acc: "written F as_time (sy_accepted s)" and ok: "rows_ok R S F as_time s ic io"
    and w: "sy_writer s = W_convert table batch" and ri: "fromMemTable R S as_time table = Some ri"
  shows "rows_ok R S F as_time
    (append_pen (sy_next s) ri s\<lparr>sy_next := Suc (sy_next s), sy_writer := W_notify batch\<rparr>) ic []"
    (is "rows_ok _ _ _ _ ?t _ _")
proof -
  have new: "sy_next s \<notin> merged s" using ptrs by (fastforce simp: ptrs_ok_def)
  have m: "merged ?t = merged s" by (simp add: merged_def w)
  note index = convert_index [OF R S acc ok w, unfolded ri option.case]
  have "pen_keys (merged s) (st_pen s @ [(sy_next s, ri)]) = pen_keys (merged s) (st_pen s) + item_keys io"
    using index new by (simp add: pen_keys_def)
  with index show ?thesis using ok new parts [OF ok] by (simp add: rows_ok_def m w ac_simps)
qed

lemma put_ok:
  assumes ok: "rows_ok R S F as_time s ic io" and w: "sy_writer s = W_put (wi # wis)"
  shows "rows_ok R S F as_time
    (s\<lparr>st_cur := putItem S (st_cur s) (fst wi) (snd wi), sy_writer := W_put wis\<rparr>) (ic @ [wi]) io"
    (is "rows_ok _ _ _ _ ?t _ _")
proof -
  have "merged ?t = merged s" by (simp add: merged_def w)
  moreover have "putItem S (st_cur s) (fst wi) (snd wi) = put_all S (ic @ [wi])"
    using ok by (simp add: rows_ok_def put_all_put)
  ultimately show ?thesis using ok unfolding rows_ok_def by (simp add: w)
qed

lemma merge_ok:
  assumes R: "roaring_bitmap R" and S: "skip_list S made" and ptrs: "ptrs_ok s"
    and acc: "written F as_time (sy_accepted s)" and ok: "rows_ok R S F as_time s ic io"
    and f: "sy_flusher s = F_merge c ((a, ri) # rest)"
  shows "\<exists>levels. mergeLevel R (st_levels s) ri = Some levels \<and>
    levels_keys levels = levels_keys (st_levels s) + mset (ri_keys ri) \<and>
    rows_ok R S F as_time (s\<lparr>st_levels := levels, sy_flusher := F_send c a rest\<rparr>) ic io"
proof -
  have pen: "(a, ri) \<in> set (st_pen s)" "distinct (map fst (st_pen s))" "a \<notin> merged s"
    using ptrs f by (auto simp: ptrs_ok_def)
  note keys = pen_keys_insert [OF pen]
  have "size (levels_keys (st_levels s) + mset (ri_keys ri)) \<le> 2 ^ 32"
    using total [OF acc] unfolding parts [OF ok] keys by simp
  moreover have "holds_rows R as_time (set (item_rows (sy_accepted s))) ri"
    using ok pen(1) by (force simp: rows_ok_def)
  moreover have "\<forall>l \<in> set (st_levels s). level_rows R as_time (set (item_rows (sy_accepted s))) l" "length (st_levels s) = 4"
    using ok by (simp_all add: rows_ok_def)
  ultimately obtain levels where l: "mergeLevel R (st_levels s) ri = Some levels" "length levels = 4"
      "\<forall>l \<in> set levels. level_rows R as_time (set (item_rows (sy_accepted s))) l"
      "levels_keys levels = levels_keys (st_levels s) + mset (ri_keys ri)"
    using mergeLevel_holds [OF R] by blast
  let ?t = "s\<lparr>st_levels := levels, sy_flusher := F_send c a rest\<rparr>"
  have m: "merged ?t = insert a (merged s)" using f by (auto simp: merged_def)
  have same: "p = (a, ri)" if "p \<in> set (st_pen s)" "fst p = a" for p
    using that pen(1,2) by (metis distinct_map fst_conv inj_on_def)
  have old: "\<forall>p \<in> set (st_pen s). fst p \<in> merged s \<longrightarrow> set (ri_keys (snd p)) \<subseteq> set_mset (levels_keys (st_levels s))"
    using ok by (simp add: rows_ok_def)
  have "\<forall>p \<in> set (st_pen s). fst p \<in> merged ?t \<longrightarrow> set (ri_keys (snd p)) \<subseteq> set_mset (levels_keys levels)"
    unfolding m l(4) using old same by fastforce
  moreover have "item_keys (sy_accepted s) =
     item_keys (pending_items (sy_writer s)) + item_keys ic + item_keys io + pen_keys (merged ?t) (st_pen s) + levels_keys levels"
    unfolding parts [OF ok] keys m l(4) by (simp add: ac_simps)
  ultimately have "rows_ok R S F as_time ?t ic io"
    using ok l(2,3) by (simp add: rows_ok_def)
  with l(1,4) show ?thesis by blast
qed

lemma remove_ok:
  assumes R: "roaring_bitmap R" and S: "skip_list S made" and ptrs: "ptrs_ok s"
    and acc: "written F as_time (sy_accepted s)" and ok: "rows_ok R S F as_time s ic io"
    and w: "sy_writer s = W_remove a first"
  shows "rows_ok R S F as_time
    (s\<lparr>st_pen := remove_pen a (st_pen s), sy_writer := (if first then W_wait else W_poll)\<rparr>) ic io"
    (is "rows_ok _ _ _ _ ?t _ _")
proof -
  have d: "distinct (map fst (st_pen s))" "a \<in> merged s" using ptrs w by (auto simp: ptrs_ok_def merged_def)
  have m: "merged ?t = merged s - {a}" using ptrs w by (auto simp: merged_def ptrs_ok_def)
  have w': "pending_items (sy_writer ?t) = []" "converting (sy_writer ?t) = None" "sy_writer ?t \<noteq> W_panic" by simp_all
  have "set (remove_pen a (st_pen s)) \<subseteq> set (st_pen s)" by (simp add: remove_pen_filter [OF d(1)])
  then show ?thesis
    using ok pen_keys_remove [OF d] unfolding rows_ok_def m w' by (auto simp: w)
qed

lemma wait_write_ok:
  assumes ok: "rows_ok R S F as_time s ic io" and w: "sy_writer s = W_wait"
    and acc: "written F as_time (sy_accepted s @ batch)"
  shows "rows_ok R S F as_time (s\<lparr>sy_writer := W_batch batch, sy_accepted := sy_accepted s @ batch\<rparr>) ic io"
    (is "rows_ok _ _ _ _ ?t _ _")
proof -
  have m: "merged ?t = merged s" by (simp add: merged_def w)
  let ?W = "set (item_rows (sy_accepted s))" and ?V = "set (item_rows (sy_accepted s @ batch))"
  have sub: "?W \<subseteq> ?V" by (simp add: item_rows_append)
  have "level_rows R as_time ?V l" if "level_rows R as_time ?W l" for l
    using that holds_rows_mono [OF _ sub] by (cases l) auto
  then have "\<forall>l \<in> set (st_levels s). level_rows R as_time ?V l" using ok unfolding rows_ok_def by blast
  moreover have "\<forall>p \<in> set (st_pen s). holds_rows R as_time ?V (snd p)"
    using ok holds_rows_mono [OF _ sub] unfolding rows_ok_def by blast
  ultimately show ?thesis
    using ok sub unfolding rows_ok_def m by (auto simp: w item_rows_append ac_simps)
qed

lemma step_rows_ok:
  assumes R: "roaring_bitmap R" and S: "skip_list S made"
    and "step R S as_time False s t" and "ptrs_ok s" and "written F as_time (sy_accepted t)"
    and "rows_ok R S F as_time s ic io"
  shows "(\<exists>ic io. rows_ok R S F as_time t ic io) \<or> dead t"
  using assms(3-6)
proof (induction rule: step.induct)
  case (wait_write s batch)
  then show ?case using wait_write_ok by fastforce
next
  case (remove s a first)
  then show ?case using remove_ok [OF R S] by fastforce
next
  case (batch_full s batch)
  then have "rows_ok R S F as_time (s\<lparr>st_cur := newMemTable S, sy_writer := W_convert (st_cur s) batch\<rparr>) [] ic"
    by (simp add: rows_ok_def merged_def put_all_Nil)
  then show ?case by blast
next
  case (convert s table batch ri)
  then show ?case using convert_ok [OF R S] by fastforce
next
  case (convert_panic s table batch)
  then show ?case using convert_index [OF R S, of F as_time s ic io table batch] by (simp add: dead_def)
next
  case (put s wi wis)
  then show ?case using put_ok by blast
next
  case (merge s c a ri rest levels)
  then show ?case using merge_ok [OF R S] by fastforce
next
  case (merge_panic s c a ri rest)
  then show ?case using merge_ok [OF R S] by fastforce
qed (rule disjI1, rule exI, rule exI, erule rows_ok_frame; (simp add: merged_def; fail | auto simp: merged_def split: if_splits))+

subsection \<open>The size of an index\<close>

lemma ri_cardinality:
  assumes R: "roaring_bitmap R" and ri: "ri_rep R as_time ri rows"
  shows "bm_cardinality R (ri_all ri) = length rows"
proof -
  have n: "length rows \<le> 2 ^ 32" by (rule ri_repD(1) [OF ri])
  let ?f = "of_nat :: nat \<Rightarrow> u32"
  have "inj_on ?f {..<length rows}"
  proof (rule inj_onI)
    fix i j assume i: "i \<in> {..<length rows}" and j: "j \<in> {..<length rows}" and e: "?f i = ?f j"
    from i j n have "i < 2 ^ 32" "j < 2 ^ 32" by simp_all
    with arg_cong [OF e, of unat] show "i = j" by (simp only: unat_of_nat_u32)
  qed
  moreover have "c \<in> ?f ` {..<length rows}" if "unat c < length rows" for c
  proof (rule image_eqI)
    have "unat c < 2 ^ 32" using that n by simp
    then show "c = ?f (unat c)" by (simp only: word_unat_eq_iff unat_of_nat_u32)
  qed (simp add: that)
  then have "{c :: u32. unat c < length rows} = ?f ` {..<length rows}"
    using n by (auto simp: unat_of_nat_u32)
  ultimately have "card {c :: u32. unat c < length rows} = length rows" by (simp add: card_image)
  moreover have "set (bm_to_list R (ri_all ri)) = {c. unat c < length rows}"
    using ri_repD(3) [OF ri] by (simp add: roaring_bitmap.set_to_list [OF R] bm_set_def)
  ultimately show ?thesis
    using roaring_bitmap.cardinality_length [OF R] distinct_card [OF roaring_bitmap.distinct_to_list [OF R]] by metis
qed

subsection \<open>Reachable states\<close>

lemma reach_inv:
  assumes R: "roaring_bitmap R" and S: "skip_list S made" and "reach R S as_time False s"
    and "written F as_time (sy_accepted s)"
  shows "ptrs_ok s \<and> ((\<exists>ic io. rows_ok R S F as_time s ic io) \<or> dead s)"
  using assms(3,4)
proof (induction rule: rtranclp_induct)
  case base
  show ?case using ptrs_ok_init rows_ok_init by blast
next
  case (step s t)
  then have "ptrs_ok s \<and> ((\<exists>ic io. rows_ok R S F as_time s ic io) \<or> dead s)"
    using written_prefix [OF _ step_accepted] by blast
  moreover have "\<not> dead s" using panic_stuck step(2) unfolding dead_def by blast
  ultimately show ?case using step ptrs_ok_step step_rows_ok [OF R S] by blast
qed

lemma reach_rows:
  assumes "roaring_bitmap R" and "skip_list S made" and "reach R S as_time False s"
    and "written F as_time (sy_accepted s)" and "sy_writer s \<noteq> W_panic"
  obtains ic io where "ptrs_ok s" and "rows_ok R S F as_time s ic io"
  using reach_inv [OF assms(1-4)] assms(5) by (auto simp: dead_def)

text \<open>What the indices of a state stand for, also when the process has ended.\<close>

definition indices_ok :: "'b roaring \<Rightarrow> ('ts option \<Rightarrow> go_time) \<Rightarrow> ('b, 's, ('ts, 'f) writeItem) system \<Rightarrow> bool" where
  "indices_ok R as_time s \<longleftrightarrow> (\<forall>p \<in> set (st_pen s). holds_rows R as_time (set (item_rows (sy_accepted s))) (snd p)) \<and>
     (\<forall>l \<in> set (st_levels s). level_rows R as_time (set (item_rows (sy_accepted s))) l)"

lemma reach_indices:
  assumes R: "roaring_bitmap R" and S: "skip_list S made" and "reach R S as_time False s"
    and "written F as_time (sy_accepted s)"
  shows "indices_ok R as_time s"
proof (cases "sy_writer s = W_panic")
  case False
  with reach_inv [OF assms] show ?thesis by (auto simp: rows_ok_def indices_ok_def dead_def)
next
  case True
  with assms(3) obtain u where u: "reach R S as_time False u" "step R S as_time False u s"
    by (auto elim: rtranclp.cases)
  then have "sy_writer u \<noteq> W_panic" using True reach_inv [OF R S u(1) written_prefix [OF assms(4) step_accepted [OF u(2)]]]
      panic_stuck [of u R S as_time False s] u(2) by (auto simp: rows_ok_def dead_def)
  then have "st_pen s = st_pen u \<and> st_levels s = st_levels u \<and> sy_accepted s = sy_accepted u"
    using u(2) True by (auto elim!: step.cases split: if_splits)
  moreover have "indices_ok R as_time u"
    using reach_inv [OF R S u(1) written_prefix [OF assms(4) step_accepted [OF u(2)]]] \<open>sy_writer u \<noteq> W_panic\<close>
    by (auto simp: rows_ok_def indices_ok_def dead_def)
  ultimately show ?thesis by (simp add: indices_ok_def)
qed

text \<open>What a reader finds in the indices: the keys in \<open>pen\<close> and those in the levels. Neither loses a
  key to a step, except that an index leaves \<open>pen\<close> after it has entered the levels.\<close>

definition pen_set :: "('b, 's, 'm) Storage_scheme \<Rightarrow> EventKey set" where
  "pen_set st = (\<Union>p \<in> set (st_pen st). set (ri_keys (snd p)))"

definition levels_set :: "('b, 's, 'm) Storage_scheme \<Rightarrow> EventKey set" where
  "levels_set st = (\<Union>l \<in> set (st_levels st). set_mset (level_keys l))"

lemma levels_set_keys: "levels_set s = set_mset (levels_keys (st_levels s))"
proof -
  have "(\<Union>l \<in> set ls. set_mset (level_keys l)) = set_mset (sum_list (map level_keys ls))"
    for ls :: "'b roaringIndex option list"
    by (induction ls) simp_all
  then show ?thesis by (simp add: levels_set_def levels_keys_def)
qed

lemma step_grows:
  assumes R: "roaring_bitmap R" and S: "skip_list S made"
    and "step R S as_time False s t" and "ptrs_ok s" and "written F as_time (sy_accepted s)"
    and "rows_ok R S F as_time s ic io"
  shows "levels_set s \<subseteq> levels_set t \<and> pen_set s \<union> levels_set s \<subseteq> pen_set t \<union> levels_set t"
  using assms(3-6)
proof (induction rule: step.induct)
  case (remove s a first)
  then have d: "distinct (map fst (st_pen s))" "a \<in> merged s" by (auto simp: ptrs_ok_def merged_def)
  have "\<forall>p \<in> set (st_pen s). fst p \<in> merged s \<longrightarrow> set (ri_keys (snd p)) \<subseteq> levels_set s"
    using remove(4) by (simp add: rows_ok_def levels_set_keys)
  with d(2) show ?case by (auto simp: pen_set_def levels_set_def remove_pen_filter [OF d(1)])
next
  case (merge s c a ri rest levels)
  then have "levels_keys levels = levels_keys (st_levels s) + mset (ri_keys ri)"
    using merge_ok [OF R S] by fastforce
  then show ?case by (auto simp: levels_set_keys pen_set_def)
qed (auto simp: pen_set_def levels_set_def)

lemma steps_grow:
  assumes R: "roaring_bitmap R" and S: "skip_list S made"
    and s: "reach R S as_time False s" and "steps R S as_time False s t" and "written F as_time (sy_accepted t)"
  shows "levels_set s \<subseteq> levels_set t \<and> pen_set s \<union> levels_set s \<subseteq> pen_set t \<union> levels_set t"
  using assms(4,5)
proof (induction rule: rtranclp_induct)
  case (step u t)
  have w: "written F as_time (sy_accepted u)" using written_prefix [OF step(4) step_accepted [OF step(2)]] .
  have "reach R S as_time False u" using s step(1) by (rule rtranclp_trans)
  from reach_inv [OF R S this w] panic_stuck step(2) obtain ic io where "ptrs_ok u" "rows_ok R S F as_time u ic io"
    unfolding dead_def by blast
  with step_grows [OF R S step(2) _ w] step.IH [OF w] show ?case by blast
qed simp

end
