(* ===== verification/List_Keys.thy ===== *)
theory List_Keys
  imports Storage_List Storage_Invariant
begin

text \<open>
  What the loop of a listing collects: the lemmas behind the properties of \<open>ListEvents\<close>. The loop
  ends and takes a prefix of what the merge of the iterators has left; an iterator over an index
  that represents rows has left keys of the selected rows, one over the current table keys of the
  matching items. With an ill-typed filter the listing fails as soon as there is an index.
\<close>

subsection \<open>The loop\<close>

definition take_page :: "int \<Rightarrow> EventKey list \<Rightarrow> EventKey list" where
  "take_page n ks = take (nat n) (filter (\<lambda>k. \<not> key_IsDeleted k) ks)"

context iterator
begin

text \<open>The loop over any iterator ends, without a panic, with the first keys it has left.\<close>

lemma collect_left:
  "inv s \<Longrightarrow> collect_keys Next Value n keys s =
     Some (keys @ take_page (n - int (length keys)) (left s))"
proof (induction "left s" arbitrary: keys s)
  case Nil
  with Next_done [of s] show ?case by (auto simp: collect_keys.simps take_page_def)
next
  case (Cons k ks)
  from Next_more [OF Cons.prems Cons.hyps(2) [symmetric]] obtain s' where
    s': "Next s = Some (True, s')" "inv s'" "left s' = ks" "Value s' = Some k" by blast
  note IH = Cons.hyps(1) [OF s'(3) [symmetric] s'(2)]
  show ?case
  proof (cases "int (length keys) < n")
    case True
    then have "nat (n - int (length keys)) = Suc (nat (n - int (length (keys @ [k]))))" by simp
    with True s' IH [of keys] IH [of "keys @ [k]"] show ?thesis
      by (subst collect_keys.simps) (simp add: Cons.hyps(2) [symmetric] take_page_def)
  next
    case False
    then show ?thesis by (simp add: collect_keys.simps take_page_def)
  qed
qed

end

subsection \<open>What the iterators have left\<close>

lemma ix_visible_mem:
  "k \<in> set (ix_visible ks ts l it) \<Longrightarrow> \<exists>i \<in> set it. k = ks ! unat i \<and> key_Timestamp k \<le> ts"
  by (induction it arbitrary: l) (auto simp: Let_def split: if_splits)

lemma ix_visible_all:
  "i \<in> set it \<Longrightarrow> key_Timestamp (ks ! unat i) \<le> ts \<Longrightarrow>
     (\<exists>k \<in> set (ix_visible ks ts l it). key_ID k = key_ID (ks ! unat i)) \<or> l = Some (key_ID (ks ! unat i))"
proof (induction it arbitrary: l)
  case (Cons j it)
  show ?case
  proof (cases "key_Timestamp (ks ! unat j) \<le> ts \<and> l \<noteq> Some (key_ID (ks ! unat j))")
    case True
    with Cons.prems Cons.IH [of "Some (key_ID (ks ! unat j))"] show ?thesis by (auto simp: Let_def)
  next
    case False
    with Cons.prems have "i = j \<Longrightarrow> l = Some (key_ID (ks ! unat i))" by simp
    with Cons.prems Cons.IH [of l] False show ?thesis by (auto simp: Let_def)
  qed
qed simp

subsection \<open>The iterators over the indices\<close>

text \<open>Keys that a listing may yield of an index: of selected rows, all those, if their ids are distinct.\<close>

definition selects :: "('ts option \<Rightarrow> go_time) \<Rightarrow> go_time \<Rightarrow> go_time \<Rightarrow> Filter option \<Rightarrow> u64 \<Rightarrow> 'ts row list \<Rightarrow> EventKey list \<Rightarrow> bool" where
  "selects as_time startTime endTime flt ts rows l \<longleftrightarrow>
     (\<forall>k \<in> set l. \<exists>row \<in> set rows. k = row_key as_time row \<and> row_matches as_time startTime endTime flt row \<and>
        key_Timestamp k \<le> ts) \<and>
     (\<forall>row \<in> set rows. row_matches as_time startTime endTime flt row \<longrightarrow> key_Timestamp (row_key as_time row) \<le> ts \<longrightarrow>
        (\<exists>k \<in> set l. key_ID k = key_ID (row_key as_time row))) \<and>
     length l \<le> length rows"

lemma length_ix_visible: "length (ix_visible ks ts l it) \<le> length it"
  by (induction it arbitrary: l) (auto simp: Let_def le_SucI)

lemma new_index_iterator:
  assumes R: "roaring_bitmap R" and rep: "ri_rep R as_time ri rows"
    and bm: "\<And>c. bm_contains R bm c \<longleftrightarrow> unat c < length rows \<and> row_matches as_time startTime endTime flt (rows ! unat c)"
  shows "\<exists>ii. NewIndexIterator R (ri_keys ri) bm ts = Some ii \<and> ii_inv (ri_keys ri) ii \<and>
    selects as_time startTime endTime flt ts rows (ii_left (ri_keys ri) ii)"
proof -
  let ?ks = "ri_keys ri" and ?it = "bm_to_list R bm"
  have keys: "?ks = map (row_key as_time) rows" by (rule ri_repD(2) [OF rep])
  have it: "set ?it = {c. unat c < length rows \<and> row_matches as_time startTime endTime flt (rows ! unat c)}"
    by (simp add: roaring_bitmap.set_to_list [OF R] bm_set_def bm)
  from ii_advance_left [of "\<lparr>ii_it = ?it, ii_index = 0, ii_nextIdx = 0, ii_hasNext = False,
      ii_lastEmittedID = [], ii_hasEmitted = False, ii_end = False, ii_ts = ts\<rparr>" ?ks] it
  obtain ii where ii: "NewIndexIterator R ?ks bm ts = Some ii" "ii_inv ?ks ii"
    "ii_left ?ks ii = ix_visible ?ks ts None ?it"
    by (auto simp: NewIndexIterator_def keys)
  have at: "?ks ! unat i = row_key as_time (rows ! unat i)" if "i \<in> set ?it" for i
    using that it by (simp add: keys)
  have "\<exists>row \<in> set rows. k = row_key as_time row \<and> row_matches as_time startTime endTime flt row \<and> key_Timestamp k \<le> ts"
    if "k \<in> set (ix_visible ?ks ts None ?it)" for k
    using ix_visible_mem [OF that] at it by fastforce
  moreover have "\<exists>k \<in> set (ix_visible ?ks ts None ?it). key_ID k = key_ID (row_key as_time row)"
    if r: "row \<in> set rows" "row_matches as_time startTime endTime flt row" "key_Timestamp (row_key as_time row) \<le> ts" for row
  proof -
    from r(1) obtain n where n: "n < length rows" "rows ! n = row" by (auto simp: in_set_conv_nth)
    have "length rows \<le> 2 ^ 32" by (rule ri_repD(1) [OF rep])
    with n(1) have u: "unat (of_nat n :: u32) = n" using roaring_bitmap.new_id [OF R] by simp
    with n r have "of_nat n \<in> set ?it" by (simp add: it)
    from ix_visible_all [OF this, of ?ks ts None] at [OF this] r(3) show ?thesis by (simp add: u n(2))
  qed
  moreover have "length (ix_visible ?ks ts None ?it) \<le> length rows"
  proof -
    have "distinct ?it" using roaring_bitmap.to_list_sorted [OF R, of bm] by (simp add: strict_sorted_iff)
    then have "length ?it = card (set ?it)" by (simp add: distinct_card)
    also have "\<dots> \<le> card {..<length rows}"
      by (rule card_inj_on_le [where f = unat]) (auto simp: it inj_on_def word_unat_eq_iff)
    finally show ?thesis using length_ix_visible [of ?ks ts None ?it] by simp
  qed
  ultimately show ?thesis using ii by (auto simp: selects_def)
qed

text \<open>Over indices that represent rows, a filter without an ill-typed restriction gives one iterator for
  each. Without an index any filter does.\<close>

lemma index_iterators_ok:
  assumes R: "roaring_bitmap R" and wf: "wf_filter flt" "filter_errors flt = [] \<or> set ris \<subseteq> {None}" and n: "0 < numCPU"
    and rep: "\<forall>l \<in> set ris. \<forall>ri. l = Some ri \<longrightarrow> (\<exists>rows. ri_rep R as_time ri rows \<and> P rows)"
  shows "\<exists>its. index_iterators R numCPU startTime endTime flt ts ris = Some (Inr its) \<and>
    (\<forall>it \<in> set its. any_inv S made it \<and> (\<exists>rows. P rows \<and> selects as_time startTime endTime flt ts rows (any_left S F it))) \<and>
    (\<forall>ri. Some ri \<in> set ris \<longrightarrow> (\<exists>it \<in> set its. \<exists>rows. ri_rep R as_time ri rows \<and> P rows \<and>
       selects as_time startTime endTime flt ts rows (any_left S F it))) \<and>
    length its = length (filter (\<lambda>l. l \<noteq> None) ris)"
  using rep wf(2)
proof (induction ris)
  case (Cons l ris)
  then obtain its where its: "index_iterators R numCPU startTime endTime flt ts ris = Some (Inr its)"
    "\<forall>it \<in> set its. any_inv S made it \<and> (\<exists>rows. P rows \<and> selects as_time startTime endTime flt ts rows (any_left S F it))"
    "\<forall>ri. Some ri \<in> set ris \<longrightarrow> (\<exists>it \<in> set its. \<exists>rows. ri_rep R as_time ri rows \<and> P rows \<and>
       selects as_time startTime endTime flt ts rows (any_left S F it))"
    "length its = length (filter (\<lambda>l. l \<noteq> None) ris)" by auto
  show ?case
  proof (cases l)
    case None
    with its show ?thesis by auto
  next
    case (Some ri)
    with Cons.prems obtain rows where rows: "ri_rep R as_time ri rows" "P rows" by auto
    have "filter_errors flt = []" using Cons.prems(2) Some by auto
    with roaring_bitmap.query_rows [OF R rows(1) wf(1) n, of startTime endTime] obtain bm where
      bm: "query R numCPU ri startTime endTime flt = Some (Inr bm)"
      "\<And>c. bm_contains R bm c \<longleftrightarrow> unat c < length rows \<and> row_matches as_time startTime endTime flt (rows ! unat c)" by auto
    from new_index_iterator [OF R rows(1) bm(2)] obtain ii where
      ii: "NewIndexIterator R (ri_keys ri) bm ts = Some ii" "ii_inv (ri_keys ri) ii"
      "selects as_time startTime endTime flt ts rows (ii_left (ri_keys ri) ii)" by blast
    let ?it = "Ind (ri_keys ri) ii"
    have "any_inv S made ?it" "selects as_time startTime endTime flt ts rows (any_left S F ?it)"
      using ii by simp_all
    moreover have "index_iterators R numCPU startTime endTime flt ts (l # ris) = Some (Inr (?it # its))"
      using its(1) bm(1) ii(1) by (simp add: Some)
    ultimately show ?thesis using its rows by (auto simp: Some)
  qed
qed simp

text \<open>An ill-typed restriction fails the listing as soon as there is an index.\<close>

lemma index_iterators_error:
  assumes R: "roaring_bitmap R" and wf: "wf_filter flt" "filter_errors flt = e # es" and n: "0 < numCPU"
    and rep: "\<forall>l \<in> set ris. \<forall>ri. l = Some ri \<longrightarrow> (\<exists>rows. ri_rep R as_time ri rows)"
  shows "index_iterators R numCPU startTime endTime flt ts ris =
    Some (if \<exists>ri. Some ri \<in> set ris then Inl e else Inr [])"
  using rep
proof (induction ris)
  case (Cons l ris)
  show ?case
  proof (cases l)
    case None
    with Cons show ?thesis by simp
  next
    case (Some ri)
    with Cons.prems obtain rows where "ri_rep R as_time ri rows" by auto
    from roaring_bitmap.query_rows [OF R this wf(1) n, of startTime endTime] wf(2) show ?thesis
      by (auto simp: Some)
  qed
qed simp

subsection \<open>The keys of a listing\<close>

definition indices :: "('b, 's, 'm) Storage_scheme \<Rightarrow> 'b roaringIndex option list" where
  "indices st = st_levels st @ map (Some \<circ> snd) (st_pen st)"

lemma list_keys_ok:
  fixes st :: "('b, 's) Storage" and flt :: "Filter option"
  assumes R: "roaring_bitmap R" and wf: "wf_filter flt" "filter_errors flt = [] \<or> set (indices st) \<subseteq> {None}"
    and n: "0 < numCPU" "0 \<le> page_size pg"
    and S: "skip_list S made" and cur: "made memTable_compare (mt_items (st_cur st))" "version_sorted (map fst (sl_items S (mt_items (st_cur st))))"
    and rep: "\<forall>l \<in> set (indices st). \<forall>ri. l = Some ri \<longrightarrow> (\<exists>rows. ri_rep R as_time ri rows \<and> P rows)"
  shows "\<exists>ls. list_keys R S F numCPU st puts startTime endTime flt ts pg = Some (Inr (take_page (page_size pg)
      (merge_out (live_left S F (st_cur st, puts, NewMemTableIterator flt ts) # ls)))) \<and>
    (\<forall>l \<in> set ls. \<exists>rows. P rows \<and> selects as_time startTime endTime flt ts rows l) \<and>
    (\<forall>ri. Some ri \<in> set (indices st) \<longrightarrow>
       (\<exists>l \<in> set ls. \<exists>rows. ri_rep R as_time ri rows \<and> P rows \<and> selects as_time startTime endTime flt ts rows l)) \<and>
    length ls = length (filter (\<lambda>l. l \<noteq> None) (indices st))"
proof -
  from index_iterators_ok [where F = F and S = S and made = made and ts = ts, OF R wf n(1) rep, of startTime endTime]
  obtain its where its: "index_iterators R numCPU startTime endTime flt ts (indices st) = Some (Inr its)"
    "\<forall>it \<in> set its. any_inv S made it \<and> (\<exists>rows. P rows \<and> selects as_time startTime endTime flt ts rows (any_left S F it))"
    "\<forall>ri. Some ri \<in> set (indices st) \<longrightarrow> (\<exists>it \<in> set its. \<exists>rows. ri_rep R as_time ri rows \<and> P rows \<and>
       selects as_time startTime endTime flt ts rows (any_left S F it))"
    "length its = length (filter (\<lambda>l. l \<noteq> None) (indices st))" by blast
  let ?mt = "live_left S F (st_cur st, puts, NewMemTableIterator flt ts)"
  let ?its = "Mem (st_cur st) puts (NewMemTableIterator flt ts) # its" and ?ls = "map (any_left S F) its"
  have "\<forall>it \<in> set ?its. any_inv S made it" using its(2) live_start(1) [OF S cur] by auto
  note start = iterator.mi_start [OF any.iterator_axioms this]
  have "collect_keys (mi_Next (any_Next S F) any_Value any_Valid) mi_Value (page_size pg) [] (NewMergeIterator ?its) =
      Some (take_page (page_size pg) (merge_out (?mt # ?ls)))"
    using iterator.collect_left [OF iterator.mi_iterator [OF any.iterator_axioms] conjunct1 [OF start], where n = "page_size pg" and keys = "[]"] start
    by simp
  then have "list_keys R S F numCPU st puts startTime endTime flt ts pg =
      Some (Inr (take_page (page_size pg) (merge_out (?mt # ?ls))))"
    using its(1) n(2) by (simp add: list_keys_def indices_def)
  moreover have "\<forall>l \<in> set ?ls. \<exists>rows. P rows \<and> selects as_time startTime endTime flt ts rows l" using its(2) by simp
  moreover have "\<forall>ri. Some ri \<in> set (indices st) \<longrightarrow>
      (\<exists>l \<in> set ?ls. \<exists>rows. ri_rep R as_time ri rows \<and> P rows \<and> selects as_time startTime endTime flt ts rows l)"
    using its(3) by fastforce
  moreover have "length ?ls = length (filter (\<lambda>l. l \<noteq> None) (indices st))" using its(4) by simp
  ultimately show ?thesis by blast
qed

lemma take_page_mem: "k \<in> set (take_page n ks) \<Longrightarrow> k \<in> set ks \<and> \<not> key_IsDeleted k"
  by (auto simp: take_page_def dest: in_set_takeD)

lemma take_page_all: "int (length (take_page n ks)) < n \<Longrightarrow> k \<in> set ks \<Longrightarrow> \<not> key_IsDeleted k \<Longrightarrow> k \<in> set (take_page n ks)"
  by (simp add: take_page_def min_def split: if_splits)

lemma length_take_page: "length (take_page n ks) \<le> length ks"
  unfolding take_page_def by (rule le_trans [OF _ length_filter_le [of "\<lambda>k. \<not> key_IsDeleted k"]]) simp

lemma take_page_length: "0 \<le> n \<Longrightarrow> int (length (take_page n ks)) \<le> n"
  by (simp add: take_page_def)

subsection \<open>The size of a page\<close>

text \<open>The loop never takes more keys than asked for, over any functions \<open>Next\<close> and \<open>Value\<close>.\<close>

lemma collect_bounded:
  assumes "collect_keys Next Val n keys it = Some ks"
  shows "int (length keys) \<le> n \<longrightarrow> int (length ks) \<le> n"
proof (rule collect_keys.raw_induct [where P = "\<lambda>Next Val n keys it ks. int (length keys) \<le> n \<longrightarrow> int (length ks) \<le> n", OF _ assms])
  fix collect Next Val n keys it ks
  assume IH: "\<And>Next Val n keys it ks. collect Next Val n keys it = Some ks \<Longrightarrow>
      int (length keys) \<le> n \<longrightarrow> int (length ks) \<le> n"
    and body: "(if int (length keys) < n then case Next it of None \<Rightarrow> None | Some (again, it) \<Rightarrow>
        if \<not> again then Some keys else (case Val it of None \<Rightarrow> None | Some item \<Rightarrow>
          if key_IsDeleted item then collect Next Val n keys it else collect Next Val n (keys @ [item]) it)
      else Some keys) = Some ks"
  from body show "int (length keys) \<le> n \<longrightarrow> int (length ks) \<le> n"
    by (auto split: if_splits option.splits prod.splits dest!: IH)
qed

lemma list_keys_bounded:
  "list_keys R S F numCPU st puts startTime endTime flt ts n = Some (Inr keys) \<Longrightarrow> int (length keys) \<le> page_size n"
  by (auto simp: list_keys_def Let_def not_less split: option.splits sum.splits if_splits dest: collect_bounded)

text \<open>The addition in 32 bits.\<close>

lemma page_size_eq: "page_size n = (if sint n = 2 ^ 31 - 1 then - (2 ^ 31) else sint n + 1)"
proof -
  have "- (2 ^ 31) \<le> sint n" "sint n < 2 ^ 31" using sint_greater_eq [of n] sint_less [of n] by simp_all
  moreover have "page_size n = signed_take_bit 31 (sint n + 1)" by (simp add: page_size_def sint_word_ariths)
  ultimately show ?thesis by (auto simp: signed_take_bit_int_eq_self)
qed

lemma length_found_events: "length (found_events m keys) \<le> length keys"
  by (induction keys) (auto split: option.splits)

end
