(* ===== verification/Listing_Spec.thy ===== *)
theory Listing_Spec
  imports Snapshot
begin

text \<open>
  The properties of the read path: building an index from a mem table, evaluating filters and
  queries, merging indices, and walking the results with the three iterators. They hold for any
  bitmaps, Bloom filters and skip lists with the documented behaviour, and for any conversion
  \<open>as_time\<close> of protobuf timestamps. Each property with a hypothesis is followed by a use of it on
  the list implementations.
\<close>

subsection \<open>Sample data\<close>

text \<open>Two events, in the order of a mem table: \<open>b\<close> starts after \<open>a\<close>.\<close>

definition sample_time :: "i64 \<Rightarrow> go_time" where
  "sample_time s = \<lparr>t_ext = s + unixToInternal, t_nsec = 0, t_loc = UTC\<rparr>"

definition sample_as_time :: "go_time option \<Rightarrow> go_time" where
  "sample_as_time t = (case t of None \<Rightarrow> sample_time 0 | Some t \<Rightarrow> t)"

definition sample_event :: "string \<Rightarrow> i64 \<Rightarrow> string list \<Rightarrow> go_time event" where
  "sample_event i s tags = \<lparr>ev_Id = i, ev_Title = [], ev_Description = [], ev_Resource = None,
     ev_StartTime = Some (sample_time s), ev_EndTime = Some (sample_time (s + 10)),
     ev_Tags = tags, ev_Annotations = [(''env'', ''prod'')], ev_CreatedBy = [], ev_UpdatedBy = [],
     ev_CreateTime = None, ev_UpdateTime = None, ev_DeleteTime = None\<rparr>"

definition sample_a :: "go_time row" where
  "sample_a = (sample_event ''a'' 100 [''x''], 7, False)"

definition sample_b :: "go_time row" where
  "sample_b = (sample_event ''b'' 200 [''y''], 7, False)"

text \<open>The filter \<open>tags = "x"\<close>.\<close>

definition sample_filter :: "Filter option" where
  "sample_filter = Some (Filter (Some (Expression [Some (Sequence [Some (Factor [Some (Term False
     (Some (Simple (Some (Restriction
       (Some (Comparable (Some (Member (Some (Value False ''tags'')) [])))) ''=''
       (Some (Arg (Some (Comparable (Some (Member (Some (Value True ''x'')) [])))) None)))) None)))])])])))"

lemmas sample_defs = sample_time_def sample_as_time_def sample_event_def sample_a_def sample_b_def
  sample_filter_def

lemma sample_filter_ok [simp]:
  "wf_filter sample_filter" "filter_errors sample_filter = []"
  "filter_holds P sample_filter \<longleftrightarrow> P (HasTag ''x'')"
  by (simp_all add: sample_filter_def wf_filter_def wf_Filter_def wf_Value_def filter_errors_def
      filter_holds_def error_of_def atom_holds_def arg_value_def)

lemma sample_matches:
  "row_matches sample_as_time (sample_time 0) (sample_time 300) sample_filter sample_a"
  "\<not> row_matches sample_as_time (sample_time 0) (sample_time 300) sample_filter sample_b"
  by (simp_all add: row_matches_def row_start_def row_end_def Unix_def sample_a_def sample_b_def
      sample_event_def sample_as_time_def sample_time_def unixToInternal_def)

lemma sample_index:
  "\<exists>ri. ri_rep list_roaring sample_as_time ri [sample_b, sample_a]"
proof -
  note add = roaring_bitmap.indexEvent_rep [OF list_roaring_ok]
  from add [OF roaring_bitmap.ri_rep_new [OF list_roaring_ok], where e = "fst sample_b" and ts = 7 and d = False]
  obtain ri where "ri_rep list_roaring sample_as_time ri [sample_b]"
    by (force simp: sample_b_def)
  from add [OF this, where e = "fst sample_a" and ts = 7 and d = False] show ?thesis
    by (force simp: sample_a_def)
qed

lemmas list_bloom_ok = list_bf.bloom_filter_axioms and list_skiplist_ok = list_sl.skip_list_axioms

subsection \<open>Queries\<close>

text \<open>C3: A query on an index that represents a list of rows fails exactly when a restriction of the
  filter is ill-typed, with the first such error; otherwise it returns exactly the numbers of
  the rows the filter holds of and whose time span meets the asked one, for any number of
  processors.\<close>

theorem query_selects:
  assumes "roaring_bitmap R" and "ri_rep R as_time ri rows" and "wf_filter flt" and "0 < numCPU"
  shows "case filter_errors flt of
      e # _ \<Rightarrow> query R numCPU ri startTime endTime flt = Some (Inl e)
    | [] \<Rightarrow> \<exists>bm. query R numCPU ri startTime endTime flt = Some (Inr bm) \<and>
        (\<forall>c. bm_contains R bm c \<longleftrightarrow>
          unat c < length rows \<and> row_matches as_time startTime endTime flt (rows ! unat c))"
  by (rule roaring_bitmap.query_rows [OF assms])

theorem query_selects_witness:
  "\<exists>ri bm. ri_rep list_roaring sample_as_time ri [sample_b, sample_a] \<and>
     query list_roaring 3 ri (sample_time 0) (sample_time 300) sample_filter = Some (Inr bm) \<and>
     (\<forall>c. bm_contains list_roaring bm c \<longleftrightarrow> c = 1)"
proof -
  obtain ri where ri: "ri_rep list_roaring sample_as_time ri [sample_b, sample_a]"
    using sample_index by blast
  have one: "unat c < 2 \<and> row_matches sample_as_time (sample_time 0) (sample_time 300) sample_filter
      ([sample_b, sample_a] ! unat c) \<longleftrightarrow> c = 1" for c :: u32
  proof -
    have "c = 1 \<longleftrightarrow> unat c = 1" by (metis unat_1 word_unat_eq_iff)
    moreover have "unat c < 2 \<longleftrightarrow> unat c = 0 \<or> unat c = 1" by linarith
    ultimately show ?thesis using sample_matches by auto
  qed
  from query_selects [OF list_roaring_ok ri, of sample_filter 3 "sample_time 0" "sample_time 300"] ri one
  show ?thesis by (auto simp: eval_nat_numeral)
qed

text \<open>A value of the row-by-row matching is what the filter means, also when a restriction that is not
  reached is ill-typed.\<close>

lemma match_loops_value:
  "match_all f xs = Inr b \<Longrightarrow> (\<And>x c. x \<in> set xs \<Longrightarrow> f x = Inr c \<Longrightarrow> c = H x) \<Longrightarrow> b \<longleftrightarrow> (\<forall>x \<in> set xs. H x)"
  "match_any f xs = Inr b \<Longrightarrow> (\<And>x c. x \<in> set xs \<Longrightarrow> f x = Inr c \<Longrightarrow> c = H x) \<Longrightarrow> b \<longleftrightarrow> (\<exists>x \<in> set xs. H x)"
proof (induction xs)
  case (Cons x xs)
  { case 1 then show ?case using Cons.IH(1) by (auto split: sum.splits if_splits) }
  { case 2 then show ?case using Cons.IH(2) by (auto split: sum.splits if_splits) }
qed simp_all

lemma match_value:
  assumes F: "bloom_filter F" and e: "ev_ok e" and i: "i = newMemTableItem F (Some e) ts d"
  shows "matchExpression F i x = Inr b \<Longrightarrow> b = expression_holds (event_sat e) x"
    and "matchSequence F i s = Inr b \<Longrightarrow> b = sequence_holds (event_sat e) s"
    and "matchFactor F i f = Inr b \<Longrightarrow> b = factor_holds (event_sat e) f"
    and "matchTerm F i t = Inr b \<Longrightarrow> b = term_holds (event_sat e) t"
    and "matchSimple F i m = Inr b \<Longrightarrow> b = simple_holds (event_sat e) m"
proof (induction x and s and f and t and m arbitrary: b and b and b and b and b rule:
    expression_errors_sequence_errors_factor_errors_term_errors_simple_errors.induct)
  case (2 ss)
  then show ?case using match_loops_value(1) [where H = "sequence_holds (event_sat e)"] by simp
next
  case (4 fs)
  then show ?case using match_loops_value(1) [where H = "factor_holds (event_sat e)"] by simp
next
  case (6 ts)
  then show ?case using match_loops_value(2) [where H = "term_holds (event_sat e)"] by simp
next
  case (10 r c)
  show ?case
  proof (cases c)
    case None
    with 10 show ?thesis
      using bloom_filter.matchRestriction_atom [OF F e]
      by (auto simp: i atom_holds_def split: option.splits sum.splits)
  next
    case (Some x)
    with "10.IH" [OF Some] "10.prems" show ?thesis by simp
  qed
qed (auto split: sum.splits if_splits)

lemma match_item_value:
  "bloom_filter F \<Longrightarrow> ev_ok e \<Longrightarrow> matchMemTableItem F flt (newMemTableItem F (Some e) ts d) = Inr b \<Longrightarrow>
     b = filter_holds (event_sat e) flt"
  by (auto simp: matchMemTableItem_def filter_holds_def match_value [OF _ _ refl] split: option.splits)

text \<open>C10: The bitmap evaluation of a filter and the row-by-row matching agree whenever the query of an index
  returns a bitmap. Then the filter has no ill-typed restriction, the matching of the item of a row's event
  gives no error either, and the row is in the bitmap exactly when its item matches and its time span meets the
  asked one. The time span is tested on the bitmap side only: the iterator of a mem table does not look
  at it. The Bloom filters of an item never change the answer.\<close>

theorem query_iff_match:
  assumes "roaring_bitmap R" and "bloom_filter F" and "ri_rep R as_time ri rows" and "wf_filter flt"
    and "0 < numCPU" and "query R numCPU ri startTime endTime flt = Some (Inr bm)" and "unat c < length rows"
    and "rows ! unat c = (e, ts, d)" and "ev_ok e"
  shows "filter_errors flt = [] \<and> (\<exists>b. matchMemTableItem F flt (newMemTableItem F (Some e) ts' d') = Inr b \<and>
    (bm_contains R bm c \<longleftrightarrow> b \<and>
       sint (row_start as_time (e, ts, d)) \<le> sint (Unix endTime) \<and>
       sint (Unix startTime) \<le> sint (row_end as_time (e, ts, d))))"
proof -
  note rows = roaring_bitmap.query_rows [OF assms(1,3,4,5), of startTime endTime]
  have flt: "filter_errors flt = []" using rows assms(6) by (cases "filter_errors flt") auto
  with rows assms(6,7) have "bm_contains R bm c \<longleftrightarrow> row_matches as_time startTime endTime flt (rows ! unat c)" by auto
  with flt show ?thesis
    using bloom_filter.match_item [OF assms(2,9) flt] assms(8) by (auto simp: row_matches_def)
qed

theorem query_iff_match_witness:
  "\<exists>ri bm. query list_roaring 3 ri (sample_time 0) (sample_time 300) sample_filter = Some (Inr bm) \<and>
     bm_contains list_roaring bm 1 \<and>
     matchMemTableItem list_bloom sample_filter (newMemTableItem list_bloom (Some (fst sample_a)) 7 False)
       = Inr True"
proof -
  obtain ri where ri: "ri_rep list_roaring sample_as_time ri [sample_b, sample_a]"
    using sample_index by blast
  have "matchMemTableItem list_bloom sample_filter (newMemTableItem list_bloom (Some (fst sample_a)) 7 False)
      = Inr True"
    by (subst bloom_filter.match_item [OF list_bloom_ok]) (simp_all add: ev_ok_def sample_a_def sample_event_def)
  moreover obtain bm where bm: "query list_roaring 3 ri (sample_time 0) (sample_time 300) sample_filter = Some (Inr bm)"
    using roaring_bitmap.query_rows [OF list_roaring_ok ri, of sample_filter 3 "sample_time 0" "sample_time 300"] by auto
  moreover from query_iff_match [OF list_roaring_ok list_bloom_ok ri _ _ bm, of 1 "fst sample_a" 7 False 7 False] sample_matches(1)
  have "bm_contains list_roaring bm 1 \<longleftrightarrow>
      matchMemTableItem list_bloom sample_filter (newMemTableItem list_bloom (Some (fst sample_a)) 7 False) = Inr True"
    by (auto simp: sample_a_def ev_ok_def sample_event_def row_matches_def)
  ultimately show ?thesis by auto
qed

text \<open>An error of the row-by-row matching of some item is an error of the filter: every index
  answers the query with an error too.\<close>

theorem match_error_query_error:
  assumes "roaring_bitmap R" and "ri_rep R as_time ri rows" and "wf_filter flt" and "0 < numCPU"
    and "matchMemTableItem F flt item = Inl err"
  shows "err \<in> set (filter_errors flt) \<and>
    (\<exists>e. query R numCPU ri startTime endTime flt = Some (Inl e))"
proof -
  have err: "err \<in> set (filter_errors flt)"
    using assms(5) match_errors(1)
    by (auto simp: matchMemTableItem_def filter_errors_def split: option.splits)
  then obtain e es where "filter_errors flt = e # es" by (cases "filter_errors flt") auto
  with roaring_bitmap.query_rows [OF assms(1-4), of startTime endTime] err show ?thesis by auto
qed

theorem match_error_query_error_witness:
  "\<exists>ri e. query list_roaring 3 ri (sample_time 0) (sample_time 300)
     (Some (Filter (Some (Expression [Some (Sequence [Some (Factor [Some (Term False
       (Some (Simple (Some (Restriction (Some (Comparable (Some (Member (Some (Value False ''title'')) []))))
         [] None)) None)))])])])))) = Some (Inl e)"
  (is "\<exists>ri e. query _ _ ri _ _ ?flt = _")
proof -
  obtain ri where ri: "ri_rep list_roaring sample_as_time ri [sample_b, sample_a]"
    using sample_index by blast
  have "matchMemTableItem list_bloom ?flt (newMemTableItem list_bloom (Some (fst sample_a)) 7 False)
      = Inl (UnknownField ''title'')"
    by (simp add: matchMemTableItem_def matchRestriction_def)
  from match_error_query_error [OF list_roaring_ok ri _ _ this, of 3 "sample_time 0" "sample_time 300"]
  show ?thesis by (auto simp: wf_filter_def wf_Filter_def wf_Value_def)
qed

text \<open>The other direction does not hold. A factor stops at its first term that matches, so with
  \<open>tags = "x" OR bogus = "x"\<close> the matching accepts an event with the tag, while every index rejects
  the filter. And where the matching of an item fails, the iterator of the mem table passes over the item
  instead of failing the listing.\<close>

definition sample_half_typed :: "Filter option" where
  "sample_half_typed = Some (Filter (Some (Expression [Some (Sequence [Some (Factor [
     Some (Term False (Some (Simple (Some (Restriction
       (Some (Comparable (Some (Member (Some (Value False ''tags'')) [])))) ''=''
       (Some (Arg (Some (Comparable (Some (Member (Some (Value True ''x'')) [])))) None)))) None))),
     Some (Term False (Some (Simple (Some (Restriction
       (Some (Comparable (Some (Member (Some (Value False ''bogus'')) [])))) ''=''
       (Some (Arg (Some (Comparable (Some (Member (Some (Value True ''x'')) [])))) None)))) None)))])])])))"

theorem short_circuit_hides_error:
  assumes "roaring_bitmap R" and "bloom_filter F" and "ri_rep R as_time ri rows" and "0 < numCPU" and "''x'' \<in> set (ev_Tags e)"
  shows "matchMemTableItem F sample_half_typed (newMemTableItem F (Some e) ts d) = Inr True \<and>
    query R numCPU ri startTime endTime sample_half_typed = Some (Inl (UnknownField ''bogus''))"
proof
  have "bl_test F (mi_tags (newMemTableItem F (Some e) ts d)) ''x''"
    using assms(5) by (simp add: newMemTableItem_def Let_def bloom_filter.test_adds [OF assms(2)])
  then show "matchMemTableItem F sample_half_typed (newMemTableItem F (Some e) ts d) = Inr True"
    using assms(5) by (simp add: sample_half_typed_def matchMemTableItem_def matchRestriction_def arg_value_def
        newMemTableItem_def Let_def getters)
  have "filter_errors sample_half_typed = [UnknownField ''bogus'']"
    by (simp add: sample_half_typed_def filter_errors_def error_of_def arg_value_def)
  moreover have "wf_filter sample_half_typed" by (simp add: sample_half_typed_def wf_filter_def wf_Filter_def wf_Value_def)
  ultimately show "query R numCPU ri startTime endTime sample_half_typed = Some (Inl (UnknownField ''bogus''))"
    using roaring_bitmap.query_rows [OF assms(1,3) _ assms(4), of sample_half_typed startTime endTime] by simp
qed

subsection \<open>From a mem table to an index\<close>

text \<open>C7: A mem table filled with events of distinct versions becomes an index that holds exactly
  these events, in the order newest start first, then greatest id, then newest version,
  whatever the order they were written in.\<close>

theorem index_of_table:
  assumes "roaring_bitmap R" and "skip_list S made" and "length rows \<le> 2 ^ 32"
    and "distinct (map (version_view \<circ> row_key as_time) rows)"
  shows "\<exists>ri rows'. fromMemTable R S as_time (put_all S (map (table_write F as_time) rows)) = Some ri \<and>
    ri_rep R as_time ri rows' \<and> mset rows' = mset rows \<and> version_sorted (ri_keys ri)"
  by (rule table_rows [OF assms])

theorem index_of_table_witness:
  "\<exists>ri rows'. fromMemTable list_roaring list_skiplist sample_as_time
      (put_all list_skiplist (map (table_write list_bloom sample_as_time) [sample_a, sample_b])) = Some ri \<and>
    ri_rep list_roaring sample_as_time ri rows' \<and> mset rows' = {#sample_a, sample_b#}"
proof -
  have "distinct (map (version_view \<circ> row_key sample_as_time) [sample_a, sample_b])"
    by (simp add: version_view_def key_view_def row_key_def EventKeyFromProto_def getters sample_a_def
        sample_b_def sample_event_def)
  from index_of_table [OF list_roaring_ok list_skiplist_ok _ this, of list_bloom] show ?thesis
    by fastforce
qed

text \<open>A tombstone, an item without an event as deletions and moves write it, makes the conversion
  of its table to an index panic.\<close>

theorem tombstone_panics:
  assumes "(key, val) \<in> set (sl_items S (mt_items mt))" and "mi_event val = None"
  shows "fromMemTable R S as_time mt = None"
  using index_items_tombstone [of "sl_items S (mt_items mt)" R as_time "newRoaringIndex R"] assms
  by (auto simp: fromMemTable_def)

theorem tombstone_panics_witness:
  "fromMemTable list_roaring list_skiplist sample_as_time
     (put_event list_skiplist list_bloom sample_as_time (newMemTable list_skiplist) None 9 True) = None"
  by (rule tombstone_panics [where key = "EventKeyFromProto sample_as_time None 9 True" and
        val = "newMemTableItem list_bloom None 9 True"])
    (simp_all add: put_event_def newMemTable_def list_skiplist_def newMemTableItem_def)

text \<open>A mem table keeps its keys strictly ordered, newest start first, then greatest id, then
  newest version, whatever is written to it.\<close>

theorem mem_table_order:
  assumes "skip_list S made"
  shows "version_sorted (map fst (sl_items S (mt_items (put_all S writes))))"
  by (rule put_all_sorted [OF assms])

theorem mem_table_order_witness:
  "version_sorted (map fst (sl_items list_skiplist (mt_items (put_all list_skiplist
     [table_write list_bloom sample_as_time sample_a, table_write list_bloom sample_as_time sample_b]))))"
  by (rule mem_table_order [OF list_skiplist_ok])

subsection \<open>Merging indices\<close>

text \<open>C5: Merging two indices never panics, and the merged index represents the rows of both: none
  is lost, duplicated or changed.\<close>

theorem merged_rows:
  assumes "roaring_bitmap R" and "ri_rep R as_time a A" and "ri_rep R as_time b B"
    and "length A + length B \<le> 2 ^ 32"
  shows "\<exists>ri M. mergeTwoIndices R (Some a) (Some b) = Some (Some ri) \<and> ri_rep R as_time ri M \<and>
    mset M = mset A + mset B"
  using roaring_bitmap.merge_indices_rep [OF assms] mset_merge_rows [of as_time A B]
  by (auto simp: mergeTwoIndices_def)

theorem merged_rows_witness:
  "\<exists>a ri M. mergeTwoIndices list_roaring (Some a) (Some a) = Some (Some ri) \<and>
     ri_rep list_roaring sample_as_time ri M \<and> mset M = {#sample_b, sample_a, sample_b, sample_a#}"
proof -
  obtain a where a: "ri_rep list_roaring sample_as_time a [sample_b, sample_a]"
    using sample_index by blast
  from merged_rows [OF list_roaring_ok a a] show ?thesis by fastforce
qed

text \<open>The keys a posting stands for.\<close>

definition found_keys :: "'b roaring \<Rightarrow> 'b roaringIndex \<Rightarrow> 'b \<Rightarrow> EventKey multiset" where
  "found_keys R ri bm = image_mset (\<lambda>i. ri_keys ri ! unat i) (mset (bm_to_list R bm))"

lemma unat_mset:
  assumes "n \<le> 2 ^ 32"
  shows "image_mset unat (mset_set {c :: u32. unat c < n \<and> P (unat c)}) = mset (filter P [0..<n])"
proof -
  have inj: "inj_on unat {c :: u32. unat c < n \<and> P (unat c)}"
    by (rule inj_onI) (simp add: word_unat_eq_iff)
  have "i \<in> unat ` {c :: u32. unat c < n \<and> P (unat c)}" if "i < n" "P i" for i
    using that assms by (intro image_eqI [of _ _ "of_nat i :: u32"]) (simp_all add: unat_of_nat_u32)
  then have "unat ` {c :: u32. unat c < n \<and> P (unat c)} = set (filter P [0..<n])" by auto
  with inj show ?thesis by (simp add: image_mset_mset_set mset_set_set)
qed

lemma query_found:
  assumes R: "roaring_bitmap R" and rep: "ri_rep R as_time ri rows" and flt: "wf_filter flt"
    and n: "0 < numCPU" and ok: "filter_errors flt = []"
  shows "\<exists>bm. query R numCPU ri startTime endTime flt = Some (Inr bm) \<and>
    found_keys R ri bm =
      image_mset (row_key as_time) (filter_mset (row_matches as_time startTime endTime flt) (mset rows))"
proof -
  let ?P = "row_matches as_time startTime endTime flt" and ?key = "\<lambda>i. row_key as_time (rows ! i)"
  from roaring_bitmap.query_rows [OF R rep flt n, of startTime endTime] ok obtain bm where
    bm: "query R numCPU ri startTime endTime flt = Some (Inr bm)"
      "\<And>c. bm_contains R bm c \<longleftrightarrow> unat c < length rows \<and> ?P (rows ! unat c)" by auto
  let ?ids = "bm_to_list R bm"
  have ids: "set ?ids = {c. unat c < length rows \<and> ?P (rows ! unat c)}"
    using bm(2) roaring_bitmap.set_to_list [OF R, of bm] by (auto simp: bm_set_def)
  have "mset ?ids = mset_set (set ?ids)"
    using roaring_bitmap.distinct_to_list [OF R, of bm] by (simp add: mset_set_set)
  then have "image_mset unat (mset ?ids) = mset (filter (\<lambda>i. ?P (rows ! i)) [0..<length rows])"
    using unat_mset [OF ri_repD(1) [OF rep], of "\<lambda>i. ?P (rows ! i)"] by (simp only: ids)
  then have "image_mset ?key (image_mset unat (mset ?ids)) =
      mset (map (row_key as_time) (map ((!) rows) (filter (?P \<circ> (!) rows) [0..<length rows])))"
    by (simp add: o_def multiset.map_comp)
  also have "\<dots> = image_mset (row_key as_time) (filter_mset ?P (mset rows))"
    by (simp only: filter_map [symmetric] map_nth mset_map mset_filter)
  finally have "image_mset (\<lambda>c. ?key (unat c)) (mset ?ids) =
      image_mset (row_key as_time) (filter_mset ?P (mset rows))"
    by (simp add: multiset.map_comp o_def)
  moreover have "found_keys R ri bm = image_mset (\<lambda>c. ?key (unat c)) (mset ?ids)"
    unfolding found_keys_def using ids ri_repD(2) [OF rep] by (intro image_mset_cong) auto
  ultimately show ?thesis using bm(1) by simp
qed

text \<open>A query on a merged index finds, as a multiset of keys, what the queries on the two merged
  indices find.\<close>

theorem query_merged:
  assumes "roaring_bitmap R" and "ri_rep R as_time a A" and "ri_rep R as_time b B"
    and "length A + length B \<le> 2 ^ 32" and "wf_filter flt" and "0 < numCPU" and "filter_errors flt = []"
  shows "\<exists>ri pa pb pm. mergeTwoIndices R (Some a) (Some b) = Some (Some ri) \<and>
    query R numCPU a startTime endTime flt = Some (Inr pa) \<and>
    query R numCPU b startTime endTime flt = Some (Inr pb) \<and>
    query R numCPU ri startTime endTime flt = Some (Inr pm) \<and>
    found_keys R ri pm = found_keys R a pa + found_keys R b pb"
proof -
  note found = query_found [OF assms(1) _ assms(5-7), of as_time _ _ startTime endTime]
  obtain ri where ri: "merge_indices R a b = Some ri" "ri_rep R as_time ri (merge_rows as_time A B)"
    using roaring_bitmap.merge_indices_rep [OF assms(1-4)] by blast
  from found [OF ri(2)] found [OF assms(2)] found [OF assms(3)] ri(1) show ?thesis
    by (fastforce simp: mergeTwoIndices_def mset_merge_rows)
qed

theorem query_merged_witness:
  "\<exists>a ri pa pm. mergeTwoIndices list_roaring (Some a) (Some a) = Some (Some ri) \<and>
     query list_roaring 3 a (sample_time 0) (sample_time 300) sample_filter = Some (Inr pa) \<and>
     query list_roaring 3 ri (sample_time 0) (sample_time 300) sample_filter = Some (Inr pm) \<and>
     found_keys list_roaring ri pm = found_keys list_roaring a pa + found_keys list_roaring a pa"
proof -
  obtain a where a: "ri_rep list_roaring sample_as_time a [sample_b, sample_a]"
    using sample_index by blast
  from query_merged [OF list_roaring_ok a a, of sample_filter 3 "sample_time 0" "sample_time 300"]
  show ?thesis by fastforce
qed

text \<open>The merge does not keep the order of the tables: of two indices in that order it makes one
  that is not, the row with the earlier start first.\<close>

theorem merged_order_broken:
  "version_sorted [row_key sample_as_time sample_b] \<and> version_sorted [row_key sample_as_time sample_a] \<and>
   fst (merge_keys [row_key sample_as_time sample_b] [row_key sample_as_time sample_a] 0) =
     [row_key sample_as_time sample_a, row_key sample_as_time sample_b] \<and>
   \<not> version_sorted [row_key sample_as_time sample_a, row_key sample_as_time sample_b]"
  by (simp add: version_sorted_def version_before key_view_def key_less_def earlier_def instant_def takeA_def
      time_Compare_def Before_def After_def row_key_def EventKeyFromProto_def getters sample_defs unixToInternal_def
      in_Local_def)

text \<open>Two versions of a key in one index, the newer one first, and iterators over one row each.\<close>

definition sample_keys :: "EventKey list" where
  "sample_keys = [(row_key sample_as_time sample_a)\<lparr>key_Timestamp := 9\<rparr>, row_key sample_as_time sample_a]"

definition sample_iterator :: "u32 \<Rightarrow> IndexIterator" where
  "sample_iterator i = \<lparr>ii_it = [], ii_index = 0, ii_nextIdx = i, ii_hasNext = True,
     ii_lastEmittedID = [], ii_hasEmitted = False, ii_end = False, ii_ts = 10\<rparr>"

lemma sample_keys_simps:
  "length sample_keys = 2"
  "key_Timestamp (sample_keys ! 0) = 9" "key_Timestamp (sample_keys ! Suc 0) = 7"
  "key_view (sample_keys ! 0) = key_view (sample_keys ! Suc 0)"
  by (simp_all add: sample_keys_def key_view_def row_key_def EventKeyFromProto_def sample_a_def)

lemma sample_iterator_simps:
  "i < 2 \<Longrightarrow> NewIndexIterator list_roaring sample_keys [of_nat i] 10 = Some (sample_iterator (of_nat i))"
  "i < 2 \<Longrightarrow> ii_inv sample_keys (sample_iterator (of_nat i))"
  "i < 2 \<Longrightarrow> ii_left sample_keys (sample_iterator (of_nat i)) = [sample_keys ! i]"
  by (auto simp: NewIndexIterator_def ii_advance_def key_at_def sample_iterator_def list_roaring_def
      ii_inv_def ii_left_def sample_keys_simps less_2_cases_iff)

lemma sample_keys_ok:
  "version_sorted sample_keys" "id_keyed sample_keys"
  "compareEventKeyTimestamp (sample_keys ! 0) (sample_keys ! Suc 0) < 0"
proof -
  obtain k0 k1 where ks: "sample_keys = [k0, k1]" unfolding sample_keys_def by blast
  note k = sample_keys_simps(2-4) [unfolded ks nth_Cons_0 nth_Cons_Suc]
  show b: "compareEventKeyTimestamp (sample_keys ! 0) (sample_keys ! Suc 0) < 0"
    by (simp add: version_before ks k)
  then show "version_sorted sample_keys" by (simp add: version_sorted_def ks)
  show "id_keyed sample_keys" by (simp add: id_keyed_def ks k)
qed

lemma sample_posting: "bm_to_list list_roaring [1, 0] = [0, 1]" "bm_cardinality list_roaring [1, 0] = 2"
  "bm_set list_roaring [1, 0] = {0, 1}"
  by (auto simp: list_roaring_def bm_set_def)

subsection \<open>Iterators\<close>

text \<open>An element of a mem table is shadowed when the element before it has the same id and is not after
  the timestamp. The start times of the two are not compared.\<close>

definition shadowed :: "u64 \<Rightarrow> (EventKey \<times> 'v) list \<Rightarrow> nat \<Rightarrow> bool" where
  "shadowed ts elems i \<longleftrightarrow> 0 < i \<and> key_ID (fst (elems ! (i - 1))) = key_ID (fst (elems ! i)) \<and>
     key_Timestamp (fst (elems ! (i - 1))) \<le> ts"

definition shown :: "'f bloom \<Rightarrow> Filter option \<Rightarrow> u64 \<Rightarrow> (EventKey \<times> ('ts, 'f) memTableItem) list \<Rightarrow> nat \<Rightarrow> bool" where
  "shown F f ts elems i \<longleftrightarrow> key_Timestamp (fst (elems ! i)) \<le> ts \<and> \<not> shadowed ts elems i \<and>
     matchMemTableItem F f (snd (elems ! i)) = Inr True"

lemma mt_visible_shown:
  "mt_visible F f ts (Some (fst x)) elems =
     map (\<lambda>i. fst ((x # elems) ! Suc i)) (filter (\<lambda>i. shown F f ts (x # elems) (Suc i)) [0..<length elems])"
proof (induction elems arbitrary: x)
  case (Cons y elems)
  have "[0..<length (y # elems)] = 0 # map Suc [0..<length elems]" by (simp add: upt_conv_Cons map_Suc_upt del: upt_Suc)
  moreover have "filter (\<lambda>i. shown F f ts (x # y # elems) (Suc (Suc i))) [0..<length elems] =
      filter (\<lambda>i. shown F f ts (y # elems) (Suc i)) [0..<length elems]"
    by (rule filter_cong [OF refl]) (simp add: shown_def shadowed_def)
  moreover have "shown F f ts (x # y # elems) (Suc 0) \<longleftrightarrow> key_Timestamp (fst y) \<le> ts \<and>
      \<not> (key_ID (fst x) = key_ID (fst y) \<and> key_Timestamp (fst x) \<le> ts) \<and> matchMemTableItem F f (snd y) = Inr True"
    by (auto simp: shown_def shadowed_def)
  ultimately show ?case
    using Cons.IH [of y] by (cases y) (simp add: filter_map comp_def del: upt_Suc)
qed simp

lemma mt_visible_all:
  "mt_visible F f ts None elems = map (\<lambda>i. fst (elems ! i)) (filter (shown F f ts elems) [0..<length elems])"
proof (cases elems)
  case (Cons y ys)
  have "[0..<length elems] = 0 # map Suc [0..<length ys]" by (simp add: Cons upt_conv_Cons map_Suc_upt del: upt_Suc)
  moreover have "shown F f ts (y # ys) 0 \<longleftrightarrow> key_Timestamp (fst y) \<le> ts \<and> matchMemTableItem F f (snd y) = Inr True"
    by (simp add: shown_def shadowed_def)
  ultimately show ?thesis
    using mt_visible_shown [of F f ts y ys] by (cases y) (simp add: Cons filter_map comp_def del: upt_Suc)
qed simp

lemma mem_iterator_drains:
  assumes "skip_list S made" and "elems = sl_items S (mt_items (put_all S writes))" and "length elems < n"
  shows "iterator.drain (\<lambda>mti. Some (mti_Next F elems mti)) mti_Value n (NewMemTableIterator f ts) =
    Some (mt_visible F f ts None elems)"
proof -
  have sorted: "version_sorted (map fst elems)"
    unfolding assms(2) by (rule put_all_sorted [OF assms(1)])
  have "length (filter (shown F f ts elems) [0..<length elems]) < n"
    using length_filter_le [of "shown F f ts elems" "[0..<length elems]"] assms(3) by simp
  then show ?thesis
    using mti.drain_left [of elems "NewMemTableIterator f ts" F n] mti_start(1) [of elems f ts] mti_start(2) [of F elems f ts]
      version_sorted_distinct [OF sorted] by (simp add: mt_visible_all)
qed

text \<open>C15: The iterator of a mem table, filled by any writes, yields at timestamp \<open>ts\<close> exactly the keys of the
  elements that are not newer than \<open>ts\<close>, that are not shadowed by the element before them, and that match
  the filter; an element whose matching fails is passed over. When no event was moved to another start
  time, these are the keys of the snapshot that match: of each event the newest version that is
  not after \<open>ts\<close>, and then only if that version matches.\<close>

theorem mem_iterator_yields:
  assumes "skip_list S made" and "elems = sl_items S (mt_items (put_all S writes))" and "length elems < n"
  shows "\<exists>keys. iterator.drain (\<lambda>mti. Some (mti_Next F elems mti)) mti_Value n (NewMemTableIterator f ts) = Some keys \<and>
    keys = map (\<lambda>i. fst (elems ! i)) (filter (\<lambda>i. key_Timestamp (fst (elems ! i)) \<le> ts \<and> \<not> shadowed ts elems i \<and>
      matchMemTableItem F f (snd (elems ! i)) = Inr True) [0..<length elems]) \<and>
    (id_keyed (map fst elems) \<longrightarrow> keys = map fst (filter (\<lambda>(k, v). k \<in> set (snapshot ts (map fst elems)) \<and>
      matchMemTableItem F f v = Inr True) elems))"
proof (intro exI conjI impI)
  have sorted: "version_sorted (map fst elems)"
    unfolding assms(2) by (rule put_all_sorted [OF assms(1)])
  show "iterator.drain (\<lambda>mti. Some (mti_Next F elems mti)) mti_Value n (NewMemTableIterator f ts) =
      Some (mt_visible F f ts None elems)" by (rule mem_iterator_drains [OF assms])
  show "mt_visible F f ts None elems = map (\<lambda>i. fst (elems ! i)) (filter (\<lambda>i. key_Timestamp (fst (elems ! i)) \<le> ts \<and>
      \<not> shadowed ts elems i \<and> matchMemTableItem F f (snd (elems ! i)) = Inr True) [0..<length elems])"
    unfolding mt_visible_all shown_def ..
  assume "id_keyed (map fst elems)"
  then show "mt_visible F f ts None elems = map fst (filter (\<lambda>(k, v). k \<in> set (snapshot ts (map fst elems)) \<and>
      matchMemTableItem F f v = Inr True) elems)"
    by (rule mt_visible_snapshot [OF sorted])
qed

theorem mem_iterator_yields_witness:
  "\<exists>elems. elems = sl_items list_skiplist (mt_items (put_all list_skiplist
       [table_write list_bloom sample_as_time sample_a])) \<and>
     iterator.drain (\<lambda>mti. Some (mti_Next list_bloom elems mti)) mti_Value 2 (NewMemTableIterator None 8) =
       Some [fst (table_write list_bloom sample_as_time sample_a)]"
proof -
  let ?elems = "sl_items list_skiplist (mt_items (put_all list_skiplist
    [table_write list_bloom sample_as_time sample_a]))"
  have e: "?elems = [table_write list_bloom sample_as_time sample_a]"
    by (simp add: put_all_def putItem_def newMemTable_def list_skiplist_def split: prod.splits)
  from mem_iterator_yields [OF list_skiplist_ok refl, of "[table_write list_bloom sample_as_time sample_a]"
      2 list_bloom None 8]
  show ?thesis
    unfolding e by (auto simp: shadowed_def matchMemTableItem_def table_write_def
        EventKeyFromProto_def sample_a_def split: prod.splits)
qed

text \<open>C16: The iterator of an index whose keys are in the order of the tables yields the snapshot of
  the posting: of each event the newest version in the posting that is not after \<open>ts\<close>.\<close>

theorem index_iterator_yields:
  assumes "roaring_bitmap R" and "version_sorted ks" and "id_keyed ks"
    and "\<forall>i \<in> bm_set R posting. unat i < length ks" and "bm_cardinality R posting < n"
  shows "\<exists>ii. NewIndexIterator R ks posting ts = Some ii \<and>
    iterator.drain (ii_Next ks) (ii_Value ks) n ii =
      Some (snapshot ts (map (\<lambda>i. ks ! unat i) (bm_to_list R posting)))"
proof -
  let ?it = "bm_to_list R posting"
  let ?ks = "map (\<lambda>i. ks ! unat i) ?it"
  have fit: "\<forall>i \<in> set ?it. unat i < length ks" using assms(4) roaring_bitmap.set_to_list [OF assms(1)] by simp
  have sorted: "version_sorted ?ks"
    by (rule version_sorted_rows [OF assms(2) roaring_bitmap.to_list_sorted [OF assms(1)] fit])
  have "set ?ks \<subseteq> set ks" using fit by auto
  then have keyed: "id_keyed ?ks" by (rule id_keyed_subset [OF assms(3)])
  from ii_advance_left [of "\<lparr>ii_it = ?it, ii_index = 0, ii_nextIdx = 0, ii_hasNext = False,
      ii_lastEmittedID = [], ii_hasEmitted = False, ii_end = False, ii_ts = ts\<rparr>" ks] fit
  obtain ii where ii: "NewIndexIterator R ks posting ts = Some ii" "ii_inv ks ii"
    "ii_left ks ii = snapshot ts ?ks"
    by (auto simp: NewIndexIterator_def ix_visible_snapshot [OF sorted keyed])
  have "length (snapshot ts ?ks) \<le> length ?it"
    using length_snapshot [of ts ?ks] by (simp only: length_map)
  also have "length ?it < n"
    using assms(5) by (simp only: roaring_bitmap.cardinality_length [OF assms(1)])
  finally have "length (ii_left ks ii) < n" unfolding ii(3) .
  from ii.drain_left [OF ii(2) this] ii(1) show ?thesis unfolding ii(3) by blast
qed

theorem index_iterator_yields_witness:
  "\<exists>ii. NewIndexIterator list_roaring sample_keys [1, 0] 8 = Some ii \<and>
     iterator.drain (ii_Next sample_keys) (ii_Value sample_keys) 5 ii = Some [sample_keys ! 1]"
proof -
  have "snapshot 8 [sample_keys ! 0, sample_keys ! Suc 0] = [sample_keys ! Suc 0]"
    by (simp add: snapshot_def sample_keys_simps)
  with index_iterator_yields [OF list_roaring_ok sample_keys_ok(1,2), of "[1, 0]" 5 8] show ?thesis
    by (simp add: sample_posting sample_keys_simps(1))
qed

text \<open>After \<open>Seek\<close> to a key, the iterator of an index in order yields the snapshot of the rows of
  the posting that are not before the key.\<close>

theorem seek_yields:
  assumes "roaring_bitmap R" and "version_sorted ks" and "id_keyed ks" and "length ks < 2 ^ 32"
    and "\<forall>i \<in> bm_set R posting. unat i < length ks" and "bm_cardinality R posting < n"
    and "ii_inv ks ii"
  shows "\<exists>ii'. ii_Seek R ks posting ii key = Some ii' \<and>
    iterator.drain (ii_Next ks) (ii_Value ks) n ii' = Some (snapshot (ii_ts ii)
      (map (\<lambda>i. ks ! unat i)
        (filter (\<lambda>i. compareEventKeyTimestamp (ks ! unat i) key \<ge> 0) (bm_to_list R posting))))"
proof -
  let ?it = "filter (\<lambda>i. compareEventKeyTimestamp (ks ! unat i) key \<ge> 0) (bm_to_list R posting)"
  let ?ks = "map (\<lambda>i. ks ! unat i) ?it"
  have fit: "\<forall>i \<in> set ?it. unat i < length ks"
    using assms(5) roaring_bitmap.set_to_list [OF assms(1)] by simp
  have sorted: "version_sorted ?ks"
    by (rule version_sorted_rows [OF assms(2) sorted_wrt_filter [OF roaring_bitmap.to_list_sorted [OF assms(1)]] fit])
  have "set ?ks \<subseteq> set ks" using fit by auto
  then have keyed: "id_keyed ?ks" by (rule id_keyed_subset [OF assms(3)])
  from roaring_bitmap.ii_Seek_left [OF assms(1) version_sorted_le [OF assms(2)] assms(4,5,7), of key]
  obtain ii' where ii': "ii_Seek R ks posting ii key = Some ii'" "ii_left ks ii' = snapshot (ii_ts ii) ?ks"
    "ii_inv ks ii'"
    unfolding ix_visible_snapshot [OF sorted keyed] by blast
  have "length (snapshot (ii_ts ii) ?ks) \<le> length ?it"
    using length_snapshot [of "ii_ts ii" ?ks] by (simp only: length_map)
  also have "length ?it \<le> length (bm_to_list R posting)" by (rule length_filter_le)
  also have "length (bm_to_list R posting) < n"
    using assms(6) by (simp only: roaring_bitmap.cardinality_length [OF assms(1)])
  finally have "length (ii_left ks ii') < n" unfolding ii'(2) .
  from ii.drain_left [OF ii'(3) this] ii'(1) show ?thesis unfolding ii'(2) by blast
qed

theorem seek_yields_witness:
  "\<exists>ii'. ii_Seek list_roaring sample_keys [1, 0] (sample_iterator 0) (sample_keys ! 1) = Some ii' \<and>
     iterator.drain (ii_Next sample_keys) (ii_Value sample_keys) 5 ii' = Some [sample_keys ! 1]"
proof -
  have "snapshot 10 [sample_keys ! Suc 0] = [sample_keys ! Suc 0]"
    by (simp add: snapshot_def sample_keys_simps)
  with seek_yields [OF list_roaring_ok sample_keys_ok(1,2), of "[1, 0]" 5 "sample_iterator 0" "sample_keys ! 1"]
    sample_keys_ok(3) sample_iterator_simps(2) [of 0]
  show ?thesis
    by (simp add: sample_posting sample_keys_simps(1) version_order.refl sample_iterator_def)
qed

subsection \<open>The merge of iterators\<close>

text \<open>C11: Walking the merge of iterators whose keys come in descending order, of equal keys the newer
  versions first, yields keys in that order, only keys of the merged iterators, and of every key
  a version at least as new as every one they have. So the first version yielded of a key is
  the newest of all.\<close>

theorem merge_yields:
  assumes "iterator Next Val Valid I L" and "\<forall>it \<in> set its. I it \<and> sorted_wrt best (L it)"
    and "sum_list (map (length \<circ> L) its) < n"
  shows "\<exists>ks. iterator.drain (mi_Next Next Val Valid) mi_Value n (NewMergeIterator its) = Some ks \<and>
    sorted_wrt best ks \<and> set ks \<subseteq> (\<Union>it \<in> set its. set (L it)) \<and>
    (\<forall>x \<in> \<Union>it \<in> set its. set (L it). \<exists>y \<in> set ks. newer x y)"
proof -
  let ?ls = "map L its"
  have "\<forall>it \<in> set its. I it" using assms(2) by blast
  note start = iterator.mi_start [OF assms(1) this]
  have "length (merge_out ?ls) < n"
    using length_merge_out [of ?ls] assms(3) by simp
  then have "iterator.drain (mi_Next Next Val Valid) mi_Value n (NewMergeIterator its) = Some (merge_out ?ls)"
    using iterator.drain_left [OF iterator.mi_iterator [OF assms(1)], of "NewMergeIterator its" n] start by metis
  moreover have "sorted_wrt best (merge_out ?ls)" by (rule merge_out_sorted) (use assms(2) in simp)
  ultimately show ?thesis
    using set_merge_out [of ?ls] merge_out_newest [of _ ?ls] by (auto simp: pending_keys_def)
qed

theorem merge_yields_witness:
  "\<exists>ks. iterator.drain (mi_Next (ii_Next sample_keys) (ii_Value sample_keys) ii_Valid) mi_Value 3
      (NewMergeIterator [sample_iterator 0, sample_iterator 1]) = Some ks \<and> sorted_wrt best ks"
  using merge_yields [OF ii.iterator_axioms [of sample_keys], of "[sample_iterator 0, sample_iterator 1]" 3]
    sample_iterator_simps(2,3) [of 0] sample_iterator_simps(2,3) [of 1] by auto

text \<open>When every merged iterator has one version of each key and earlier iterators have the newer
  versions, the merge yields every key once, strictly descending, in its newest version.\<close>

theorem merge_yields_once:
  assumes "iterator Next Val Valid I L" and "\<forall>it \<in> set its. I it"
    and "newest_first (map L its)" and "sum_list (map (length \<circ> L) its) < n"
  shows "\<exists>ks. iterator.drain (mi_Next Next Val Valid) mi_Value n (NewMergeIterator its) = Some ks \<and>
    descending ks \<and> (\<forall>x \<in> \<Union>it \<in> set its. set (L it). \<exists>y \<in> set ks. newer x y)"
proof -
  have sorted: "\<forall>it \<in> set its. I it \<and> sorted_wrt best (L it)"
    using assms(2,3) descending_best by (auto simp: newest_first_def)
  let ?ls = "map L its"
  note start = iterator.mi_start [OF assms(1,2)]
  have "length (merge_out ?ls) < n" using length_merge_out [of ?ls] assms(4) by simp
  then have "iterator.drain (mi_Next Next Val Valid) mi_Value n (NewMergeIterator its) = Some (merge_out ?ls)"
    using iterator.drain_left [OF iterator.mi_iterator [OF assms(1)], of "NewMergeIterator its" n] start by metis
  with merge_out_descending [OF assms(3)] merge_out_newest [of _ ?ls] show ?thesis
    by (auto simp: pending_keys_def)
qed

theorem merge_yields_once_witness:
  "\<exists>ks. iterator.drain (mi_Next (ii_Next sample_keys) (ii_Value sample_keys) ii_Valid) mi_Value 3
      (NewMergeIterator [sample_iterator 0, sample_iterator 1]) = Some ks \<and> descending ks"
  using merge_yields_once [OF ii.iterator_axioms [of sample_keys], of "[sample_iterator 0, sample_iterator 1]" 3]
    sample_iterator_simps(2,3) [of 0] sample_iterator_simps(2,3) [of 1]
  by (auto simp: newest_first_def descending_def earlier_newer_def newer_def sample_keys_simps)

text \<open>C25: Merging two iterators of which the second has the newer version of a key yields this version and
  right after it the older one too: both heads are versions of one key, and the second iterator has
  no other version of it and is in descending order. So the result has the key twice. A listing merges in this
  order: the levels come before the waiting indices, which are younger.\<close>

theorem merge_repeats_version:
  assumes "iterator Next Val Valid I L" and "I it" and "I it'" and "L it = a # as" and "L it' = b # bs"
    and "key_view a = key_view b" and "key_Timestamp a < key_Timestamp b" and "descending (b # bs)"
    and "length as + length bs + 2 < n"
  shows "\<exists>rest. iterator.drain (mi_Next Next Val Valid) mi_Value n (NewMergeIterator [it, it']) = Some (b # a # rest)"
proof -
  have "\<not> key_Timestamp b \<le> key_Timestamp a" using assms(7) by (simp only: not_le)
  then have first: "merge_step [a # as, b # bs] = Some (b, [a # as, bs])"
    using assms(6,7) by (simp add: merge_step_def best_def newer_def)
  have second: "\<exists>ls. merge_step [a # as, bs] = Some (a, ls)"
  proof (cases bs)
    case (Cons c cs)
    with assms(6,8) have "key_less (key_view c) (key_view a)" by (simp add: descending_def)
    moreover from this have "key_view c \<noteq> key_view a" by (metis key_less_irrefl)
    ultimately show ?thesis by (simp add: Cons merge_step_def best_def newer_def)
  qed (simp add: merge_step_def)
  from merge_out_unfold(2) [OF first] second obtain rest where out: "merge_out [a # as, b # bs] = b # a # rest"
    by (auto simp: merge_out_unfold(2))
  have "\<forall>i \<in> set [it, it']. I i" using assms(2,3) by simp
  note start = iterator.mi_start [OF assms(1) this]
  have "length (merge_out [a # as, b # bs]) < n"
    using length_merge_out [of "[a # as, b # bs]"] assms(9) by simp
  with iterator.drain_left [OF iterator.mi_iterator [OF assms(1)], of "NewMergeIterator [it, it']" n] start
  show ?thesis by (simp add: assms(4,5) out)
qed

theorem merge_repeats_version_witness:
  "iterator.drain (mi_Next (ii_Next sample_keys) (ii_Value sample_keys) ii_Valid) mi_Value 5
     (NewMergeIterator [sample_iterator 1, sample_iterator 0]) \<noteq> Some [sample_keys ! 0]"
proof -
  obtain k0 k1 where ks: "sample_keys = [k0, k1]" unfolding sample_keys_def by blast
  note k = sample_keys_simps(2-4) [unfolded ks nth_Cons_0 nth_Cons_Suc]
  from merge_repeats_version [OF ii.iterator_axioms [of sample_keys], of "sample_iterator 1" "sample_iterator 0" k1 "[]" k0 "[]" 5]
    sample_iterator_simps(2,3) [of 0] sample_iterator_simps(2,3) [of 1]
  show ?thesis by (auto simp: ks k descending_def)
qed

end
