(* ===== verification/Storage_Spec.thy ===== *)
theory Storage_Spec
  imports Storage_Invariant Listing_Spec
begin

text \<open>
  The properties of the write path. They hold for any bitmaps and skip lists with the documented
  behaviour, and for every interleaving of the write worker, the flush worker and the arriving
  requests.
\<close>

subsection \<open>Runs\<close>

lemma put_run:
  "sy_writer s = W_put batch \<Longrightarrow>
     steps R S as_time late s (s\<lparr>st_cur := put_batch S batch (st_cur s), sy_writer := W_put []\<rparr>)"
proof (induction batch arbitrary: s)
  case (Cons wi wis)
  let ?t = "s\<lparr>st_cur := putItem S (st_cur s) (fst wi) (snd wi), sy_writer := W_put wis\<rparr>"
  have "step R S as_time late s ?t" by (rule step.put [OF Cons.prems])
  then show ?case
    using Cons.IH [of ?t] by simp
next
  case Nil
  then have "s\<lparr>st_cur := st_cur s, sy_writer := W_put []\<rparr> = s" by (cases s) simp
  then show ?case by simp
qed

lemma put_batch_all: "put_batch S (map (table_write F as_time) rows) (newMemTable S) = table_of S F as_time rows"
proof -
  have "put_batch S ws mt = fold (\<lambda>(k, v) mt. putItem S mt k v) ws mt" for ws mt
    by (induction ws arbitrary: mt) auto
  then show ?thesis by (simp add: table_of_def put_all_def)
qed

text \<open>A system before the first flush, and the state in which the write worker has replaced a full
  table and not yet stored the index.\<close>

definition young :: "'s memTable \<Rightarrow> ('s, 'w) write_pc \<Rightarrow> 'w list \<Rightarrow> ('b, 's, 'w) system" where
  "young cur w acc = \<lparr>st_cur = cur, st_pen = [], st_levels = [None, None, None, None], sy_writer = w,
     sy_flusher = F_select 0, sy_closed = False, sy_next = 0, sy_accepted = acc\<rparr>"

lemma young_step:
  assumes "step R S as_time late (young cur w acc) t" and "t = young cur' w' acc'"
    and "steps R S as_time late (young cur' w' acc') u"
  shows "steps R S as_time late (young cur w acc) u"
  using assms by (blast intro: converse_rtranclp_into_rtranclp)

text \<open>A request that arrives first is put into the first table. When that fills the table, the next
  request replaces it.\<close>

lemma batch_reached:
  assumes S: "skip_list S made"
  shows "reach R S as_time late (young (put_batch S b (newMemTable S)) W_poll b)" (is "steps _ _ _ _ _ ?u")
proof -
  let ?n = "newMemTable S" and ?t = "put_batch S b (newMemTable S)"
  have "steps R S as_time late (young ?t (W_put []) b) ?u"
    by (rule young_step [OF step.put_done _ rtranclp.rtrancl_refl]) (simp_all add: young_def)
  moreover have "steps R S as_time late (young ?n (W_put b) b) (young ?t (W_put []) b)"
    using put_run [of "young ?n (W_put b) b" b R S as_time late] by (simp add: young_def)
  ultimately have "steps R S as_time late (young ?n (W_put b) b) ?u" by (rule rtranclp_trans [rotated])
  then have "steps R S as_time late (young ?n (W_batch b) b) ?u"
    by (rule young_step [OF step.batch_room [where batch = b], rotated 3])
      (simp_all add: young_def full_table_def mt_size_def newMemTable_def maxMemTableSize_def
        skip_list.len_items [OF S] skip_list.new_items [OF S])
  then have "steps R S as_time late (young ?n W_wait []) ?u"
    by (rule young_step [OF step.wait_write [where batch = b], rotated 2]) (simp_all add: young_def)
  then have "steps R S as_time late (young ?n W_poll []) ?u"
    by (rule young_step [OF step.poll_default, rotated 4]) (simp_all add: young_def sending_def)
  then show ?thesis
    by (simp add: young_def open_system_def open_storage_def Storage.defs)
qed

lemma full_run:
  assumes "maxMemTableSize \<le> mt_size S t"
  shows "steps R S as_time late (young t W_poll b) (young (newMemTable S) (W_convert t []) b)" (is "steps _ _ _ _ _ ?u")
proof -
  have "steps R S as_time late (young t (W_batch []) b) ?u"
    by (rule young_step [OF step.batch_full [where batch = "[]"] _ rtranclp.rtrancl_refl])
      (use assms in \<open>simp_all add: young_def full_table_def\<close>)
  then have "steps R S as_time late (young t W_wait b) ?u"
    by (rule young_step [OF step.wait_write [where batch = "[]"], rotated 2]) (simp_all add: young_def)
  then show ?thesis
    by (rule young_step [OF step.poll_default, rotated 4]) (simp_all add: young_def sending_def)
qed

lemma put_reached:
  "skip_list S made \<Longrightarrow> reach R S as_time late (young (table_of S F as_time rows) W_poll (map (table_write F as_time) rows))"
  using batch_reached [of S made R as_time late "map (table_write F as_time) rows"] by (simp only: put_batch_all)

lemma hiding_reached:
  fixes rows :: "'ts row list" and F :: "'f bloom"
  assumes S: "skip_list S made" and d: "distinct (map (version_view \<circ> row_key as_time) rows)"
    and n: "maxMemTableSize \<le> length rows"
  defines "b \<equiv> map (table_write F as_time) rows"
  shows "reach R S as_time late (young (newMemTable S) (W_convert (table_of S F as_time rows) []) b)"
proof -
  have "mt_size S (table_of S F as_time rows) = length rows"
    using arg_cong [OF table_of_items [OF S d, of F], of size] by (simp add: mt_size_def skip_list.len_items [OF S])
  with n have "maxMemTableSize \<le> mt_size S (table_of S F as_time rows)" by simp
  from full_run [OF this] put_reached [OF S] show ?thesis unfolding b_def by (rule rtranclp_trans [rotated])
qed

text \<open>A system with one index, at address 0, and a run from the conversion to its first merge.\<close>

definition grown :: "'s memTable \<Rightarrow> 'b roaringIndex \<Rightarrow> 'b roaringIndex option list \<Rightarrow> ('s, 'w) write_pc \<Rightarrow>
    'b flush_pc \<Rightarrow> bool \<Rightarrow> 'w list \<Rightarrow> ('b, 's, 'w) system" where
  "grown cur ri levels w f closed acc = \<lparr>st_cur = cur, st_pen = [(0, ri)], st_levels = levels, sy_writer = w,
     sy_flusher = f, sy_closed = closed, sy_next = 1, sy_accepted = acc\<rparr>"

lemma grown_step:
  assumes "step R S as_time late (grown cur ri l w f cl acc) t" and "t = grown cur' ri l' w' f' cl' acc'"
    and "steps R S as_time late s (grown cur ri l w f cl acc)"
  shows "steps R S as_time late s (grown cur' ri l' w' f' cl' acc')"
  using assms by (simp add: rtranclp.rtrancl_into_rtrancl)

lemma sending_reached:
  fixes rows :: "'ts row list" and F :: "'f bloom"
  assumes R: "roaring_bitmap R" and S: "skip_list S made"
    and d: "distinct (map (version_view \<circ> row_key as_time) rows)"
    and n: "maxMemTableSize \<le> length rows" "length rows \<le> 2 ^ 32"
  defines "b \<equiv> map (table_write F as_time) rows"
  shows "\<exists>ri levels. holds_rows R as_time (set rows) ri \<and> mset (ri_keys ri) = row_keys as_time rows \<and>
    (\<forall>l \<in> set levels. level_rows R as_time (set rows) l) \<and> length levels = 4 \<and>
    levels_keys levels = row_keys as_time rows \<and>
    (length rows < 256000 \<longrightarrow> levels = [Some ri, None, None, None]) \<and>
    reach R S as_time late (grown (newMemTable S) ri levels W_poll (F_send 1 0 []) False b)"
proof -
  let ?n = "newMemTable S" and ?t = "table_of S F as_time rows" and ?L = "[None, None, None, None]"
  from table_rows [OF R S n(2) d, of F] obtain ri rows' where
    ri: "fromMemTable R S as_time ?t = Some ri" "ri_rep R as_time ri rows'" "mset rows' = mset rows"
    unfolding table_of_def by blast
  have h: "holds_rows R as_time (set rows) ri" "mset (ri_keys ri) = row_keys as_time rows"
    using ri(2) mset_eq_setD [OF ri(3)] ri(3) by (auto simp: holds_rows_def ri_repD(2) [OF ri(2)] row_keys_def)
  have L: "levels_keys ?L = {#}" by (simp add: levels_keys_def)
  obtain levels where levels: "mergeLevel R ?L ri = Some levels" "length levels = 4"
    "\<forall>l \<in> set levels. level_rows R as_time (set rows) l" "levels_keys levels = row_keys as_time rows"
    using mergeLevel_holds [OF R _ _ h(1), of ?L] n(2) by (auto simp: L h(2))
  have "length rows' = length rows" using ri(3) by (rule mset_eq_length)
  then have young: "levels = [Some ri, None, None, None]" if "length rows < 256000"
    using levels(1) that by (simp add: mergeLevel_def spill_def levelLimit_def ri_cardinality [OF R ri(2)])
  let ?g = "\<lambda>w f. grown ?n ri ?L w f False b"
  have "step R S as_time late (young ?n (W_convert ?t []) b) (?g (W_notify []) (F_select 0))"
    using step.convert [of "young ?n (W_convert ?t []) b" ?t "[]" R S as_time ri late] ri(1)
    by (simp add: young_def grown_def append_pen_def)
  with hiding_reached [OF S d n(1), where R = R and late = late and F = F]
  have "reach R S as_time late (?g (W_notify []) (F_select 0))" unfolding b_def by (rule rtranclp.rtrancl_into_rtrancl)
  then have "reach R S as_time late (?g (W_put []) (F_select 1))"
    by (rule grown_step [OF step.notify [where batch = "[]" and c = 0], rotated 3]) (simp_all add: grown_def)
  then have "reach R S as_time late (?g W_poll (F_select 1))"
    by (rule grown_step [OF step.put_done, rotated 2]) (simp_all add: grown_def)
  then have "reach R S as_time late (?g W_poll (F_load 1))"
    by (rule grown_step [OF step.timer [where c = 1], rotated 3]) (simp_all add: grown_def removing_def)
  then have "reach R S as_time late (?g W_poll (F_merge 1 [(0, ri)]))"
    by (rule grown_step [OF step.load [where c = 1], rotated 2]) (simp_all add: grown_def)
  then have "reach R S as_time late (grown ?n ri levels W_poll (F_send 1 0 []) False b)"
    by (rule grown_step [OF step.merge [where c = 1 and a = 0 and ri = ri and rest = "[]" and levels = levels], rotated 3])
      (simp_all add: grown_def levels(1))
  with h levels young show ?thesis by blast
qed

subsection \<open>A full table of samples\<close>

definition sample_rows :: "nat \<Rightarrow> go_time row list" where
  "sample_rows n = map (\<lambda>i. (sample_event (replicate i (CHR ''a'')) 100 [''x''], 7, False)) [0..<n]"

lemma sample_rows_length [simp]: "length (sample_rows n) = n"
  by (simp add: sample_rows_def)

lemma sample_rows_distinct: "distinct (map (version_view \<circ> row_key sample_as_time) (sample_rows n))"
proof -
  have "inj_on (\<lambda>i. version_view (row_key sample_as_time (sample_event (replicate i (CHR ''a'')) 100 [''x''], 7, False))) {0..<n}"
    by (rule inj_onI) (simp add: version_view_def key_view_def row_key_def EventKeyFromProto_def getters sample_event_def)
  then show ?thesis by (simp add: sample_rows_def distinct_map comp_def)
qed

lemma sample_written:
  "n \<le> 2 ^ 32 \<Longrightarrow> written list_bloom sample_as_time (map (table_write list_bloom sample_as_time) (sample_rows n))"
  by (rule written_writes [OF _ sample_rows_distinct]) simp

lemma maxMemTableSize_less: "maxMemTableSize \<le> 2 ^ 32" "2 * maxMemTableSize \<le> 2 ^ 32" "maxMemTableSize < 256000" "0 < maxMemTableSize"
  by (simp_all add: maxMemTableSize_def)

abbreviation sample_items :: "(go_time, string list) writeItem list" where
  "sample_items \<equiv> map (table_write list_bloom sample_as_time) (sample_rows maxMemTableSize)"

lemmas sample_full = list_skiplist_ok sample_rows_distinct [of maxMemTableSize]
  eq_refl [OF sample_rows_length [of maxMemTableSize, symmetric]]

lemma sample_sending:
  obtains ri where
    "reach list_roaring list_skiplist sample_as_time late (grown (newMemTable list_skiplist) ri [Some ri, None, None, None]
      W_poll (F_send 1 0 []) False sample_items)"
proof -
  have "length (sample_rows maxMemTableSize) \<le> 2 ^ 32" using maxMemTableSize_less by simp
  from sending_reached [OF list_roaring_ok sample_full this, of late list_bloom] maxMemTableSize_less(3) that
  show thesis by auto
qed

subsection \<open>What is kept\<close>

text \<open>C2: As long as the process runs, no accepted item is lost or duplicated: the keys of all accepted items,
  events and tombstones, are, as a multiset, those still to be put into the table, those of the
  current table, those of the table being converted, those of the waiting indices that are not
  merged yet, and those of the levels. A panic of a worker, which ends the process, only happens
  after a tombstone has been accepted. This is under two conditions: no version of an event is
  written twice, which only an update of the start time to the same instant does, nor are more than
  \<open>2 ^ 32\<close> items accepted (\<open>written\<close>); and the timer of the flush worker does not fire while the write
  worker takes a flushed index out of the waiting ones (the \<open>False\<close>).\<close>
theorem storage_keeps_rows:
  assumes "roaring_bitmap R" and "skip_list S made" and "reach R S as_time False s"
    and "written F as_time (sy_accepted s)"
  shows "if sy_writer s = W_panic \<or> sy_flusher s = F_panic then \<exists>x \<in> set (sy_accepted s). mi_event (snd x) = None
    else mset (map (index_key \<circ> fst) (sy_accepted s)) =
      mset (map (index_key \<circ> fst) (pending_items (sy_writer s))) + table_keys S (st_cur s) +
      (case converting (sy_writer s) of None \<Rightarrow> {#} | Some t \<Rightarrow> table_keys S t) +
      pen_keys (merged s) (st_pen s) + levels_keys (st_levels s)"
proof (cases "dead s")
  case True
  then show ?thesis by (simp add: dead_def)
next
  case False
  then obtain ic io where ok: "rows_ok R S F as_time s ic io" using reach_inv [OF assms] by blast
  note keys = put_all_keys [OF assms(2) current_items [OF assms(4) ok]] put_all_keys [OF assms(2) converted_items(1) [OF assms(4) ok]]
  from ok keys show ?thesis unfolding rows_ok_def item_keys_def by (auto split: option.splits)
qed

theorem storage_keeps_rows_witness:
  "\<exists>s. sy_accepted s = sample_items \<and>
    reach list_roaring list_skiplist sample_as_time False s \<and> table_keys list_skiplist (st_cur s) +
      pen_keys (merged s) (st_pen s) + levels_keys (st_levels s) = mset (map (index_key \<circ> fst) (sy_accepted s))"
proof -
  obtain ri where r: "reach list_roaring list_skiplist sample_as_time False (grown (newMemTable list_skiplist) ri
      [Some ri, None, None, None] W_poll (F_send 1 0 []) False sample_items)"
    (is "steps _ _ _ _ _ ?s") by (rule sample_sending)
  have w: "written list_bloom sample_as_time (sy_accepted ?s)"
    using sample_written [OF maxMemTableSize_less(1)] by (simp add: grown_def)
  have "sy_accepted ?s = sample_items" "\<not> (sy_writer ?s = W_panic \<or> sy_flusher ?s = F_panic)"
    "pending_items (sy_writer ?s) = []" "converting (sy_writer ?s) = None"
    by (simp_all add: grown_def)
  with storage_keeps_rows [OF list_roaring_ok list_skiplist_ok r w]
  have "table_keys list_skiplist (st_cur ?s) + pen_keys (merged ?s) (st_pen ?s) + levels_keys (st_levels ?s) =
      mset (map (index_key \<circ> fst) (sy_accepted ?s))" by simp
  with r \<open>sy_accepted ?s = sample_items\<close> show ?thesis by blast
qed

text \<open>Every index the storage publishes, waiting or in a level, represents a list of accepted events:
  queries on it are governed by the properties of queries.\<close>
theorem storage_index_rows:
  assumes "roaring_bitmap R" and "skip_list S made" and "reach R S as_time False s"
    and "written F as_time (sy_accepted s)"
    and "ri \<in> snd ` set (st_pen s) \<or> Some ri \<in> set (st_levels s)"
  shows "\<exists>rows. ri_rep R as_time ri rows \<and> set rows \<subseteq> set (item_rows (sy_accepted s))"
proof -
  have "holds_rows R as_time (set (item_rows (sy_accepted s))) ri"
    using reach_indices [OF assms(1-4)] assms(5) level_rows_simps(2) unfolding indices_ok_def by blast
  then show ?thesis by (simp add: holds_rows_def)
qed

theorem storage_index_rows_witness:
  "\<exists>ri rows. ri_rep list_roaring sample_as_time ri rows \<and> set rows \<subseteq> set (sample_rows maxMemTableSize)"
proof -
  obtain ri where r: "reach list_roaring list_skiplist sample_as_time False (grown (newMemTable list_skiplist) ri
      [Some ri, None, None, None] W_poll (F_send 1 0 []) False sample_items)"
    (is "steps _ _ _ _ _ ?s") by (rule sample_sending)
  have w: "written list_bloom sample_as_time (sy_accepted ?s)"
    using sample_written [OF maxMemTableSize_less(1)] by (simp add: grown_def)
  have "ri \<in> snd ` set (st_pen ?s) \<or> Some ri \<in> set (st_levels ?s)" by (simp add: grown_def)
  from storage_index_rows [OF list_roaring_ok list_skiplist_ok r w this]
  show ?thesis by (auto simp: grown_def item_rows_writes)
qed

text \<open>C27: In every reachable state, also with a timer that fires at any time and whatever is written, each
  of the first three levels is below its limit.\<close>
theorem levels_bounded:
  assumes "reach R S as_time late s" and "i < 3" and "st_levels s ! i = Some ri" and "levelLimit i = Some limit"
  shows "bm_cardinality R (ri_all ri) < limit"
proof -
  have "length (st_levels s) = 4 \<and> (\<forall>i < 3. below_limit R (st_levels s) i)"
    using assms(1)
  proof (induction rule: rtranclp_induct)
    case base
    show ?case by (auto simp: below_limit_def less_Suc_eq numeral_eq_Suc)
  next
    case (step s t)
    from step(2,3) show ?case
      by (induction rule: step.induct) (auto dest: mergeLevel_below simp del: One_nat_def)
  qed
  with assms(2-4) show ?thesis by (auto simp: below_limit_def)
qed

theorem levels_bounded_witness:
  "\<exists>s ri. sy_accepted s = sample_items \<and> reach list_roaring list_skiplist sample_as_time False s \<and> st_levels s ! 0 = Some ri \<and>
    bm_cardinality list_roaring (ri_all ri) < 256000"
proof -
  obtain ri where r: "reach list_roaring list_skiplist sample_as_time False (grown (newMemTable list_skiplist) ri
      [Some ri, None, None, None] W_poll (F_send 1 0 []) False sample_items)"
    (is "steps _ _ _ _ _ ?s") by (rule sample_sending)
  from levels_bounded [OF r, of 0 ri 256000] have "bm_cardinality list_roaring (ri_all ri) < 256000"
    by (simp add: levelLimit_def grown_def)
  moreover have "sy_accepted ?s = sample_items" "st_levels ?s ! 0 = Some ri" by (simp_all add: grown_def)
  ultimately show ?thesis using r by blast
qed

subsection \<open>What a reader sees\<close>

lemma reader_sees:
  assumes "roaring_bitmap R" and "skip_list S made" and "reach R S as_time False s1"
    and "steps R S as_time False s1 s2" and "steps R S as_time False s2 s3"
    and "written F as_time (sy_accepted s3)" and "sy_writer s1 \<noteq> W_panic" and "converting (sy_writer s1) = None"
    and "x \<in> set (sy_accepted s1)" and "x \<notin> set (pending_items (sy_writer s1))"
  shows "index_key (fst x) \<in># table_keys S (st_cur s1) \<or> index_key (fst x) \<in> pen_set s2 \<or>
    index_key (fst x) \<in> levels_set s3"
proof -
  have w2: "written F as_time (sy_accepted s2)"
    using written_prefix [OF assms(6) steps_accepted [OF assms(5)]] .
  have w1: "written F as_time (sy_accepted s1)"
    using written_prefix [OF w2 steps_accepted [OF assms(4)]] .
  obtain ic io where ok: "rows_ok R S F as_time s1 ic io" using reach_rows [OF assms(1-3) w1 assms(7)] by blast
  let ?P = "pending_items (sy_writer s1)"
  have "index_key (fst x) \<notin># item_keys ?P"
  proof
    assume "index_key (fst x) \<in># item_keys ?P"
    then obtain y where y: "y \<in> set ?P" "index_key (fst y) = index_key (fst x)" by (auto simp: item_keys_def)
    moreover have "y \<in> set (sy_accepted s1)" using y(1) ok by (auto simp: rows_ok_def)
    moreover have "version_view (fst y) = version_view (fst x)" using y(2) version_index_key by metis
    ultimately have "y = x" using written_inj [OF w1 _ assms(9)] by blast
    with y(1) assms(10) show False by simp
  qed
  moreover have "index_key (fst x) \<in># item_keys (sy_accepted s1)" using assms(9) by (simp add: item_keys_def)
  moreover have "io = []" using ok assms(8) by (simp add: rows_ok_def)
  ultimately consider "index_key (fst x) \<in># item_keys ic"
    | "index_key (fst x) \<in># pen_keys (merged s1) (st_pen s1)" | "index_key (fst x) \<in> levels_set s1"
    unfolding parts [OF ok] levels_set_keys by auto
  then show ?thesis
  proof cases
    case 1
    then show ?thesis
      using ok put_all_keys [OF assms(2) current_items [OF w1 ok]] by (simp add: rows_ok_def)
  next
    case 2
    then have "index_key (fst x) \<in> pen_set s1"
      using pen_keys_mem [of _ "merged s1" "st_pen s1"] by (auto simp: pen_set_def)
    then show ?thesis
      using steps_grow [OF assms(1-4) w2] steps_grow [OF assms(1,2) rtranclp_trans [OF assms(3,4)] assms(5,6)] by auto
  next
    case 3
    then show ?thesis
      using steps_grow [OF assms(1-4) w2] steps_grow [OF assms(1,2) rtranclp_trans [OF assms(3,4)] assms(5,6)] by auto
  qed
qed

text \<open>C8: A listing loads the table, the waiting indices and the levels one after the other, while the
  workers go on. In this order it misses nothing: the key of an item, event or tombstone, that had
  been put when the table was loaded is in the table, in the waiting indices loaded later, or in
  the levels loaded last. The conditions: the process runs at the first load, and the write worker
  is not converting a table then; no version of an event is written twice (only an update of the
  start time to the same instant does that), nor more than \<open>2 ^ 32\<close> items; and the timer of the flush
  worker does not fire while the write worker takes a flushed index out of the waiting ones.\<close>
theorem reader_complete:
  assumes "roaring_bitmap R" and "skip_list S made" and "reach R S as_time False s1"
    and "steps R S as_time False s1 s2" and "steps R S as_time False s2 s3"
    and "written F as_time (sy_accepted s3)" and "sy_writer s1 \<noteq> W_panic" and "converting (sy_writer s1) = None"
    and "x \<in> set (sy_accepted s1)" and "x \<notin> set (pending_items (sy_writer s1))"
  shows "index_key (fst x) \<in># table_keys S (st_cur s1) \<or> index_key (fst x) \<in> pen_set s2 \<or>
    index_key (fst x) \<in> levels_set s3"
  by (rule reader_sees [OF assms])

theorem reader_complete_witness:
  "\<exists>s x. sy_accepted s = sample_items \<and> reach list_roaring list_skiplist sample_as_time False s \<and> x \<in> set (sy_accepted s) \<and>
    index_key (fst x) \<in> pen_set s \<union> levels_set s"
proof -
  obtain ri where r: "reach list_roaring list_skiplist sample_as_time False (grown (newMemTable list_skiplist) ri
      [Some ri, None, None, None] W_poll (F_send 1 0 []) False sample_items)"
    (is "steps _ _ _ _ _ ?s") by (rule sample_sending)
  have w: "written list_bloom sample_as_time (sy_accepted ?s)"
    using sample_written [OF maxMemTableSize_less(1)] by (simp add: grown_def)
  have "sample_items \<noteq> []" using maxMemTableSize_less(4) by (metis length_map length_0_conv sample_rows_length less_numeral_extra(3))
  then obtain x where "x \<in> set sample_items" by (cases sample_items) auto
  then have x: "x \<in> set (sy_accepted ?s)" by (simp only: grown_def system.simps)
  have "table_keys list_skiplist (st_cur ?s) = {#}" "sy_writer ?s \<noteq> W_panic" "converting (sy_writer ?s) = None" "pending_items (sy_writer ?s) = []"
    by (simp_all add: grown_def table_keys_def newMemTable_def list_skiplist_def)
  with reader_complete [OF list_roaring_ok list_skiplist_ok r rtranclp.rtrancl_refl rtranclp.rtrancl_refl w _ _ x]
  have "index_key (fst x) \<in> pen_set ?s \<union> levels_set ?s" by simp
  moreover have "sy_accepted ?s = sample_items" by (simp add: grown_def)
  ultimately show ?thesis using r x by blast
qed

text \<open>The exception is real: the full table is replaced before its index is stored. There is a
  reachable state in which a full table of events, all put, is in none of the three places
  a listing looks at.\<close>
theorem conversion_hides:
  assumes "skip_list S made" and "distinct (map (version_view \<circ> row_key as_time) rows)"
    and "maxMemTableSize \<le> length rows"
  shows "\<exists>s. reach R S as_time late s \<and> sy_accepted s = map (table_write F as_time) rows \<and>
    pending_items (sy_writer s) = [] \<and> table_keys S (st_cur s) = {#} \<and> pen_set s = {} \<and> levels_set s = {}"
proof -
  let ?s = "young (newMemTable S) (W_convert (table_of S F as_time rows) []) (map (table_write F as_time) rows)"
  have "table_keys S (st_cur ?s) = {#}"
    by (simp add: young_def table_keys_def newMemTable_def skip_list.new_items [OF assms(1)])
  moreover have "sy_accepted ?s = map (table_write F as_time) rows" "pending_items (sy_writer ?s) = []"
    "pen_set ?s = {}" "levels_set ?s = {}"
    by (simp_all add: young_def pen_set_def levels_set_def)
  ultimately show ?thesis using hiding_reached [OF assms] by blast
qed

theorem conversion_hides_witness:
  "\<exists>s. sy_accepted s = sample_items \<and> reach list_roaring list_skiplist sample_as_time False s \<and>
    pending_items (sy_writer s) = [] \<and> table_keys list_skiplist (st_cur s) = {#} \<and> pen_set s = {} \<and> levels_set s = {}"
proof -
  from conversion_hides [OF sample_full, of list_roaring False list_bloom] obtain s where
    "reach list_roaring list_skiplist sample_as_time False s"
      "sy_accepted s = sample_items"
      "pending_items (sy_writer s) = []" "table_keys list_skiplist (st_cur s) = {#}" "pen_set s = {}" "levels_set s = {}"
    by blast
  then show ?thesis by blast
qed

subsection \<open>The flush worker and the shutdown\<close>

lemma stopped_closed: "reach R S as_time late s \<Longrightarrow> sy_writer s = W_stopped \<Longrightarrow> sy_closed s"
proof (induction rule: rtranclp_induct)
  case (step s t)
  from step(2,3,4) show ?case by (induction rule: step.induct) (auto split: if_splits)
qed simp

lemma panic_both: "reach R S as_time late s \<Longrightarrow> sy_writer s = W_panic \<longleftrightarrow> sy_flusher s = F_panic"
proof (induction rule: rtranclp_induct)
  case (step s t)
  from step(2,3) show ?case by (induction rule: step.induct) (auto split: if_splits)
qed simp

text \<open>How far the write worker is from receiving from the flush worker, when this waits for it.\<close>

fun writer_phase :: "('s, 'w) write_pc \<Rightarrow> nat \<times> nat" where
  "writer_phase (W_remove a first) = (7, 0)"
| "writer_phase W_wait = (6, 0)"
| "writer_phase (W_batch batch) = (5, 0)"
| "writer_phase (W_convert table batch) = (4, 0)"
| "writer_phase (W_notify batch) = (3, 0)"
| "writer_phase (W_put batch) = (2, length batch)"
| "writer_phase _ = (1, 0)"

lemma sending_step:
  assumes "step R S as_time late s t" and "sy_flusher s = F_send c a rest" and "\<not> sy_closed t"
  shows "sy_flusher t = F_merge c rest \<and> (\<exists>first. sy_writer t = W_remove a first) \<or>
    sy_writer t = W_panic \<and> sy_flusher t = F_panic \<or>
    sy_flusher t = F_send c a rest \<and> (writer_phase (sy_writer t), writer_phase (sy_writer s)) \<in> less_than <*lex*> less_than"
  using assms by (induction rule: step.induct) (auto simp: sending_def selecting_def)

lemma sending_progress:
  assumes "reach R S as_time late s" and f: "sy_flusher s = F_send c a rest" and "\<not> sy_closed s"
  shows "\<exists>t. step R S as_time late s t"
proof (cases "sy_writer s")
  case W_poll
  from step.poll_done [OF this f] show ?thesis by blast
next
  case W_wait
  from step.wait_done [OF this f] show ?thesis by blast
next
  case (W_remove a first)
  from step.remove [OF this] show ?thesis by blast
next
  case (W_batch batch)
  from step.batch_full [OF this] step.batch_room [OF this] show ?thesis by blast
next
  case (W_convert table batch)
  from step.convert [OF this] step.convert_panic [OF this] show ?thesis by (cases "fromMemTable R S as_time table") blast+
next
  case (W_notify batch)
  have "\<not> selecting (sy_flusher s)" using f by (simp add: selecting_def)
  from step.notify_default [OF W_notify this] show ?thesis by blast
next
  case (W_put batch)
  with step.put [of s] step.put_done [of s] show ?thesis by (cases batch) blast+
next
  case W_panic
  then show ?thesis using panic_both [OF assms(1)] f by simp
next
  case W_stopped
  then show ?thesis using stopped_closed [OF assms(1)] assms(3) by simp
qed

text \<open>C26: While the storage is open, a flush worker that wants to hand back an index is served: whatever the
  write worker is doing, whatever requests arrive and whenever the timer fires, the system can go
  on, and it cannot go on forever without the write worker receiving the index, to take it out of
  the waiting ones; no assumption on fairness is needed. (A run that is not infinite ends with
  \<open>Close\<close>, or with the panic of a conversion.)\<close>
theorem flush_served:
  assumes "reach R S as_time late s" and "sy_flusher s = F_send c a rest" and "\<not> sy_closed s"
  shows "(\<exists>t. step R S as_time late s t) \<and>
    (\<forall>run. run 0 = s \<longrightarrow> (\<forall>i. step R S as_time late (run i) (run (Suc i)) \<and> \<not> sy_closed (run i)) \<longrightarrow>
      (\<exists>i. sy_flusher (run i) = F_merge c rest \<and> (\<exists>first. sy_writer (run i) = W_remove a first)))"
proof (intro conjI allI impI)
  show "\<exists>t. step R S as_time late s t" by (rule sending_progress [OF assms])
  fix run assume 0: "run 0 = s" and run: "\<forall>i. step R S as_time late (run i) (run (Suc i)) \<and> \<not> sy_closed (run i)"
  show "\<exists>i. sy_flusher (run i) = F_merge c rest \<and> (\<exists>first. sy_writer (run i) = W_remove a first)"
  proof (rule ccontr)
    assume never: "\<not> ?thesis"
    have down: "sy_flusher (run (Suc i)) = F_send c a rest \<and>
        (writer_phase (sy_writer (run (Suc i))), writer_phase (sy_writer (run i))) \<in> less_than <*lex*> less_than"
      if "sy_flusher (run i) = F_send c a rest" for i
      using sending_step [of R S as_time late "run i" "run (Suc i)", OF _ that] run never panic_stuck by blast
    then have "sy_flusher (run i) = F_send c a rest" for i by (induction i) (use 0 assms(2) in auto)
    with down have "\<forall>i. (writer_phase (sy_writer (run (Suc i))), writer_phase (sy_writer (run i))) \<in> less_than <*lex*> less_than"
      by blast
    then have "\<exists>f. \<forall>i. (f (Suc i), f i) \<in> less_than <*lex*> less_than"
      by (intro exI [of _ "\<lambda>i. writer_phase (sy_writer (run i))"])
    moreover have "wf (less_than <*lex*> less_than)" by (intro wf_lex_prod wf_less_than)
    ultimately show False unfolding wf_iff_no_infinite_down_chain by (rule notE [rotated])
  qed
qed

theorem flush_served_witness:
  "\<exists>s t. sy_accepted s = sample_items \<and> reach list_roaring list_skiplist sample_as_time False s \<and> sy_flusher s = F_send 1 0 [] \<and>
    step list_roaring list_skiplist sample_as_time False s t"
proof -
  obtain ri where r: "reach list_roaring list_skiplist sample_as_time False (grown (newMemTable list_skiplist) ri
      [Some ri, None, None, None] W_poll (F_send 1 0 []) False sample_items)"
    (is "steps _ _ _ _ _ ?s") by (rule sample_sending)
  have f: "sy_flusher ?s = F_send 1 0 []" "\<not> sy_closed ?s" by (simp_all add: grown_def)
  moreover have "sy_accepted ?s = sample_items" by (simp add: grown_def)
  ultimately show ?thesis using flush_served [OF r f] r by blast
qed

text \<open>C29: \<open>Close\<close> can hang. There is a reachable state, after \<open>Close\<close>, in which the write worker has
  stopped while the flush worker wants to hand back an index: it can never move again, so the
  wait for both workers does not end.\<close>
theorem shutdown_deadlock:
  assumes "roaring_bitmap R" and "skip_list S made"
    and "distinct (map (version_view \<circ> row_key as_time) rows)"
    and "maxMemTableSize \<le> length rows" and "length rows \<le> 2 ^ 32"
  shows "\<exists>s. reach R S as_time late s \<and> sy_accepted s = map (table_write F as_time) rows \<and>
    sy_writer s = W_stopped \<and> sending (sy_flusher s) \<and> (\<forall>t. \<not> step R S as_time late s t)"
proof -
  let ?b = "map (table_write F as_time) rows"
  obtain ri levels where
    "reach R S as_time late (grown (newMemTable S) ri levels W_poll (F_send 1 0 []) False ?b)"
    using sending_reached [OF assms] by blast
  then have "reach R S as_time late (grown (newMemTable S) ri levels W_poll (F_send 1 0 []) True ?b)"
    by (rule grown_step [OF step.close, rotated 3]) (simp_all add: grown_def)
  then have "reach R S as_time late (grown (newMemTable S) ri levels W_stopped (F_send 1 0 []) True ?b)"
    (is "steps _ _ _ _ _ ?s")
    by (rule grown_step [OF step.poll_stop, rotated 3]) (simp_all add: grown_def)
  moreover have "\<not> step R S as_time late ?s t" for t
    by (auto simp: grown_def elim: step.cases)
  moreover have "sy_accepted ?s = ?b" "sy_writer ?s = W_stopped" "sending (sy_flusher ?s)"
    by (simp_all add: grown_def sending_def)
  ultimately show ?thesis by blast
qed

theorem shutdown_deadlock_witness:
  "\<exists>s. sy_accepted s = sample_items \<and> reach list_roaring list_skiplist sample_as_time False s \<and> sy_writer s = W_stopped \<and> sending (sy_flusher s) \<and>
    (\<forall>t. \<not> step list_roaring list_skiplist sample_as_time False s t)"
proof -
  have "length (sample_rows maxMemTableSize) \<le> 2 ^ 32" using maxMemTableSize_less(1) by simp
  from shutdown_deadlock [OF list_roaring_ok sample_full this, of False list_bloom] show ?thesis by blast
qed

text \<open>The invariant needs its assumption on the timer. If the timer fires before the write worker
  has taken a flushed index out of the waiting ones, the index is merged a second time and the
  levels hold every event of it twice.\<close>
theorem late_timer_duplicates:
  assumes "roaring_bitmap R" and "skip_list S made"
    and "distinct (map (version_view \<circ> row_key as_time) rows)"
    and "maxMemTableSize \<le> length rows" and "2 * length rows \<le> 2 ^ 32"
  shows "\<exists>s. reach R S as_time True s \<and> sy_accepted s = map (table_write F as_time) rows \<and>
    levels_keys (st_levels s) = row_keys as_time rows + row_keys as_time rows"
proof -
  let ?b = "map (table_write F as_time) rows" and ?n = "newMemTable S"
  have n: "length rows \<le> 2 ^ 32" using assms(5) by simp
  obtain ri levels where ri: "holds_rows R as_time (set rows) ri" "mset (ri_keys ri) = row_keys as_time rows"
    and l: "\<forall>l \<in> set levels. level_rows R as_time (set rows) l" "length levels = 4"
      "levels_keys levels = row_keys as_time rows"
    and 1: "reach R S as_time True (grown ?n ri levels W_poll (F_send 1 0 []) False ?b)"
    using sending_reached [OF assms(1-4) n, of True F] by blast
  have "size (levels_keys levels + mset (ri_keys ri)) \<le> 2 ^ 32" using assms(5) by (simp add: l(3) ri(2))
  from mergeLevel_holds [OF assms(1) l(1,2) ri(1) this] obtain levels' where
    l': "mergeLevel R levels ri = Some levels'" "levels_keys levels' = row_keys as_time rows + row_keys as_time rows"
    unfolding l(3) ri(2) by blast
  from 1 have "reach R S as_time True (grown ?n ri levels (W_remove 0 True) (F_merge 1 []) False ?b)"
    by (rule grown_step [OF step.poll_done [where a = 0 and c = 1 and rest = "[]"], rotated 3]) (simp_all add: grown_def)
  then have "reach R S as_time True (grown ?n ri levels (W_remove 0 True) (F_select 1) False ?b)"
    by (rule grown_step [OF step.merge_done [where c = 1], rotated 2]) (simp_all add: grown_def)
  then have "reach R S as_time True (grown ?n ri levels (W_remove 0 True) (F_load 1) False ?b)"
    by (rule grown_step [OF step.timer [where c = 1], rotated 3]) (simp_all add: grown_def)
  then have "reach R S as_time True (grown ?n ri levels (W_remove 0 True) (F_merge 1 [(0, ri)]) False ?b)"
    by (rule grown_step [OF step.load [where c = 1], rotated 2]) (simp_all add: grown_def)
  then have "reach R S as_time True (grown ?n ri levels' (W_remove 0 True) (F_send 1 0 []) False ?b)"
    by (rule grown_step [OF step.merge [where c = 1 and a = 0 and ri = ri and rest = "[]" and levels = levels'], rotated 3])
      (simp_all add: grown_def l'(1))
  moreover have "levels_keys (st_levels (grown ?n ri levels' (W_remove 0 True) (F_send 1 0 []) False ?b)) =
      row_keys as_time rows + row_keys as_time rows"
    "sy_accepted (grown ?n ri levels' (W_remove 0 True) (F_send 1 0 []) False ?b) = ?b"
    by (simp_all add: grown_def l'(2))
  ultimately show ?thesis by blast
qed

theorem late_timer_duplicates_witness:
  "\<exists>s. sy_accepted s = sample_items \<and> reach list_roaring list_skiplist sample_as_time True s \<and> size (levels_keys (st_levels s)) = 2 * length (sy_accepted s)"
proof -
  have "2 * length (sample_rows maxMemTableSize) \<le> 2 ^ 32" using maxMemTableSize_less(2) by simp
  from late_timer_duplicates [OF list_roaring_ok sample_full this, of list_bloom] obtain s where
    s: "reach list_roaring list_skiplist sample_as_time True s"
      "sy_accepted s = sample_items"
      "levels_keys (st_levels s) = row_keys sample_as_time (sample_rows maxMemTableSize) +
        row_keys sample_as_time (sample_rows maxMemTableSize)"
    by blast
  from s(2,3) have "size (levels_keys (st_levels s)) = 2 * length (sy_accepted s)" by simp
  with s(1,2) show ?thesis by blast
qed

text \<open>The loop over the items as a run, and the send on \<open>compactCh\<close> whether it succeeds or not.\<close>

lemma put_batch_run:
  assumes "sy_writer s = W_put batch"
  shows "\<exists>t. steps R S as_time late s t \<and> sy_writer t = W_poll \<and>
    Storage.truncate t = Storage.truncate (s\<lparr>st_cur := put_batch S batch (st_cur s)\<rparr>)"
proof -
  let ?t = "s\<lparr>st_cur := put_batch S batch (st_cur s), sy_writer := W_put []\<rparr>"
  have "step R S as_time late ?t (?t\<lparr>sy_writer := W_poll\<rparr>)" by (rule step.put_done) simp
  with put_run [OF assms] have "steps R S as_time late s (?t\<lparr>sy_writer := W_poll\<rparr>)"
    by (rule rtranclp.rtrancl_into_rtrancl)
  moreover have "Storage.truncate (?t\<lparr>sy_writer := W_poll\<rparr>) =
      Storage.truncate (s\<lparr>st_cur := put_batch S batch (st_cur s)\<rparr>)"
    by (simp add: Storage.defs)
  ultimately show ?thesis by force
qed

lemma notify_run:
  assumes "sy_writer s = W_notify batch"
  shows "\<exists>f. step R S as_time late s (s\<lparr>sy_writer := W_put batch, sy_flusher := f\<rparr>)"
proof (cases "selecting (sy_flusher s)")
  case True
  then obtain c where "sy_flusher s = F_select c" by (auto simp: selecting_def)
  from step.notify [OF assms this] show ?thesis by blast
next
  case False
  have "s\<lparr>sy_writer := W_put batch\<rparr> = s\<lparr>sy_writer := W_put batch, sy_flusher := sy_flusher s\<rparr>" by simp
  with step.notify_default [OF assms False] show ?thesis by metis
qed

text \<open>The steps of the write worker for a request compute \<open>batchCreateEvents\<close>: when the function
  returns, there is a run of the worker from receiving the batch back to its first \<open>select\<close> that
  ends in the storage the function returns.\<close>
lemma batch_steps:
  assumes "sy_writer s = W_batch batch"
    and "batchCreateEvents R S as_time (sy_next s) batch (Storage.truncate s) = Some st"
  shows "\<exists>t. steps R S as_time late s t \<and> sy_writer t = W_poll \<and> Storage.truncate t = st"
proof -
  have trunc: "st_cur (Storage.truncate s) = st_cur s" "full_table S (Storage.truncate s) = full_table S s"
    by (simp_all add: Storage.defs full_table_def)
  show ?thesis
  proof (cases "full_table S s")
    case False
    let ?u = "s\<lparr>sy_writer := W_put batch\<rparr>"
    have 1: "step R S as_time late s ?u" by (rule step.batch_room [OF assms(1) False])
    have "st = (Storage.truncate s)\<lparr>st_cur := put_batch S batch (st_cur s)\<rparr>"
      using assms(2) False by (simp add: batchCreateEvents_def trunc)
    then have "st = Storage.truncate (?u\<lparr>st_cur := put_batch S batch (st_cur ?u)\<rparr>)"
      by (simp add: Storage.defs)
    with put_batch_run [of ?u batch R S as_time late] obtain t where
      "steps R S as_time late ?u t" "sy_writer t = W_poll" "Storage.truncate t = st" by auto
    with 1 converse_rtranclp_into_rtranclp [of "step R S as_time late"] show ?thesis by blast
  next
    case True
    let ?c = "s\<lparr>st_cur := newMemTable S, sy_writer := W_convert (st_cur s) batch\<rparr>"
    obtain ri where ri: "fromMemTable R S as_time (st_cur s) = Some ri"
      and st: "st = append_pen (sy_next s) ri ((Storage.truncate s)\<lparr>st_cur := put_batch S batch (newMemTable S)\<rparr>)"
      using assms(2) True by (auto simp: batchCreateEvents_def trunc)
    let ?n = "append_pen (sy_next ?c) ri ?c\<lparr>sy_next := Suc (sy_next ?c), sy_writer := W_notify batch\<rparr>"
    have 1: "step R S as_time late s ?c" by (rule step.batch_full [OF assms(1) True])
    have 2: "step R S as_time late ?c ?n" by (rule step.convert [OF _ ri]) simp
    obtain f where 3: "step R S as_time late ?n (?n\<lparr>sy_writer := W_put batch, sy_flusher := f\<rparr>)"
      (is "step _ _ _ _ _ ?u") using notify_run [of ?n batch R S as_time late] by auto
    have "st = Storage.truncate (?u\<lparr>st_cur := put_batch S batch (st_cur ?u)\<rparr>)"
      by (simp add: st append_pen_def Storage.defs)
    with put_batch_run [of ?u batch R S as_time late] obtain t where
      t: "steps R S as_time late ?u t" "sy_writer t = W_poll" "Storage.truncate t = st" by auto
    note prepend = converse_rtranclp_into_rtranclp [of "step R S as_time late"]
    from prepend [OF 1 prepend [OF 2 prepend [OF 3 t(1)]]] t(2,3) show ?thesis by blast
  qed
qed

lemma batch_steps_witness:
  "\<exists>t. steps list_roaring list_skiplist sample_as_time False
      (young (newMemTable list_skiplist) (W_batch [table_write list_bloom sample_as_time sample_a]) []) t \<and>
    sy_writer t = W_poll \<and> st_cur t = table_of list_skiplist list_bloom sample_as_time [sample_a]"
proof -
  let ?b = "map (table_write list_bloom sample_as_time) [sample_a]"
  let ?s = "young (newMemTable list_skiplist) (W_batch ?b) [] :: (u32 list, _, _) system"
  let ?st = "(Storage.truncate ?s)\<lparr>st_cur := table_of list_skiplist list_bloom sample_as_time [sample_a]\<rparr>"
  have w: "sy_writer ?s = W_batch ?b" by (simp add: young_def)
  have nf: "\<not> full_table list_skiplist (Storage.truncate ?s)"
    by (simp add: young_def Storage.defs full_table_def mt_size_def newMemTable_def list_skiplist_def maxMemTableSize_def)
  have c: "st_cur (Storage.truncate ?s) = newMemTable list_skiplist" by (simp add: young_def Storage.defs)
  have "batchCreateEvents list_roaring list_skiplist sample_as_time (sy_next ?s) ?b (Storage.truncate ?s) = Some ?st"
    unfolding batchCreateEvents_def c put_batch_all using nf by (rule if_not_P)
  from batch_steps [OF w this, of False] obtain t where
    "steps list_roaring list_skiplist sample_as_time False ?s t" "sy_writer t = W_poll" "Storage.truncate t = ?st" by blast
  moreover from this(3) have "st_cur t = table_of list_skiplist list_bloom sample_as_time [sample_a]"
    by (simp add: Storage.defs young_def)
  ultimately show ?thesis by auto
qed

end
