(* ===== verification/List_Run.thy ===== *)
theory List_Run
  imports List_Keys Storage_Spec
begin

text \<open>
  A listing in the middle of a run of the workers. It loads the table, the waiting indices and the
  levels in three states of the run, and the run goes on to a fourth while it walks through them;
  the items put into the loaded table meanwhile are among those accepted by then. The keys it
  collects are those of accepted events that match, and none is left out. Events may be updated
  and deleted meanwhile: the accepted items are events and tombstones.
\<close>

subsection \<open>The moments of a listing\<close>

definition loaded :: "('b, 's, 'w) system \<Rightarrow> ('b, 's, 'w) system \<Rightarrow> ('b, 's, 'w) system \<Rightarrow> ('b, 's) Storage" where
  "loaded s1 s2 s3 = \<lparr>st_cur = st_cur s1, st_pen = st_pen s2, st_levels = st_levels s3\<rparr>"

definition during_run ::
  "'b roaring \<Rightarrow> (EventKey, ('ts, 'f) memTableItem, 's) skiplist \<Rightarrow> 'f bloom \<Rightarrow> ('ts option \<Rightarrow> go_time) \<Rightarrow>
   ('b, 's, ('ts, 'f) writeItem) system \<Rightarrow> ('b, 's, ('ts, 'f) writeItem) system \<Rightarrow> ('b, 's, ('ts, 'f) writeItem) system \<Rightarrow>
   ('b, 's, ('ts, 'f) writeItem) system \<Rightarrow> ('ts, 'f) writeItem list list \<Rightarrow> bool" where
  "during_run R S F as_time s1 s2 s3 s4 puts \<longleftrightarrow>
     reach R S as_time False s1 \<and> sy_writer s1 \<noteq> W_panic \<and> steps R S as_time False s1 s2 \<and> steps R S as_time False s2 s3 \<and>
     steps R S as_time False s3 s4 \<and> set (concat puts) \<subseteq> set (sy_accepted s4) \<and>
     written F as_time (sy_accepted s4) \<and> (\<forall>row \<in> set (item_rows (sy_accepted s4)). ev_ok (fst row))"

lemma indices_loaded: "indices (loaded s1 s2 s3) = st_levels s3 @ map (Some \<circ> snd) (st_pen s2)"
  by (simp add: indices_def loaded_def)

lemma st_cur_loaded [simp]: "st_cur (loaded s1 s2 s3) = st_cur s1"
  by (simp add: loaded_def)

lemma item_rows_prefix: "prefix xs ys \<Longrightarrow> set (item_rows xs) \<subseteq> set (item_rows ys)"
  by (auto simp: item_rows_append elim!: prefixE)

lemma written_one_version: "written F as_time items \<Longrightarrow> one_version (set items)"
  unfolding one_version_def using written_inj by blast

lemma put_all_made:
  assumes "skip_list S made"
  shows "made memTable_compare (mt_items (put_all S items))"
  by (induction items rule: rev_induct)
    (simp_all add: put_all_def putItem_def newMemTable_def skip_list.made_new [OF assms] skip_list.made_set [OF assms] split: prod.splits)

text \<open>An item is an event or a tombstone.\<close>

lemma written_cases:
  assumes "written F as_time items" and "x \<in> set items"
  obtains row where "row \<in> set (item_rows items)" and "x = table_write F as_time row"
  | "mi_event (snd x) = None" and "key_IsDeleted (fst x)"
proof -
  have ok: "item_ok F as_time x" using assms by (simp add: written_def)
  show thesis
  proof (cases "\<exists>row. x = table_write F as_time row")
    case True
    with assms(2) that(1) show thesis by (blast intro: item_rows_mem)
  next
    case False
    with ok that(2) show thesis by (simp add: item_ok_def)
  qed
qed

text \<open>What was loaded: a table of accepted items, and indices each of which stands for accepted rows.\<close>

lemma loaded_rows:
  assumes R: "roaring_bitmap R" and S: "skip_list S made" and run: "during_run R S F as_time s1 s2 s3 s4 puts"
  shows "made memTable_compare (mt_items (st_cur s1))" and "version_sorted (map fst (sl_items S (mt_items (st_cur s1))))"
    and "set (sl_items S (mt_items (st_cur s1))) \<subseteq> set (sy_accepted s4)" and "one_version (set (sy_accepted s4))"
    and "\<forall>l \<in> set (indices (loaded s1 s2 s3)). \<forall>ri. l = Some ri \<longrightarrow>
      (\<exists>rows. ri_rep R as_time ri rows \<and> set rows \<subseteq> set (item_rows (sy_accepted s4)))"
proof -
  have s: "reach R S as_time False s1" "steps R S as_time False s1 s2" "steps R S as_time False s2 s3" "steps R S as_time False s3 s4"
    and alive: "sy_writer s1 \<noteq> W_panic" and w: "written F as_time (sy_accepted s4)" using run by (simp_all add: during_run_def)
  have p3: "prefix (sy_accepted s3) (sy_accepted s4)" and p2: "prefix (sy_accepted s2) (sy_accepted s4)"
    and p1: "prefix (sy_accepted s1) (sy_accepted s4)"
    using steps_accepted [OF s(2)] steps_accepted [OF s(3)] steps_accepted [OF s(4)] by (auto intro: prefix_order.trans)
  have r2: "reach R S as_time False s2" using s(1,2) by (rule rtranclp_trans)
  have r3: "reach R S as_time False s3" using r2 s(3) by (rule rtranclp_trans)
  note w1 = written_prefix [OF w p1]
  obtain ic io where ok: "rows_ok R S F as_time s1 ic io" using reach_rows [OF R S s(1) w1 alive] by blast
  then have cur: "st_cur s1 = put_all S ic" "set ic \<subseteq> set (sy_accepted s1)" by (simp_all add: rows_ok_def)
  show "made memTable_compare (mt_items (st_cur s1))" "version_sorted (map fst (sl_items S (mt_items (st_cur s1))))"
    unfolding cur(1) by (rule put_all_made [OF S], rule put_all_sorted [OF S])
  have "mset (sl_items S (mt_items (st_cur s1))) = mset ic"
    unfolding cur(1) by (rule put_all_items [OF S current_items [OF w1 ok]])
  from mset_eq_setD [OF this] cur(2) set_mono_prefix [OF p1]
  show "set (sl_items S (mt_items (st_cur s1))) \<subseteq> set (sy_accepted s4)" by blast
  show "one_version (set (sy_accepted s4))" by (rule written_one_version [OF w])
  note i = item_rows_prefix [OF p2] item_rows_prefix [OF p3]
  have "holds_rows R as_time (set (item_rows (sy_accepted s4))) ri"
    if "Some ri \<in> set (indices (loaded s1 s2 s3))" for ri
  proof -
    from that consider "Some ri \<in> set (st_levels s3)" | "ri \<in> snd ` set (st_pen s2)" unfolding indices_loaded by auto
    then show ?thesis
    proof cases
      case 1
      with reach_indices [OF R S r3 written_prefix [OF w p3]] have "holds_rows R as_time (set (item_rows (sy_accepted s3))) ri"
        using level_rows_simps(2) unfolding indices_ok_def by blast
      then show ?thesis by (rule holds_rows_mono [OF _ i(2)])
    next
      case 2
      with reach_indices [OF R S r2 written_prefix [OF w p2]] have "holds_rows R as_time (set (item_rows (sy_accepted s2))) ri"
        unfolding indices_ok_def by auto
      then show ?thesis by (rule holds_rows_mono [OF _ i(1)])
    qed
  qed
  then show "\<forall>l \<in> set (indices (loaded s1 s2 s3)). \<forall>ri. l = Some ri \<longrightarrow>
      (\<exists>rows. ri_rep R as_time ri rows \<and> set rows \<subseteq> set (item_rows (sy_accepted s4)))"
    by (auto simp: holds_rows_def)
qed

lemma pending_keys_Cons: "pending_keys (l # ls) = set l \<union> pending_keys ls"
  by (simp add: pending_keys_def)

subsection \<open>Where the keys come from\<close>

text \<open>A key that a listing may yield for a row, of the items \<open>T\<close> of the table or of an index.\<close>

definition key_of ::
  "'f bloom \<Rightarrow> ('ts option \<Rightarrow> go_time) \<Rightarrow> ('ts, 'f) writeItem set \<Rightarrow> go_time \<Rightarrow> go_time \<Rightarrow> Filter option \<Rightarrow> 'ts row \<Rightarrow> EventKey \<Rightarrow> bool" where
  "key_of F as_time T startTime endTime flt row k \<longleftrightarrow> filter_holds (event_sat (fst row)) flt \<and>
     (k = fst (table_write F as_time row) \<and> table_write F as_time row \<in> T \<or> k = row_key as_time row \<and> row_matches as_time startTime endTime flt row)"

text \<open>How a row of a given id is found among the keys that are left.\<close>

lemma row_ids [simp]:
  "key_ID (row_key as_time row) = ev_Id (fst row)" "key_ID (fst (table_write F as_time row)) = ev_Id (fst row)"
  "key_Timestamp (row_key as_time row) = fst (snd row)" "key_Timestamp (fst (table_write F as_time row)) = fst (snd row)"
  "key_IsDeleted (row_key as_time row) = snd (snd row)" "key_IsDeleted (fst (table_write F as_time row)) = snd (snd row)"
  by (simp_all add: row_key_def table_write_def EventKeyFromProto_def getters split: prod.splits)

lemma key_of_view: "key_of F as_time T startTime endTime flt row k \<Longrightarrow>
    version_view k = version_view (row_key as_time row) \<and> key_ID k = ev_Id (fst row) \<and> key_Timestamp k = fst (snd row) \<and>
    key_IsDeleted k = snd (snd row)"
  by (auto simp: key_of_def version_view_row_key [of _ _ F])

lemma table_key_of:
  assumes F: "bloom_filter F" and e: "ev_ok (fst row)"
    and "(k, v) = table_write F as_time row" and "matchMemTableItem F flt v = Inr True" and "(k, v) \<in> T"
  shows "key_of F as_time T startTime endTime flt row k"
proof -
  have "v = newMemTableItem F (Some (fst row)) (fst (snd row)) (snd (snd row))" "k = fst (table_write F as_time row)"
    using assms(3) by (cases row; simp add: table_write_def)+
  with match_item_value [OF F e] assms(3-5) show ?thesis by (simp add: key_of_def)
qed

lemma index_finds:
  assumes "ri_rep R as_time ri rows" and "selects as_time startTime endTime flt ts rows l"
    and "row_key as_time row \<in> set (ri_keys ri)" and "\<And>row'. row' \<in> set rows \<Longrightarrow> ev_Id (fst row') = ev_Id (fst row) \<Longrightarrow> row' = row"
    and "fst (snd row) \<le> ts" and "row_matches as_time startTime endTime flt row"
  shows "\<exists>k \<in> set l. key_ID k = ev_Id (fst row)"
proof -
  from assms(3) obtain row' where r: "row' \<in> set rows" "row_key as_time row' = row_key as_time row"
    by (auto simp: ri_repD(2) [OF assms(1)])
  from arg_cong [OF r(2), of key_ID] have "ev_Id (fst row') = ev_Id (fst row)" by simp
  from assms(4) [OF r(1) this] r(1) have "row \<in> set rows" by simp
  with assms(2,5,6) show ?thesis unfolding selects_def by auto
qed

text \<open>Where an accepted event is after the three loads.\<close>

lemma loaded_finds:
  assumes R: "roaring_bitmap R" and S: "skip_list S made" and run: "during_run R S F as_time s1 s2 s3 s4 puts"
    and c: "converting (sy_writer s1) = None"
    and row: "table_write F as_time row \<in> set (sy_accepted s1)" "table_write F as_time row \<notin> set (pending_items (sy_writer s1))"
  shows "(\<exists>x \<in> set (sl_items S (mt_items (st_cur s1))). index_key (fst x) = row_key as_time row) \<or>
    (\<exists>ri. Some ri \<in> set (indices (loaded s1 s2 s3)) \<and> row_key as_time row \<in> set (ri_keys ri))"
proof -
  have s: "reach R S as_time False s1" "steps R S as_time False s1 s2" "steps R S as_time False s2 s3" "steps R S as_time False s3 s4"
    and alive: "sy_writer s1 \<noteq> W_panic" and w: "written F as_time (sy_accepted s4)" using run by (simp_all add: during_run_def)
  from reader_sees [OF R S s(1-3) written_prefix [OF w steps_accepted [OF s(4)]] alive c row]
  consider "row_key as_time row \<in># table_keys S (st_cur s1)"
    | "row_key as_time row \<in> pen_set s2" | "row_key as_time row \<in> levels_set s3"
    unfolding row_key_write [of as_time row F] by blast
  then show ?thesis
  proof cases
    case 1
    then show ?thesis by (auto simp: table_keys_def intro!: bexI [rotated])
  next
    case 2
    then show ?thesis by (auto simp: pen_set_def indices_loaded)
  next
    case 3
    then show ?thesis by (auto simp: levels_set_def level_keys_def indices_loaded split: option.splits)
  qed
qed

subsection \<open>The collected keys\<close>

definition walked :: "(EventKey, ('ts, 'f) memTableItem, 's) skiplist \<Rightarrow> ('b, 's, 'w) system \<Rightarrow> ('ts, 'f) writeItem list list \<Rightarrow> ('ts, 'f) writeItem set" where
  "walked S s1 puts = set (sl_items S (mt_items (st_cur s1))) \<union> set (concat puts)"

text \<open>A key of a row, or a key of a tombstone.\<close>

definition accounted ::
  "'f bloom \<Rightarrow> ('ts option \<Rightarrow> go_time) \<Rightarrow> ('ts, 'f) writeItem list \<Rightarrow> ('ts, 'f) writeItem set \<Rightarrow> go_time \<Rightarrow> go_time \<Rightarrow>
   Filter option \<Rightarrow> EventKey \<Rightarrow> bool" where
  "accounted F as_time items T startTime endTime flt k \<longleftrightarrow>
     (\<exists>row \<in> set (item_rows items). key_of F as_time T startTime endTime flt row k) \<or>
     key_IsDeleted k \<and> (\<exists>v. (k, v) \<in> set items \<and> mi_event v = None)"

lemma collected_keys:
  fixes R :: "'b roaring" and S :: "(EventKey, ('ts, 'f) memTableItem, 's) skiplist"
  assumes R: "roaring_bitmap R" and S: "skip_list S made" and F: "bloom_filter F"
    and run: "during_run R S F as_time s1 s2 s3 s4 puts"
    and flt: "wf_filter flt" "filter_errors flt = [] \<or> set (indices (loaded s1 s2 s3)) \<subseteq> {None}" and n: "0 < numCPU" "0 \<le> page_size pg"
  obtains ls where "list_keys R S F numCPU (loaded s1 s2 s3) puts startTime endTime flt ts pg =
      Some (Inr (take_page (page_size pg) (merge_out ls)))"
    and "\<And>k. k \<in> pending_keys ls \<Longrightarrow> key_Timestamp k \<le> ts \<and>
      accounted F as_time (sy_accepted s4) (walked S s1 puts) startTime endTime flt k"
    and "\<And>k v. (k, v) \<in> set (sl_items S (mt_items (st_cur s1))) \<Longrightarrow> key_Timestamp k \<le> ts \<Longrightarrow> matchMemTableItem F flt v = Inr True \<Longrightarrow>
      \<forall>x \<in> set (sy_accepted s4). key_ID (fst x) = key_ID k \<longrightarrow> fst x = k \<Longrightarrow> k \<in> pending_keys ls"
    and "\<And>ri. Some ri \<in> set (indices (loaded s1 s2 s3)) \<Longrightarrow> \<exists>l \<in> set ls. \<exists>rows. ri_rep R as_time ri rows \<and>
      set rows \<subseteq> set (item_rows (sy_accepted s4)) \<and> selects as_time startTime endTime flt ts rows l"
proof -
  note rows = loaded_rows [OF R S run]
  let ?W = "set (item_rows (sy_accepted s4))" and ?t = "(st_cur s1, puts, NewMemTableIterator flt ts)"
  let ?ok = "accounted F as_time (sy_accepted s4) (walked S s1 puts) startTime endTime flt"
  have puts: "set (concat puts) \<subseteq> set (sy_accepted s4)" and ok: "\<forall>row \<in> ?W. ev_ok (fst row)"
    and w: "written F as_time (sy_accepted s4)" using run by (simp_all add: during_run_def)
  note cur = rows(1,2) [folded st_cur_loaded [of s1 s2 s3]]
  note start = live_start [OF S rows(1,2), where f = flt and ts = ts]
  from list_keys_ok [OF R flt n S cur rows(5), of F puts startTime endTime ts] obtain ls where
    ls: "list_keys R S F numCPU (loaded s1 s2 s3) puts startTime endTime flt ts pg =
      Some (Inr (take_page (page_size pg) (merge_out (live_left S F ?t # ls))))"
    "\<forall>l \<in> set ls. \<exists>rows. set rows \<subseteq> ?W \<and> selects as_time startTime endTime flt ts rows l"
    "\<forall>ri. Some ri \<in> set (indices (loaded s1 s2 s3)) \<longrightarrow>
       (\<exists>l \<in> set ls. \<exists>rows. ri_rep R as_time ri rows \<and> set rows \<subseteq> ?W \<and> selects as_time startTime endTime flt ts rows l)"
    unfolding st_cur_loaded by blast
  show thesis
  proof (rule that [OF ls(1)])
    fix k assume "k \<in> pending_keys (live_left S F ?t # ls)"
    then consider "k \<in> set (live_left S F ?t)" | l where "l \<in> set ls" "k \<in> set l" by (auto simp: pending_keys_def)
    then show "key_Timestamp k \<le> ts \<and> ?ok k"
    proof cases
      case 1
      have sub: "walked S s1 puts \<subseteq> set (sy_accepted s4)" using rows(3) puts by (simp add: walked_def)
      then have "one_version (walked S s1 puts)" using rows(4) unfolding one_version_def by blast
      from live_left_sound [OF start(1) this _ _ 1] obtain v where
        v: "(k, v) \<in> walked S s1 puts" "key_Timestamp k \<le> ts" "matchMemTableItem F flt v = Inr True"
        unfolding start(3,4) by (auto simp: walked_def)
      then have kv: "(k, v) \<in> set (sy_accepted s4)" using sub by blast
      show ?thesis
      proof (cases rule: written_cases [OF w kv])
        case (1 row)
        with table_key_of [OF F _ 1(2) v(3,1)] ok v(2) show ?thesis unfolding accounted_def by blast
      next
        case 2
        with kv v(2) show ?thesis unfolding accounted_def by auto
      qed
    next
      case 2
      with ls(2) obtain rows where "set rows \<subseteq> ?W" "selects as_time startTime endTime flt ts rows l" by blast
      with 2(2) show ?thesis unfolding selects_def accounted_def key_of_def row_matches_def by fast
    qed
  next
    fix k v assume kv: "(k, v) \<in> set (sl_items S (mt_items (st_cur s1)))" and k: "key_Timestamp k \<le> ts" "matchMemTableItem F flt v = Inr True"
      and alone: "\<forall>x \<in> set (sy_accepted s4). key_ID (fst x) = key_ID k \<longrightarrow> fst x = k"
    have "k \<in> set (live_left S F ?t)"
      by (rule live_left_complete [OF start(1) rows(4,3) puts alone kv start(2)]) (use k start in simp_all)
    then show "k \<in> pending_keys (live_left S F ?t # ls)" by (simp add: pending_keys_Cons)
  next
    fix ri assume "Some ri \<in> set (indices (loaded s1 s2 s3))"
    with ls(3) show "\<exists>l \<in> set (live_left S F ?t # ls). \<exists>rows. ri_rep R as_time ri rows \<and> set rows \<subseteq> ?W \<and>
        selects as_time startTime endTime flt ts rows l" by auto
  qed
qed

text \<open>Each collected key belongs to an accepted event that matches.\<close>

lemma keys_sound:
  assumes "roaring_bitmap R" and "skip_list S made" and "bloom_filter F" and "during_run R S F as_time s1 s2 s3 s4 puts"
    and "wf_filter flt" and "filter_errors flt = [] \<or> set (indices (loaded s1 s2 s3)) \<subseteq> {None}" and "0 < numCPU" and "0 \<le> page_size pg"
  shows "\<exists>keys. list_keys R S F numCPU (loaded s1 s2 s3) puts startTime endTime flt ts pg = Some (Inr keys) \<and>
    int (length keys) \<le> page_size pg \<and>
    (\<forall>k \<in> set keys. \<not> key_IsDeleted k \<and> key_Timestamp k \<le> ts \<and>
      (\<exists>row \<in> set (item_rows (sy_accepted s4)). key_of F as_time (walked S s1 puts) startTime endTime flt row k))"
proof -
  from collected_keys [OF assms, of startTime endTime ts] obtain ls where
    ls: "list_keys R S F numCPU (loaded s1 s2 s3) puts startTime endTime flt ts pg = Some (Inr (take_page (page_size pg) (merge_out ls)))"
    "\<And>k. k \<in> pending_keys ls \<Longrightarrow> key_Timestamp k \<le> ts \<and>
      accounted F as_time (sy_accepted s4) (walked S s1 puts) startTime endTime flt k" by metis
  have "\<not> key_IsDeleted k \<and> key_Timestamp k \<le> ts \<and>
      (\<exists>row \<in> set (item_rows (sy_accepted s4)). key_of F as_time (walked S s1 puts) startTime endTime flt row k)"
    if "k \<in> set (take_page (page_size pg) (merge_out ls))" for k
    using take_page_mem [OF that] ls(2) [of k] set_merge_out [of ls] unfolding accounted_def by blast
  with ls(1) take_page_length [OF assms(8)] show ?thesis by blast
qed

text \<open>With an ill-typed filter the listing fails as soon as there is an index.\<close>

lemma keys_error:
  fixes R :: "'b roaring" and S :: "(EventKey, ('ts, 'f) memTableItem, 's) skiplist"
  assumes R: "roaring_bitmap R" and S: "skip_list S made" and run: "during_run R S F as_time s1 s2 s3 s4 puts"
    and "wf_filter flt" and "0 < numCPU" and "filter_errors flt = e # es" and ind: "\<not> set (indices (loaded s1 s2 s3)) \<subseteq> {None}"
  shows "list_keys R S F numCPU (loaded s1 s2 s3) puts startTime endTime flt ts pg = Some (Inl e)"
proof -
  have rep: "\<forall>l \<in> set (indices (loaded s1 s2 s3)). \<forall>ri. l = Some ri \<longrightarrow> (\<exists>rows. ri_rep R as_time ri rows)"
    using loaded_rows(5) [OF R S run] by blast
  obtain l where "l \<in> set (indices (loaded s1 s2 s3))" "l \<noteq> None" using ind by blast
  then have "\<exists>ri. Some ri \<in> set (indices (loaded s1 s2 s3))" by (cases l) auto
  with index_iterators_error [OF R assms(4,6,5) rep, of startTime endTime ts]
  have "index_iterators R numCPU startTime endTime flt ts (indices (loaded s1 s2 s3)) =
      Some (Inl e :: filter_error + ('ts, 'f, 's) any_iterator list)" by simp
  then show ?thesis by (simp add: list_keys_def indices_def)
qed

lemma keys_found:
  assumes "roaring_bitmap R" and "skip_list S made" and "during_run R S F as_time s1 s2 s3 s4 puts" and "wf_filter flt" and "0 < numCPU"
    and keys: "list_keys R S F numCPU (loaded s1 s2 s3) puts startTime endTime flt ts pg = Some (Inr keys)"
  shows "filter_errors flt = [] \<or> set (indices (loaded s1 s2 s3)) \<subseteq> {None}"
proof (rule ccontr)
  assume "\<not> ?thesis"
  moreover from this obtain e es where "filter_errors flt = e # es" by (cases "filter_errors flt") auto
  ultimately show False using keys_error [OF assms(1-5), of e es startTime endTime ts pg] keys by simp
qed

text \<open>No matching event that was in the storage is missing, when nothing else was written with its id.\<close>

lemma keys_complete:
  assumes R: "roaring_bitmap R" and S: "skip_list S made" and F: "bloom_filter F"
    and run: "during_run R S F as_time s1 s2 s3 s4 puts" and flt: "wf_filter flt" "filter_errors flt = []"
    and n: "0 < numCPU" "0 \<le> page_size pg"
    and once: "\<forall>x \<in> set (sy_accepted s4). key_ID (fst x) = ev_Id (fst row) \<longrightarrow> x = table_write F as_time row"
    and c: "converting (sy_writer s1) = None"
    and keys: "list_keys R S F numCPU (loaded s1 s2 s3) puts startTime endTime flt ts pg = Some (Inr keys)"
      "int (length keys) < page_size pg"
    and row: "table_write F as_time row \<in> set (sy_accepted s1)" "table_write F as_time row \<notin> set (pending_items (sy_writer s1))"
      "\<not> snd (snd row)" "fst (snd row) \<le> ts" "row_matches as_time startTime endTime flt row"
  shows "\<exists>k \<in> set keys. key_of F as_time (walked S s1 puts) startTime endTime flt row k"
proof -
  let ?W = "set (item_rows (sy_accepted s4))" and ?x = "table_write F as_time row"
  note rows = loaded_rows [OF R S run]
  have w: "written F as_time (sy_accepted s4)" and ok: "\<forall>row \<in> ?W. ev_ok (fst row)" using run by (simp_all add: during_run_def)
  have "prefix (sy_accepted s1) (sy_accepted s4)"
    using run unfolding during_run_def by (meson prefix_order.trans steps_accepted)
  then have x: "?x \<in> set (sy_accepted s4)" using row(1) set_mono_prefix by blast
  then have rowW: "row \<in> ?W" by (rule item_rows_mem)
  have same: "row' = row" if row': "row' \<in> ?W" "ev_Id (fst row') = ev_Id (fst row)" for row'
  proof -
    have "table_write F as_time row' = ?x" using once row' written_rows [OF w, of row'] by simp
    from arg_cong [OF this, of "\<lambda>x. item_rows [x]"] show ?thesis
      using item_rows_writes [of F as_time "[row]"] item_rows_writes [of F as_time "[row']"] by simp
  qed
  obtain ls where
    ls: "list_keys R S F numCPU (loaded s1 s2 s3) puts startTime endTime flt ts pg = Some (Inr (take_page (page_size pg) (merge_out ls)))"
    and of_key: "\<And>k. k \<in> pending_keys ls \<Longrightarrow> key_Timestamp k \<le> ts \<and>
      accounted F as_time (sy_accepted s4) (walked S s1 puts) startTime endTime flt k"
    and tab: "\<And>k v. (k, v) \<in> set (sl_items S (mt_items (st_cur s1))) \<Longrightarrow> key_Timestamp k \<le> ts \<Longrightarrow> matchMemTableItem F flt v = Inr True \<Longrightarrow>
      \<forall>x \<in> set (sy_accepted s4). key_ID (fst x) = key_ID k \<longrightarrow> fst x = k \<Longrightarrow> k \<in> pending_keys ls"
    and ind: "\<And>ri. Some ri \<in> set (indices (loaded s1 s2 s3)) \<Longrightarrow> \<exists>l \<in> set ls. \<exists>rows. ri_rep R as_time ri rows \<and>
      set rows \<subseteq> ?W \<and> selects as_time startTime endTime flt ts rows l"
    by (rule collected_keys [OF R S F run flt(1) disjI1 [OF flt(2)] n, of startTime endTime ts]) (rule that)
  have this_row: "key_of F as_time (walked S s1 puts) startTime endTime flt row k" if k: "k \<in> pending_keys ls" "key_ID k = ev_Id (fst row)" for k
  proof -
    have "\<not> (\<exists>v. (k, v) \<in> set (sy_accepted s4) \<and> mi_event v = None)"
      using once k(2) table_write_row(1) [of F as_time row] by fastforce
    with of_key [OF k(1)] obtain row' where row': "row' \<in> ?W" "key_of F as_time (walked S s1 puts) startTime endTime flt row' k"
      unfolding accounted_def by blast
    with key_of_view [OF row'(2)] k(2) have "ev_Id (fst row') = ev_Id (fst row)" by simp
    from same [OF row'(1) this] row'(2) show ?thesis by simp
  qed
  from loaded_finds [OF R S run c row(1,2)]
  have "\<exists>k \<in> pending_keys ls. key_ID k = ev_Id (fst row)"
  proof (elim disjE bexE exE conjE)
    fix y assume y: "y \<in> set (sl_items S (mt_items (st_cur s1)))" "index_key (fst y) = row_key as_time row"
    from arg_cong [OF y(2), of key_ID] have "key_ID (fst y) = ev_Id (fst row)" by (simp add: index_key_def)
    then have xr: "y = ?x" using once y(1) rows(3) by blast
    have e: "ev_ok (fst row)" using ok rowW by blast
    have "matchMemTableItem F flt (snd y) = Inr True"
      using bloom_filter.match_item [OF F e flt(2)] row(5) unfolding xr
      by (cases row) (simp add: table_write_def row_matches_def)
    moreover have "\<forall>z \<in> set (sy_accepted s4). key_ID (fst z) = key_ID (fst y) \<longrightarrow> fst z = fst y"
      unfolding xr using once by auto
    moreover have "(fst y, snd y) \<in> set (sl_items S (mt_items (st_cur s1)))" "key_Timestamp (fst y) \<le> ts"
      using y(1) row(4) by (simp_all add: xr)
    ultimately have "fst y \<in> pending_keys ls" using tab by blast
    then show ?thesis by (intro bexI [of _ "fst y"]) (simp_all add: xr)
  next
    fix ri assume ri: "Some ri \<in> set (indices (loaded s1 s2 s3))" "row_key as_time row \<in> set (ri_keys ri)"
    with ind obtain l rows where l: "l \<in> set ls" "ri_rep R as_time ri rows" "set rows \<subseteq> ?W"
      "selects as_time startTime endTime flt ts rows l" by blast
    have "\<exists>k \<in> set l. key_ID k = ev_Id (fst row)"
      by (rule index_finds [OF l(2,4) ri(2) _ row(4,5)]) (use same l(3) in blast)
    with l(1) show ?thesis by (auto simp: pending_keys_def)
  qed
  then obtain x where x: "x \<in> pending_keys ls" "key_ID x = ev_Id (fst row)" by blast
  obtain y where y: "y \<in> set (merge_out ls)" "newer x y" using merge_out_newest [OF x(1)] by blast
  then have "key_view y = key_view x" by (simp add: newer_def)
  with key_view_ID [OF this] x(2) have "key_ID y = ev_Id (fst row)" by simp
  with y(1) set_merge_out [of ls] this_row have of: "key_of F as_time (walked S s1 puts) startTime endTime flt row y" by blast
  have "keys = take_page (page_size pg) (merge_out ls)" using ls keys(1) by simp
  with take_page_all [OF _ y(1)] keys(2) key_of_view [OF of] row(3) have "y \<in> set keys" by blast
  with of show ?thesis by blast
qed

end
