(* ===== verification/Rpc_Calls.thy ===== *)
theory Rpc_Calls
  imports Storage_List
begin

text \<open>
  The lemmas on calls: which parts of a call hand nothing to the write worker, and the shape of
  the calls that write (transaction, commit, and one request to the write worker after it).
\<close>

subsection \<open>Calls that hand nothing over\<close>

named_theorems quiet

definition keeps_sent :: "('y, 'w, 'a) call \<Rightarrow> bool" where
  "keeps_sent m \<longleftrightarrow> (\<forall>w. wd_sent (snd (m w)) = wd_sent w)"

lemma keeps_sent_basic [quiet]:
  "keeps_sent (call_return x)" "keeps_sent (call_fail e)" "keeps_sent (client fail op)" "keeps_sent (lift_error fail r)"
  by (auto simp: keeps_sent_def call_defs split: prod.splits sum.splits)

lemma keeps_sent_then [quiet]:
  assumes "keeps_sent m" and "\<And>x. keeps_sent (f x)"
  shows "keeps_sent (call_then m f)"
proof (unfold keeps_sent_def, intro allI)
  fix w
  obtain r v where m: "m w = (r, v)" by fastforce
  have "wd_sent v = wd_sent w" using assms(1) m unfolding keeps_sent_def by (metis snd_conv)
  then show "wd_sent (snd (call_then m f w)) = wd_sent w"
    using assms(2) m by (cases r) (auto simp: call_then_def keeps_sent_def)
qed

lemma keeps_sent_insert [quiet]: "keeps_sent (insert_or_abort C tx path rows)"
  by (auto simp: keeps_sent_def insert_or_abort_def client_def split: prod.splits sum.splits)

lemma keeps_sent_loop [quiet]: "keeps_sent (create_loop K as_time uuids n reqs)"
  by (induction K as_time uuids n reqs rule: create_loop.induct) (auto simp: Let_def intro!: quiet)

lemma keeps_sent_lookup [quiet]:
  "keeps_sent (lookup_one C path key ts)" "keeps_sent (lookup_key C K i ts)"
  by (auto simp: lookup_one_def lookup_key_def intro!: quiet split: prod.splits)

lemma keeps_sent_rows [quiet]: "keeps_sent (decode_rows K nameTable rs m)"
  by (induction K nameTable rs m rule: decode_rows.induct) (auto simp: fun_upd_def intro!: quiet)

lemma keeps_sent_page [quiet]: "keeps_sent (split_page token n keys)"
  by (auto simp: split_page_def intro!: quiet)

lemma keeps_sent_list: "keeps_sent (ListEvents R S F numCPU C K as_time token st puts flt startTime endTime n)"
  unfolding ListEvents_def by (auto intro!: quiet split: sum.splits option.splits list.splits prod.splits)

subsection \<open>Calls that end with a commit and a request to the write worker\<close>

text \<open>A call that succeeds has handed over exactly one request; and when it has handed over one, a commit
  of the transaction was the last operation on the cluster, and the only error left is the end of
  the context.\<close>

definition writes_after_commit :: "('y, 'g, 'r, 'n) yt_client \<Rightarrow> (u64 \<Rightarrow> 'w list \<Rightarrow> bool) \<Rightarrow> ('y, 'w, 'a) call \<Rightarrow> bool" where
  "writes_after_commit C P m \<longleftrightarrow> (\<forall>w r w'. m w = (r, w') \<longrightarrow>
     (\<exists>e. r = Inl e \<and> wd_sent w' = wd_sent w) \<or>
     (\<exists>batch tx y ts. wd_sent w' = wd_sent w @ [batch] \<and> yt_CommitTabletTx C tx y = (Inr ts, wd_yt w') \<and>
        P ts batch \<and> (\<forall>e. r = Inl e \<longrightarrow> e = ContextDone)))"

lemma writes_then:
  assumes "keeps_sent m" and "\<And>x. writes_after_commit C P (f x)"
  shows "writes_after_commit C P (call_then m f)"
proof (unfold writes_after_commit_def, intro allI impI)
  fix w r w'
  assume r: "call_then m f w = (r, w')"
  obtain q v where m: "m w = (q, v)" by fastforce
  have "wd_sent v = wd_sent w" using assms(1) m unfolding keeps_sent_def by (metis snd_conv)
  show "(\<exists>e. r = Inl e \<and> wd_sent w' = wd_sent w) \<or>
     (\<exists>batch tx y ts. wd_sent w' = wd_sent w @ [batch] \<and> yt_CommitTabletTx C tx y = (Inr ts, wd_yt w') \<and>
        P ts batch \<and> (\<forall>e. r = Inl e \<longrightarrow> e = ContextDone))"
  proof (cases q)
    case (Inl e)
    with r m \<open>wd_sent v = wd_sent w\<close> show ?thesis by (auto simp: call_then_def)
  next
    case (Inr x)
    with r m have "f x v = (r, w')" by (simp add: call_then_def)
    from assms(2) [of x, unfolded writes_after_commit_def, rule_format, OF this] show ?thesis
      unfolding \<open>wd_sent v = wd_sent w\<close> .
  qed
qed

lemma writes_commit:
  "(\<And>ts. P ts (b ts)) \<Longrightarrow> writes_after_commit C P (call_then (client CommitFail (yt_CommitTabletTx C tx)) (\<lambda>ts. submit outcome (b ts)))"
  unfolding writes_after_commit_def
  by (auto simp: call_defs split: prod.splits sum.splits write_outcome.splits)

lemma writes_commit_return:
  "(\<And>ts. P ts (b ts)) \<Longrightarrow> writes_after_commit C P (call_then (client CommitFail (yt_CommitTabletTx C tx))
     (\<lambda>ts. call_then (submit outcome (b ts)) (\<lambda>_. call_return x)))"
  unfolding writes_after_commit_def
  by (auto simp: call_defs split: prod.splits sum.splits write_outcome.splits)

lemma create_writes: "writes_after_commit C (\<lambda>ts batch. \<exists>es. batch = map (\<lambda>e. table_write F as_time (e, ts, False)) es)
    (BatchCreateEvents C K F as_time uuids outcome reqs)"
proof -
  have "\<exists>es. map (\<lambda>(e, _). (EventKeyFromProto as_time (Some e) ts False, newMemTableItem F (Some e) ts False)) xs =
      map (\<lambda>e. table_write F as_time (e, ts, False)) es" for ts xs
    by (rule exI [of _ "map fst xs"]) (auto simp: table_write_def)
  then show ?thesis
    unfolding BatchCreateEvents_def by (auto intro!: writes_then writes_commit_return quiet split: prod.splits)
qed

lemma delete_writes: "writes_after_commit C (\<lambda>ts batch. \<exists>key. batch = [tombstone F key ts]) (DeleteEvent C K F outcome i)"
  unfolding DeleteEvent_def by (auto intro!: writes_then writes_commit quiet split: prod.splits)

lemma update_writes_commit: "writes_after_commit C (\<lambda>ts batch. \<exists>event key changed. batch = update_writes F as_time event key changed ts)
    (UpdateEvent C K F as_time outcome new paths)"
  unfolding UpdateEvent_def Let_def by (auto intro!: writes_then writes_commit quiet split: prod.splits) blast+

subsection \<open>Results\<close>

lemma call_then_Inr: "call_then m f w = (Inr y, w') \<Longrightarrow> \<exists>x v. m w = (Inr x, v) \<and> f x v = (Inr y, w')"
  by (auto simp: call_then_def split: prod.splits sum.splits)

lemma call_then_eq:
  "m w = (Inr x, v) \<Longrightarrow> call_then m f w = f x v" "m w = (Inl e, v) \<Longrightarrow> call_then m f w = (Inl e, v)"
  by (simp_all add: call_then_def)

lemma client_eq:
  "op (wd_yt w) = (Inr x, y) \<Longrightarrow> client fail op w = (Inr x, \<lparr>wd_yt = y, wd_sent = wd_sent w\<rparr>)"
  "op (wd_yt w) = (Inl e, y) \<Longrightarrow> client fail op w = (Inl (fail e), \<lparr>wd_yt = y, wd_sent = wd_sent w\<rparr>)"
  by (cases w; simp add: client_def)+

text \<open>The loop of \<open>BatchCreateEvents\<close>: it stops at a request without an event, and otherwise returns the
  events with their new ids.\<close>

definition with_ids :: "(nat \<Rightarrow> string) \<Rightarrow> nat \<Rightarrow> 'ts event list \<Rightarrow> 'ts event list" where
  "with_ids uuids n es = map (\<lambda>(i, e). e\<lparr>ev_Id := uuids i\<rparr>) (enumerate n es)"

lemma with_ids_simps [simp]:
  "with_ids uuids n [] = []"
  "with_ids uuids n (e # es) = e\<lparr>ev_Id := uuids n\<rparr> # with_ids uuids (Suc n) es"
  "length (with_ids uuids n es) = length es"
  by (simp_all add: with_ids_def)

lemma create_loop_events:
  assumes "\<forall>e \<in> set (with_ids uuids n es). cd_marshal K e = Inr (bytes e)"
  shows "create_loop K as_time uuids n (map Some es) w =
    (Inr (map (\<lambda>e. (e, AKey (event_row_key as_time e), ARow (event_row as_time e (bytes e)))) (with_ids uuids n es)), w)"
  using assms
proof (induction es arbitrary: n)
  case (Cons e es)
  then show ?case using Cons.IH [of "Suc n"] by (simp add: call_defs Let_def)
qed (simp add: call_defs)

lemma create_loop_nil:
  assumes "None \<in> set reqs" and "\<And>e. \<exists>b. cd_marshal K e = Inr b"
  shows "create_loop K as_time uuids n reqs w = (Inl NilPanic, w)"
  using assms(1)
proof (induction reqs arbitrary: n)
  case (Cons r reqs)
  show ?case
  proof (cases r)
    case (Some e)
    obtain b where "cd_marshal K (e\<lparr>ev_Id := uuids n\<rparr>) = Inr b" using assms(2) by blast
    with Some Cons show ?thesis by (simp add: call_defs Let_def)
  qed (simp add: call_defs)
qed simp

lemma create_loop_Inr:
  "create_loop K as_time uuids n reqs w = (Inr xs, w') \<Longrightarrow>
    reqs = map Some (map the reqs) \<and> map fst xs = with_ids uuids n (map the reqs)"
proof (induction K as_time uuids n reqs arbitrary: w w' xs rule: create_loop.induct)
  case (3 K as_time uuids n e reqs)
  let ?e = "e\<lparr>ev_Id := uuids n\<rparr>"
  from 3(2) obtain b rest v where
    "create_loop K as_time uuids (Suc n) reqs w = (Inr rest, v)" and
    "xs = (?e, AKey (event_row_key as_time ?e), ARow (event_row as_time ?e b)) # rest"
    by (auto simp: Let_def call_defs split: sum.splits prod.splits)
  with 3(1) [OF refl] show ?case by force
qed (auto simp: call_defs)

text \<open>A creation that succeeds returns the events of the requests with new ids, and has handed over their
  live items with the timestamp of its commit.\<close>

lemma create_returns:
  assumes "BatchCreateEvents C K F as_time uuids outcome reqs w = (Inr events, w')"
  shows "reqs = map Some (map the reqs)" and "events = with_ids uuids 0 (map the reqs)"
    and "\<exists>ts. wd_sent w' = wd_sent w @ [map (\<lambda>e. table_write F as_time (e, ts, False)) events]"
proof -
  let ?batch = "\<lambda>ts xs. map (\<lambda>(event, _). (EventKeyFromProto as_time (Some event) ts False, newMemTableItem F (Some event) ts False)) xs"
  have batch: "?batch ts xs = map (\<lambda>e. table_write F as_time (e, ts, False)) (map fst xs)" for ts xs
    by (auto simp: table_write_def)
  let ?rest = "\<lambda>xs. call_then (client StartTxFail (yt_StartTabletTx C)) (\<lambda>(tx, _).
       call_then (insert_or_abort C tx eventsIdUniqIndexTable (map (fst \<circ> snd) xs)) (\<lambda>_.
       call_then (insert_or_abort C tx eventsTable (map (snd \<circ> snd) xs)) (\<lambda>_.
       call_then (client CommitFail (yt_CommitTabletTx C tx)) (\<lambda>ts.
       call_then (submit outcome (?batch ts xs)) (\<lambda>_. call_return (map fst xs))))))"
  from assms [unfolded BatchCreateEvents_def, THEN call_then_Inr] obtain xs v where
    loop: "create_loop K as_time uuids 0 reqs w = (Inr xs, v)" and rest: "?rest xs v = (Inr events, w')" by blast
  have v: "wd_sent v = wd_sent w" using keeps_sent_loop loop unfolding keeps_sent_def by (metis snd_conv)
  have "\<exists>tx u. call_then (insert_or_abort C tx eventsIdUniqIndexTable (map (fst \<circ> snd) xs)) (\<lambda>_.
       call_then (insert_or_abort C tx eventsTable (map (snd \<circ> snd) xs)) (\<lambda>_.
       call_then (client CommitFail (yt_CommitTabletTx C tx)) (\<lambda>ts.
       call_then (submit outcome (?batch ts xs)) (\<lambda>_. call_return (map fst xs))))) u = (Inr events, w')"
    using call_then_Inr [OF rest] by auto
  then have events: "events = map fst xs" by (auto dest!: call_then_Inr simp: call_return_def)
  with create_loop_Inr [OF loop] show "reqs = map Some (map the reqs)" "events = with_ids uuids 0 (map the reqs)" by simp_all
  have "writes_after_commit C (\<lambda>ts batch. batch = ?batch ts xs) (?rest xs)"
    by (auto intro!: writes_then writes_commit_return quiet split: prod.splits)
  from this [unfolded writes_after_commit_def, rule_format, OF rest] v
  show "\<exists>ts. wd_sent w' = wd_sent w @ [map (\<lambda>e. table_write F as_time (e, ts, False)) events]"
    unfolding batch events by auto
qed

subsection \<open>A sample\<close>

text \<open>A cluster that accepts everything and counts its timestamps.\<close>

definition sample_client :: "(u64, unit, any_row, unit) yt_client" where
  "sample_client = \<lparr>yt_GenerateTimestamp = (\<lambda>y. (Inr y, y + 1)), yt_StartTabletTx = (\<lambda>y. (Inr ((), y), y + 1)),
     yt_CommitTabletTx = (\<lambda>_ y. (Inr y, y + 1)), yt_AbortTabletTx = (\<lambda>_ y. (Inr (), y)),
     yt_InsertRows = (\<lambda>_ _ _ y. (Inr (), y)), yt_DeleteRows = (\<lambda>_ _ _ y. (Inr (), y)),
     yt_LookupRows = (\<lambda>_ rows _ y. (Inr (rows, ()), y))\<rparr>"

definition sample_codec :: "(go_time, any_row, unit) codec" where
  "sample_codec = \<lparr>cd_marshal = (\<lambda>_. Inr []), cd_unmarshal = (\<lambda>_. Inl ''proto''),
     cd_key = (\<lambda>_ r. case r of AKey k \<Rightarrow> Inr k | _ \<Rightarrow> Inl ''row''),
     cd_row = (\<lambda>_ r. case r of ARow r \<Rightarrow> Inr r | _ \<Rightarrow> Inl ''row'')\<rparr>"

end
