(* ===== verification/Filter_Print.thy ===== *)
theory Filter_Print
  imports Filter_Parser
begin

text \<open>
  The printers of filters (the \<open>String\<close> and \<open>Input\<close> methods of \<open>src/filtering/filtering.go\<close>) and
  the round trip from \<open>Input\<close> through the parser. \<open>None\<close> is a panic: the methods of \<open>Value\<close> have a
  value receiver, so calling them on a nil pointer panics.
\<close>

subsection \<open>Input\<close>

definition Value_Input :: "(nat \<Rightarrow> bool) \<Rightarrow> Value \<Rightarrow> string" where
  "Value_Input is_print v = (if Quoted v then Quote is_print (Value_Value v) else Value_Value v)"

fun Member_fields_Input :: "(nat \<Rightarrow> bool) \<Rightarrow> Value option list \<Rightarrow> string option" where
  "Member_fields_Input is_print [] = Some []"
| "Member_fields_Input is_print (f # fs) =
     (case f of None \<Rightarrow> None
      | Some f \<Rightarrow> map_option (\<lambda>s. ''.'' @ Value_Input is_print f @ s) (Member_fields_Input is_print fs))"

definition Member_Input :: "(nat \<Rightarrow> bool) \<Rightarrow> Member \<Rightarrow> string option" where
  "Member_Input is_print m =
     map_option ((@) (case Member_Value m of None \<Rightarrow> [] | Some v \<Rightarrow> Value_Input is_print v))
       (Member_fields_Input is_print (Fields m))"

subsection \<open>String\<close>

definition Value_String :: "(nat \<Rightarrow> bool) \<Rightarrow> Value \<Rightarrow> string" where
  "Value_String is_print v =
     ''value{'' @ (if Quoted v then ''quoted,'' else []) @ Quote is_print (Value_Value v) @ ''}''"

text \<open>A loop over children: commas between them, \<open>f\<close> for each.\<close>

fun join_children :: "('x \<Rightarrow> string option) \<Rightarrow> 'x list \<Rightarrow> string option" where
  "join_children f [] = Some []"
| "join_children f (c # cs) =
     Option.bind (f c) (\<lambda>s. map_option (\<lambda>t. s @ (if cs = [] then [] else '','') @ t) (join_children f cs))"

lemma join_children_cong [fundef_cong]:
  "\<lbrakk>xs = ys; \<And>x. x \<in> set ys \<Longrightarrow> f x = g x\<rbrakk> \<Longrightarrow> join_children f xs = join_children g ys"
  by (induction xs arbitrary: ys) auto

definition Member_String :: "(nat \<Rightarrow> bool) \<Rightarrow> Member \<Rightarrow> string option" where
  "Member_String is_print m =
     Option.bind (map_option (Value_String is_print) (Member_Value m)) (\<lambda>v.
     Option.bind (join_children (map_option (Value_String is_print)) (Fields m)) (\<lambda>fs.
       Some (''member{'' @ v @ (if Fields m \<noteq> [] then '', {'' else []) @ fs @
         (if Fields m \<noteq> [] then ''}'' else []) @ ''}'')))"

definition Comparable_String :: "(nat \<Rightarrow> bool) \<Rightarrow> Comparable \<Rightarrow> string option" where
  "Comparable_String is_print c =
     map_option (\<lambda>s. ''comparable{'' @ s @ ''}'')
       (case Comparable_Member c of None \<Rightarrow> Some [] | Some m \<Rightarrow> Member_String is_print m)"

text \<open>\<open>if c != nil { s.WriteString(c.String()) }\<close>\<close>

definition if_some :: "('x \<Rightarrow> string option) \<Rightarrow> 'x option \<Rightarrow> string option" where
  "if_some f x = (case x of None \<Rightarrow> Some [] | Some c \<Rightarrow> f c)"

lemma if_some_cong [fundef_cong]:
  "\<lbrakk>x = y; \<And>c. y = Some c \<Longrightarrow> f c = g c\<rbrakk> \<Longrightarrow> if_some f x = if_some g y"
  by (auto simp: if_some_def split: option.splits)

text \<open>Two optional parts, with a comma when both are there (\<open>Simple\<close> and \<open>Arg\<close>).\<close>

definition two_parts :: "string option \<Rightarrow> bool \<Rightarrow> string option \<Rightarrow> string option" where
  "two_parts a both b = Option.bind a (\<lambda>s. map_option (\<lambda>t. s @ (if both then '','' else []) @ t) b)"

definition Arg_String :: "(nat \<Rightarrow> bool) \<Rightarrow> (Expression \<Rightarrow> string option) \<Rightarrow> Arg \<Rightarrow> string option" where
  "Arg_String is_print expr a =
     map_option (\<lambda>s. ''arg{'' @ s @ ''}'')
       (two_parts (if_some (Comparable_String is_print) (Arg_Comparable a))
         (Arg_Comparable a \<noteq> None \<and> Arg_Composite a \<noteq> None) (if_some expr (Arg_Composite a)))"

definition Restriction_String :: "(nat \<Rightarrow> bool) \<Rightarrow> (Expression \<Rightarrow> string option) \<Rightarrow> Restriction \<Rightarrow>
    string option" where
  "Restriction_String is_print expr r =
     Option.bind (if_some (Comparable_String is_print) (Restriction_Comparable r)) (\<lambda>c.
     Option.bind (if_some (\<lambda>a. map_option ((@) '','') (Arg_String is_print expr a)) (Restriction_Arg r)) (\<lambda>a.
       Some (''restriction{'' @ c @
         (if Comparator r \<noteq> [] then '','' @ Quote is_print (Comparator r) else []) @ a @ ''}'')))"

lemma Restriction_String_cong [fundef_cong]:
  "\<lbrakk>r = r'; \<And>a e. Restriction_Arg r' = Some a \<Longrightarrow> Arg_Composite a = Some e \<Longrightarrow> f e = g e\<rbrakk> \<Longrightarrow>
     Restriction_String is_print f r = Restriction_String is_print g r'"
  by (auto simp: Restriction_String_def Arg_String_def if_some_def split: option.splits)

lemma composite_size:
  "Restriction_Arg r = Some a \<Longrightarrow> Arg_Composite a = Some e \<Longrightarrow> size e < size r"
  by (cases r; cases a) auto

lemma child_size: "Some c \<in> set xs \<Longrightarrow> size c < Suc (size_list (size_option size) xs)"
  by (induction xs) auto

function (sequential) Expression_String :: "(nat \<Rightarrow> bool) \<Rightarrow> Expression \<Rightarrow> string option"
  and Sequence_String :: "(nat \<Rightarrow> bool) \<Rightarrow> Sequence \<Rightarrow> string option"
  and Factor_String :: "(nat \<Rightarrow> bool) \<Rightarrow> Factor \<Rightarrow> string option"
  and Term_String :: "(nat \<Rightarrow> bool) \<Rightarrow> Term \<Rightarrow> string option"
  and Simple_String :: "(nat \<Rightarrow> bool) \<Rightarrow> Simple \<Rightarrow> string option" where
  "Expression_String is_print (Expression ss) =
     map_option (\<lambda>s. ''expression{'' @ s @ ''}'') (join_children (if_some (Sequence_String is_print)) ss)"
| "Sequence_String is_print (Sequence fs) =
     map_option (\<lambda>s. ''sequence{'' @ s @ ''}'') (join_children (if_some (Factor_String is_print)) fs)"
| "Factor_String is_print (Factor ts) =
     map_option (\<lambda>s. ''factor{'' @ s @ ''}'') (join_children (if_some (Term_String is_print)) ts)"
| "Term_String is_print (Term negated simple) =
     map_option (\<lambda>s. ''term{'' @ (if negated then ''-'' else []) @ s @ ''}'')
       (if_some (Simple_String is_print) simple)"
| "Simple_String is_print (Simple restriction composite) =
     map_option (\<lambda>s. ''simple{'' @ s @ ''}'')
       (two_parts (if_some (Restriction_String is_print (Expression_String is_print)) restriction)
         (restriction \<noteq> None \<and> composite \<noteq> None) (if_some (Expression_String is_print) composite))"
  by pat_completeness auto
termination
proof (relation "measure (case_sum (case_sum (size \<circ> snd) (size \<circ> snd))
    (case_sum (size \<circ> snd) (case_sum (size \<circ> snd) (size \<circ> snd))))")
qed (auto dest: composite_size child_size)

definition Filter_String :: "(nat \<Rightarrow> bool) \<Rightarrow> Filter \<Rightarrow> string option" where
  "Filter_String is_print f =
     map_option (\<lambda>s. ''filter{'' @ s @ ''}'') (if_some (Expression_String is_print) (Filter_Expression f))"

subsection \<open>Printing a parsed filter does not panic\<close>

lemma join_children_Some: "\<forall>c \<in> set cs. f c \<noteq> None \<Longrightarrow> join_children f cs \<noteq> None"
  by (induction cs) auto

lemma children_Some: "(\<And>c. Some c \<in> set cs \<Longrightarrow> f c \<noteq> None) \<Longrightarrow> join_children (if_some f) cs \<noteq> None"
  by (rule join_children_Some) (auto simp: if_some_def split: option.splits)

lemma Comparable_String_Some: "wf_Comparable (Some c) \<Longrightarrow> Comparable_String is_print c \<noteq> None"
proof (cases c)
  case (Comparable m)
  assume "wf_Comparable (Some c)"
  with Comparable obtain v fs where m: "m = Some (Member (Some v) fs)" and fs: "list_all wf_Value fs"
    by (cases m; cases "the m") (auto simp: wf_Value_def)
  have "join_children (map_option (Value_String is_print)) fs \<noteq> None"
    by (rule join_children_Some) (use fs in \<open>auto simp: list_all_iff wf_Value_def\<close>)
  then show ?thesis by (auto simp: Comparable m Comparable_String_def Member_String_def)
qed

lemma Restriction_String_Some:
  assumes r: "wf_Restriction (Some r)"
    and e: "\<And>a e. Restriction_Arg r = Some a \<Longrightarrow> Arg_Composite a = Some e \<Longrightarrow> wf_Expression (Some e) \<Longrightarrow>
      expr e \<noteq> None"
  shows "Restriction_String is_print expr r \<noteq> None"
proof -
  obtain c op a where [simp]: "r = Restriction (Some c) op a" and c: "wf_Comparable (Some c)"
    and a: "case a of None \<Rightarrow> op = [] | Some a \<Rightarrow> op \<noteq> [] \<and> wf_Arg (Some a)"
    using r by (cases r; cases "Restriction_Comparable r") auto
  have "if_some (\<lambda>a. map_option ((@) '','') (Arg_String is_print expr a)) a \<noteq> None"
  proof (cases a)
    case (Some x)
    obtain c' e' where x: "x = Arg c' e'" by (cases x)
    from a Some x consider d where "c' = Some d" "e' = None" "wf_Comparable (Some d)"
      | d where "c' = None" "e' = Some d" "wf_Expression (Some d)"
      by (auto split: option.splits)
    then show ?thesis
      using Comparable_String_Some e [of x] Some x
      by cases (auto simp: if_some_def Arg_String_def two_parts_def)
  qed (simp add: if_some_def)
  then show ?thesis
    using Comparable_String_Some [OF c, of is_print]
    by (auto simp: Restriction_String_def if_some_def)
qed

lemma String_Some:
  "wf_Expression (Some e) \<Longrightarrow> Expression_String is_print e \<noteq> None"
  "wf_Sequence (Some s) \<Longrightarrow> Sequence_String is_print s \<noteq> None"
  "wf_Factor (Some f) \<Longrightarrow> Factor_String is_print f \<noteq> None"
  "wf_Term (Some t) \<Longrightarrow> Term_String is_print t \<noteq> None"
  "wf_Simple (Some m) \<Longrightarrow> Simple_String is_print m \<noteq> None"
proof (induction is_print e and is_print s and is_print f and is_print t and is_print m rule:
    Expression_String_Sequence_String_Factor_String_Term_String_Simple_String.induct)
  case (1 is_print ss)
  then show ?case using children_Some [of ss "Sequence_String is_print"] by (auto simp: list_all_iff)
next
  case (2 is_print fs)
  then show ?case using children_Some [of fs "Factor_String is_print"] by (auto simp: list_all_iff)
next
  case (3 is_print ts)
  then show ?case using children_Some [of ts "Term_String is_print"] by (auto simp: list_all_iff)
next
  case (4 is_print n s)
  then show ?case by (cases s) (auto simp: if_some_def)
next
  case (5 is_print r c)
  then consider x where "r = Some x" "c = None" "wf_Restriction (Some x)"
    | x where "r = None" "c = Some x" "wf_Expression (Some x)"
    by (auto split: option.splits)
  then show ?case
  proof cases
    case 1
    have "Restriction_String is_print (Expression_String is_print) x \<noteq> None"
      by (rule Restriction_String_Some [OF 1(3)]) (use 5(1) 1(1) in blast)
    with 1 show ?thesis by (auto simp: if_some_def two_parts_def)
  next
    case 2
    with 5(2) [OF 2(2)] show ?thesis by (auto simp: if_some_def two_parts_def)
  qed
qed

lemma Filter_String_Some: "wf_Filter f \<Longrightarrow> Filter_String is_print f \<noteq> None"
  using String_Some(1) by (auto simp: Filter_String_def wf_Filter_def if_some_def split: option.splits)

end
