(* ===== verification/Filter_Roundtrip.thy ===== *)
theory Filter_Roundtrip
  imports Filter_Print
begin

text \<open>
  What \<open>Input\<close> prints is what the parser reads: a restriction printed as its member, comparator and
  argument is parsed to the tree of exactly that restriction. Quoted values may be any byte
  strings; an unquoted value has to be one text token of the lexer.
\<close>

subsection \<open>Single tokens\<close>

text \<open>The state before reading \<open>s\<close>, and the state after peeking at a token.\<close>

definition fresh :: "string \<Rightarrow> filterLexer" where
  "fresh s = \<lparr>lx_input = s, lx_next = None\<rparr>"

definition peeked :: "token \<Rightarrow> string \<Rightarrow> filterLexer" where
  "peeked t s = \<lparr>lx_input = s, lx_next = Some t\<rparr>"

text \<open>\<open>lexes s k v s'\<close>: the next token of \<open>s\<close> is of kind \<open>k\<close> with value \<open>v\<close>, and \<open>s'\<close> follows.\<close>

definition lexes :: "string \<Rightarrow> kind \<Rightarrow> string \<Rightarrow> string \<Rightarrow> bool" where
  "lexes s k v s' \<longleftrightarrow> lexer_Next (fresh s) = Inr (\<lparr>tk_kind = k, tk_value = v\<rparr>, fresh s')"

text \<open>The lexer is before the token of \<open>s\<close>, which may have been peeked at.\<close>

definition at :: "filterLexer \<Rightarrow> string \<Rightarrow> bool" where
  "at l s \<longleftrightarrow> l = fresh s \<or> (\<exists>k v s'. lexes s k v s' \<and> l = peeked \<lparr>tk_kind = k, tk_value = v\<rparr> s')"

lemma at_fresh [simp]: "at (fresh s) s"
  by (simp add: at_def)

lemma at_peeked: "lexes s k v s' \<Longrightarrow> at (peeked \<lparr>tk_kind = k, tk_value = v\<rparr> s') s"
  by (auto simp: at_def)

lemma Peek_at:
  "lexes s k v s' \<Longrightarrow> at l s \<Longrightarrow> lexer_Peek l = Inr (\<lparr>tk_kind = k, tk_value = v\<rparr>, peeked \<lparr>tk_kind = k, tk_value = v\<rparr> s')"
  by (auto simp: at_def lexes_def lexer_Peek_def peeked_def fresh_def)

lemma Next_peeked [simp]: "lexer_Next (peeked t s) = Inr (t, fresh s)"
  by (simp add: lexer_Next_def peeked_def fresh_def)

lemma accept_at:
  "lexes s k v s' \<Longrightarrow> at l s \<Longrightarrow> parser_accept k' l =
     (if k' = k then Inr (Some \<lparr>tk_kind = k, tk_value = v\<rparr>, fresh s')
      else Inr (None, peeked \<lparr>tk_kind = k, tk_value = v\<rparr> s'))"
  by (auto simp: parser_accept_def parse_then_def parse_return_def Peek_at)

lemma expect_at:
  "lexes s k v s' \<Longrightarrow> at l s \<Longrightarrow> parser_expect k l = Inr ((), fresh s')"
  by (simp add: parser_expect_def parse_then_def parse_return_def Peek_at)

subsection \<open>Lexing printed values\<close>

lemma TrimLeft_Cons: "\<not> re_space c \<Longrightarrow> TrimLeft (c # s) = c # s"
  by (simp add: TrimLeft_def re_space_def)

lemma lexes_match:
  "match_here True s = Some (g, v, n) \<Longrightarrow> s \<noteq> [] \<Longrightarrow> \<not> re_space (hd s) \<Longrightarrow>
     lexes s (group_kind g) (group_value g v) (drop (if g = 3 then 1 else n) s)"
proof -
  assume m: "match_here True s = Some (g, v, n)" and s: "s \<noteq> []" "\<not> re_space (hd s)"
  have "find_match True s = Some (g, v, n)" using m by (simp add: find_match.simps [of True s])
  moreover have "TrimLeft s = s" using s by (cases s) (simp_all add: TrimLeft_Cons)
  ultimately show ?thesis using s by (simp add: lexes_def lexer_Next_def fresh_def Let_def)
qed

lemma lexes_end: "lexes [] kindEnd [] []"
  by (simp add: lexes_def lexer_Next_def fresh_def TrimLeft_def)

text \<open>What may follow a value: the end, a dot, or a comparator.\<close>

definition delimited :: "string \<Rightarrow> bool" where
  "delimited s \<longleftrightarrow> s = [] \<or> (\<not> re_text (hd s) \<and> \<not> re_space (hd s))"

definition text_value :: "string \<Rightarrow> bool" where
  "text_value t \<longleftrightarrow> t \<noteq> [] \<and> list_all re_text t \<and> hd t \<notin> {CHR ''-'', CHR 0x22}"

definition printable :: "Value \<Rightarrow> bool" where
  "printable v \<longleftrightarrow> Quoted v \<or> text_value (Value_Value v)"

lemma keyword_delimited:
  assumes "list_all re_text t" and "delimited s" and "list_all re_text w" and "w \<noteq> []"
  shows "\<not> keyword w (t @ s)"
proof
  assume k: "keyword w (t @ s)"
  then have len: "length w < length (t @ s)" and sp: "re_space ((t @ s) ! length w)" and w: "take (length w) (t @ s) = w"
    by (auto simp: keyword_def)
  have no: "\<not> re_space c" if "c \<in> set t" for c using assms(1) that by (auto simp: list_all_iff re_text_def)
  show False
  proof (cases "length w < length t")
    case True
    with no sp show False by (metis nth_append nth_mem)
  next
    case False
    then have "w = t @ take (length w - length t) s" using w by simp
    moreover have "take (length w - length t) s = []"
    proof (rule ccontr)
      assume ne: "take (length w - length t) s \<noteq> []"
      then have "hd s \<in> set (take (length w - length t) s)" by (cases s; cases "length w - length t") auto
      then have "re_text (hd s)" using \<open>w = _\<close> assms(3) by (metis Un_iff list_all_iff set_append)
      moreover have "s \<noteq> []" using ne by auto
      ultimately show False using assms(2) by (simp add: delimited_def)
    qed
    ultimately have "length w = length t" by simp
    then have "s \<noteq> []" "(t @ s) ! length w = hd s" using len by (auto simp: nth_append hd_conv_nth)
    with sp assms(2) show False by (auto simp: delimited_def)
  qed
qed

lemma text_match:
  assumes t: "text_value t" and s: "delimited s"
  shows "match_here b (t @ s) = Some (11, t, length t)"
proof -
  obtain c t' where ct: "t = c # t'" using t by (cases t) (auto simp: text_value_def)
  have c: "re_text c" "c \<noteq> CHR ''-''" "c \<noteq> CHR 0x22" using t by (auto simp: text_value_def ct)
  have all: "list_all re_text t" using t by (simp add: text_value_def)
  have kw: "\<not> keyword ''NOT'' (t @ s)" "\<not> keyword ''AND'' (t @ s)" "\<not> keyword ''OR'' (t @ s)"
    by (rule keyword_delimited [OF all s]; simp add: re_text_def re_space_def)+
  have tw: "takeWhile re_text (t @ s) = t"
    using all s by (cases s) (auto simp: takeWhile_append list_all_iff delimited_def)
  have "take 2 (t @ s) \<notin> {''<='', ''>='', ''!=''}" using c(1) by (auto simp: ct re_text_def)
  then show ?thesis
    using c kw tw unfolding match_here_def ct append_Cons list.case by (auto simp: re_text_def Let_def)
qed

lemma lexes_text:
  assumes t: "text_value t" and s: "delimited s"
  shows "lexes (t @ s) kindText t s"
proof -
  have "t \<noteq> []" "\<not> re_space (hd (t @ s))" using t by (cases t; auto simp: text_value_def re_text_def)+
  then show ?thesis
    using lexes_match [OF text_match [OF assms]] by (simp add: group_kind_def group_value_def)
qed

text \<open>A quoted literal: what \<open>Quote\<close> writes between the quotes has no quote that is not escaped, and no
  escaped newline.\<close>

definition plain :: "char \<Rightarrow> bool" where
  "plain c \<longleftrightarrow> c \<noteq> CHR 0x22 \<and> c \<noteq> CHR 0x5C"

lemma string_end_plain:
  "list_all plain xs \<Longrightarrow> string_end (xs @ t) = map_option ((+) (length xs)) (string_end t)"
proof (induction xs)
  case (Cons x xs)
  then show ?case by (cases "string_end t") (auto simp: plain_def)
qed (cases "string_end t"; simp)

lemma string_end_escape:
  "d \<noteq> CHR 0x0A \<Longrightarrow> list_all plain xs \<Longrightarrow>
     string_end (CHR 0x5C # d # xs @ t) = map_option ((+) (Suc (Suc (length xs)))) (string_end t)"
  by (cases "string_end t") (simp_all add: string_end_plain)

lemma lowerhex_plain: "n < 16 \<Longrightarrow> plain (lowerhex n)"
proof -
  assume "n < 16"
  then have "(of_char (lowerhex n) :: nat) \<notin> {34, 92}" by (auto simp: lowerhex_def)
  then show "plain (lowerhex n)" by (auto simp: plain_def)
qed

lemma hex_plain: "list_all plain (hex n r)"
  by (induction n) (simp_all add: lowerhex_plain)

lemma high_plain: "128 \<le> n \<Longrightarrow> n < 256 \<Longrightarrow> plain (byte n)"
proof -
  assume "128 \<le> n" "n < 256"
  then have "(of_char (byte n) :: nat) \<notin> {34, 92}" by simp
  then show "plain (byte n)" by (auto simp: plain_def simp del: of_char_of)
qed

lemma AppendRune_plain:
  assumes "128 \<le> r" and "ValidRune r"
  shows "list_all plain (AppendRune r)"
proof -
  have r: "r < 1114112" using assms(2) by (auto simp: ValidRune_def)
  have m: "x mod 64 < 64" for x :: nat by simp
  have "r < 2048 \<Longrightarrow> r div 64 < 32" "r < 65536 \<Longrightarrow> r div 4096 < 16" "r div 262144 < 5"
    using r by (simp_all add: div_less_iff_less_mult)
  then show ?thesis
    using assms m [of r] m [of "r div 64"] m [of "r div 4096"]
    by (simp add: AppendRune_def Let_def high_plain)
qed

lemma escape_letter_ok: "escape_letter r = Some c \<Longrightarrow> c \<noteq> CHR 0x0A"
  by (auto simp: escape_letter_def split: if_splits)

lemma escaped_string_end:
  assumes "r < 128 \<or> ValidRune r"
  shows "string_end (appendEscapedRune is_print r @ t) =
    map_option ((+) (length (appendEscapedRune is_print r))) (string_end t)"
proof -
  consider "r = 34" | "r = 92" | "r \<noteq> 34" "r \<noteq> 92" "IsPrint is_print r"
    | c where "r \<noteq> 34" "r \<noteq> 92" "\<not> IsPrint is_print r" "escape_letter r = Some c"
    | "r \<noteq> 34" "r \<noteq> 92" "\<not> IsPrint is_print r" "escape_letter r = None" by (cases "escape_letter r") blast+
  then show ?thesis
  proof cases
    case 3
    have "list_all plain (AppendRune r)"
    proof (cases "r < 128")
      case True
      have "(of_char (byte r) :: nat) \<notin> {34, 92}" using True 3 by simp
      then have "plain (byte r)" by (auto simp: plain_def simp del: of_char_of)
      then show ?thesis using True by (simp add: AppendRune_def ValidRune_def)
    next
      case False
      then show ?thesis using AppendRune_plain assms by simp
    qed
    with 3 show ?thesis by (simp add: appendEscapedRune_def string_end_plain)
  next
    case 4
    with string_end_escape [OF escape_letter_ok [OF 4(4)], of "[]" t] show ?thesis
      by (simp add: appendEscapedRune_def)
  next
    case 5
    have x: "string_end ([CHR 0x5C, d] @ hex n m @ t) =
        map_option ((+) (length ([CHR 0x5C, d] @ hex n m))) (string_end t)" if "d \<noteq> CHR 0x0A" for d n m
      using string_end_escape [OF that hex_plain [of n m], of t] by (simp del: string_end.simps)
    from 5 show ?thesis
      unfolding appendEscapedRune_def Let_def by (simp del: append.simps length_append string_end.simps add: x)
  qed (cases "string_end t"; simp add: appendEscapedRune_def byte_consts)+
qed

lemma piece_string_end:
  assumes "s \<noteq> []"
  shows "string_end (fst (quote_piece is_print s) @ t) =
    map_option ((+) (length (fst (quote_piece is_print s)))) (string_end t)"
proof (cases "of_char (hd s) < (128 :: nat)")
  case True
  then show ?thesis using escaped_string_end [of "of_char (hd s)" is_print t]
    by (simp add: quote_piece_def RuneError_def)
next
  case False
  obtain r w where d: "DecodeRune s = (r, w)" by fastforce
  show ?thesis
  proof (cases "w = 1 \<and> r = RuneError")
    case True
    with False d string_end_escape [OF _ hex_plain, of "CHR ''x''" 2 "of_char (hd s)" t] show ?thesis
      by (simp add: quote_piece_def)
  next
    case valid: False
    then have "ValidRune r" using DecodeRune_valid [OF d valid assms] False by simp
    with False d valid escaped_string_end [of r is_print t] show ?thesis by (auto simp: quote_piece_def)
  qed
qed

lemma quote_string_end:
  "string_end (quote_loop is_print s @ CHR 0x22 # t) = Some (Suc (length (quote_loop is_print s)))"
proof (induction s rule: length_induct)
  case (1 s)
  show ?case
  proof (cases "s = []")
    case False
    let ?w = "snd (quote_piece is_print s)"
    have "string_end (quote_loop is_print (drop ?w s) @ CHR 0x22 # t) =
        Some (Suc (length (quote_loop is_print (drop ?w s))))"
      using 1 quote_piece_width [OF False, of is_print] False by simp
    then show ?thesis
      unfolding quote_loop_piece [OF False] append_assoc piece_string_end [OF False] by simp
  qed (simp add: quote_loop.simps)
qed

lemma lexes_quoted: "lexes (Quote is_print v @ s) kindString (Quote is_print v) s"
proof -
  let ?q = "quote_loop is_print v"
  have e: "Quote is_print v @ s = CHR 0x22 # ?q @ CHR 0x22 # s" by (simp add: Quote_def)
  have "match_here True (Quote is_print v @ s) = Some (10, Quote is_print v, length (Quote is_print v))"
    unfolding e by (simp add: match_here_def keyword_def quote_string_end Quote_def)
  from lexes_match [OF this] show ?thesis
    by (simp add: Quote_def re_space_def group_kind_def group_value_def)
qed

lemma lexes_dot: "lexes (''.'' @ s) kindDot ''.'' s"
  using lexes_match [of "''.'' @ s" 6 "''.''" 1]
  by (simp add: group_kind_def group_value_def re_space_def match_here_def keyword_def)

definition comparators :: "string set" where
  "comparators = {''<='', ''>='', ''!='', ''<'', ''>'', ''='', '':''}"

lemma lexes_comparator:
  assumes "op \<in> comparators" and "s \<noteq> []" and "hd s \<noteq> CHR ''=''"
  shows "lexes (op @ s) kindComparator op s"
proof -
  have "match_here True (op @ s) = Some (1, op, length op)"
    using assms by (cases s) (auto simp: comparators_def match_here_def)
  moreover have "op \<noteq> []" "\<not> re_space (hd op)" using assms(1) by (auto simp: comparators_def re_space_def)
  ultimately show ?thesis
    using lexes_match [of "op @ s" 1 op "length op"] by (simp add: group_kind_def group_value_def)
qed

subsection \<open>Parsing printed text\<close>

text \<open>\<open>reads p s x s'\<close>: from before \<open>s\<close> the parser returns \<open>x\<close> and is then before \<open>s'\<close>.\<close>

definition reads :: "'a parser \<Rightarrow> string \<Rightarrow> 'a \<Rightarrow> string \<Rightarrow> bool" where
  "reads p s x s' \<longleftrightarrow> (\<forall>l. at l s \<longrightarrow> (\<exists>l'. p l = Inr (x, l') \<and> at l' s'))"

lemma reads_return [simp]: "reads (parse_return x) s x s"
  by (auto simp: reads_def parse_return_def)

lemma reads_then: "reads p s x s' \<Longrightarrow> reads (f x) s' y s'' \<Longrightarrow> reads (parse_then p f) s y s''"
  unfolding reads_def parse_then_def by fastforce

lemma reads_accept: "lexes s k v s' \<Longrightarrow> reads (parser_accept k) s (Some \<lparr>tk_kind = k, tk_value = v\<rparr>) s'"
  by (auto simp: reads_def accept_at)

lemma reads_not_accept: "lexes s k v s' \<Longrightarrow> k' \<noteq> k \<Longrightarrow> reads (parser_accept k') s None s"
  by (auto simp: reads_def accept_at at_peeked)

lemma reads_expect: "lexes s k v s' \<Longrightarrow> reads (parser_expect k) s () s'"
  by (auto simp: reads_def expect_at)

lemma at_size: "at l s \<Longrightarrow> lexes s k v s' \<Longrightarrow> k \<noteq> kindEnd \<Longrightarrow> Suc (length s') \<le> lexer_size l \<or> lexer_size l = length s"
  by (auto simp: at_def fresh_def peeked_def lexer_size_def lexes_def)

lemma reads_size:
  assumes "\<And>n. m \<le> n \<Longrightarrow> reads (F (Suc n)) s x s'" and "\<And>l. at l s \<Longrightarrow> m \<le> lexer_size l"
  shows "reads (\<lambda>l. F (Suc (lexer_size l)) l) s x s'"
  using assms unfolding reads_def by blast

text \<open>At the end of the input, every method returns nil.\<close>

lemmas not_at_end = reads_not_accept [OF lexes_end]

lemma reads_end_comparable: "reads parser_comparable [] None []"
proof -
  have "reads (parse_then (parser_accept kindText) (\<lambda>v. case v of None \<Rightarrow> parse_return None
      | Some v \<Rightarrow> parse_return (Some (Value False (tk_value v))))) [] None []"
    by (rule reads_then [OF not_at_end]) simp_all
  then have "reads parser_value [] None []"
    unfolding parser_value_def by (intro reads_then [OF not_at_end]) simp_all
  then have "reads parser_member [] None []"
    unfolding parser_member_def by (rule reads_then) simp
  then show ?thesis
    unfolding parser_comparable_def by (rule reads_then) simp
qed

lemma reads_end_composite: "reads (parser_composite expr) [] None []"
  unfolding parser_composite_def by (rule reads_then [OF not_at_end]) simp_all

lemma reads_end_factor: "reads (parser_factor expr) [] None []"
proof -
  have c: "reads (parse_then (parser_composite expr) (\<lambda>c. case c of
      Some c \<Rightarrow> parse_return (Some (Simple None (Some c))) | None \<Rightarrow> parse_return None)) [] None []"
    by (rule reads_then [OF reads_end_composite]) simp
  have "reads (parser_restriction expr) [] None []"
    unfolding parser_restriction_def by (rule reads_then [OF reads_end_comparable]) simp
  then have s: "reads (parser_simple expr) [] None []"
    unfolding parser_simple_def by (rule reads_then) (simp add: c)
  have "reads (parse_then (parser_simple expr) (case_option (parse_return None)
      (\<lambda>s. parse_return (Some (Term False (Some s)))))) [] None []"
    by (rule reads_then [OF s]) simp
  then have "reads (parser_term expr) [] None []"
    unfolding parser_term_def by (intro reads_then [OF not_at_end [of kindNegate]]) simp_all
  then show ?thesis
    unfolding parser_factor_def by (rule reads_then) simp
qed

subsection \<open>Members\<close>

lemma reads_value:
  assumes p: "printable v" and d: "delimited s"
  shows "reads parser_value (Value_Input is_print v @ s) (Some v) s"
proof (cases "Quoted v")
  case True
  then have v: "v = Value True (Value_Value v)" by (cases v) simp
  from True have "Value_Input is_print v = Quote is_print (Value_Value v)" by (simp add: Value_Input_def)
  with reads_accept [OF lexes_quoted, of is_print "Value_Value v" s] v show ?thesis
    unfolding parser_value_def by (intro reads_then) (auto simp: Unquote_Quote)
next
  case False
  then have v: "v = Value False (Value_Value v)" by (cases v) simp
  from False have e: "Value_Input is_print v = Value_Value v" by (simp add: Value_Input_def)
  have "text_value (Value_Value v)" using False p by (simp add: printable_def)
  note lex = lexes_text [OF this d]
  have "reads (parse_then (parser_accept kindText) (\<lambda>v. case v of None \<Rightarrow> parse_return None
      | Some v \<Rightarrow> parse_return (Some (Value False (tk_value v))))) (Value_Value v @ s) (Some v) s"
    by (rule reads_then [OF reads_accept [OF lex]]) (use v in \<open>simp add: reads_def parse_return_def\<close>)
  then show ?thesis
    unfolding parser_value_def e by (intro reads_then [OF reads_not_accept [OF lex]]) simp_all
qed

definition printable_member :: "Member \<Rightarrow> bool" where
  "printable_member m \<longleftrightarrow> (\<exists>v. Member_Value m = Some v \<and> printable v) \<and>
     (\<forall>f \<in> set (Fields m). \<exists>v. f = Some v \<and> printable v)"

lemma delimited_fields: "Member_fields_Input is_print fs = Some u \<Longrightarrow> delimited s \<Longrightarrow> delimited (u @ s)"
  by (cases fs) (auto simp: delimited_def re_text_def re_space_def split: option.splits)

lemma reads_fields:
  assumes s: "delimited s" "lexes s k w s'" "k \<noteq> kindDot"
  shows "Member_fields_Input is_print fs = Some u \<Longrightarrow> \<forall>f \<in> set fs. \<exists>v. f = Some v \<and> printable v \<Longrightarrow>
    length fs \<le> n \<Longrightarrow>
    reads (sep_loop (Suc n) kindDot ExpectedValueAfterDot parser_value xs) (u @ s) (xs @ fs) s"
proof (induction fs arbitrary: u xs n)
  case Nil
  have "reads (parse_then (parser_accept kindDot) (\<lambda>t. case t of None \<Rightarrow> parse_return xs
      | Some _ \<Rightarrow> parse_then parser_value (\<lambda>x. case x of None \<Rightarrow> parse_fail ExpectedValueAfterDot
        | Some x \<Rightarrow> sep_loop n kindDot ExpectedValueAfterDot parser_value (xs @ [Some x])))) s xs s"
    by (rule reads_then [OF reads_not_accept [OF s(2)]]) (use s(3) in simp_all)
  with Nil show ?case by simp
next
  case (Cons f fs)
  then obtain v u' where f: "f = Some v" "printable v" and u': "Member_fields_Input is_print fs = Some u'"
    and u: "u = ''.'' @ Value_Input is_print v @ u'" by auto
  obtain m where n: "n = Suc m" "length fs \<le> m" using Cons.prems(3) by (cases n) auto
  have "reads (sep_loop (Suc m) kindDot ExpectedValueAfterDot parser_value (xs @ [Some v])) (u' @ s)
      ((xs @ [Some v]) @ fs) s"
    by (rule Cons.IH [OF u' _ n(2)]) (use Cons.prems(2) in simp)
  then have "reads (parse_then parser_value (\<lambda>x. case x of None \<Rightarrow> parse_fail ExpectedValueAfterDot
      | Some x \<Rightarrow> sep_loop n kindDot ExpectedValueAfterDot parser_value (xs @ [Some x])))
      (Value_Input is_print v @ u' @ s) (xs @ f # fs) s"
    by (intro reads_then [OF reads_value [OF f(2) delimited_fields [OF u' s(1)]]])
      (simp add: n f del: sep_loop.simps)
  then have "reads (parse_then (parser_accept kindDot) (\<lambda>t. case t of None \<Rightarrow> parse_return xs
      | Some _ \<Rightarrow> parse_then parser_value (\<lambda>x. case x of None \<Rightarrow> parse_fail ExpectedValueAfterDot
        | Some x \<Rightarrow> sep_loop n kindDot ExpectedValueAfterDot parser_value (xs @ [Some x]))))
      (''.'' @ Value_Input is_print v @ u' @ s) (xs @ f # fs) s"
    by (intro reads_then [OF reads_accept [OF lexes_dot]]) simp
  then show ?case by (simp add: u)
qed

lemma length_fields: "Member_fields_Input is_print fs = Some u \<Longrightarrow> length fs \<le> length u"
  by (induction fs arbitrary: u) (auto split: option.splits)

lemma reads_comparable:
  assumes m: "printable_member m" "Member_Input is_print m = Some i"
    and s: "delimited s" "lexes s k w s'" "k \<noteq> kindDot"
  shows "reads parser_comparable (i @ s) (Some (Comparable (Some m))) s"
proof -
  obtain v fs where mv: "m = Member (Some v) fs" and v: "printable v"
    and fs: "\<forall>f \<in> set fs. \<exists>v. f = Some v \<and> printable v"
    using m(1) by (cases m) (auto simp: printable_member_def)
  obtain u where u: "Member_fields_Input is_print fs = Some u" and i: "i = Value_Input is_print v @ u"
    using m(2) by (auto simp: mv Member_Input_def)
  have "reads (sep_parts kindDot ExpectedValueAfterDot parser_value []) (u @ s) fs s"
    unfolding sep_parts_def
  proof (rule reads_size [where F = "\<lambda>n. sep_loop n kindDot ExpectedValueAfterDot parser_value []" and m = "length fs"])
    show "reads (sep_loop (Suc n) kindDot ExpectedValueAfterDot parser_value []) (u @ s) fs s"
      if "length fs \<le> n" for n
      using reads_fields [OF s u fs that, of "[]"] by simp
    fix l assume l: "at l (u @ s)"
    show "length fs \<le> lexer_size l"
    proof (cases fs)
      case (Cons f fs')
      then obtain x where x: "u = ''.'' @ x" using u by (auto split: option.splits)
      have "lexes (u @ s) kindDot ''.'' (x @ s)" using lexes_dot [of "x @ s"] by (simp add: x)
      from at_size [OF l this] length_fields [OF u] show ?thesis by (auto simp: x)
    qed simp
  qed
  then have "reads (parse_then (sep_parts kindDot ExpectedValueAfterDot parser_value []) (\<lambda>fs.
      parse_return (Some (Member (Some v) fs)))) (u @ s) (Some m) s"
    by (rule reads_then) (simp add: mv)
  then have "reads parser_member (Value_Input is_print v @ u @ s) (Some m) s"
    unfolding parser_member_def
    by (intro reads_then [OF reads_value [OF v delimited_fields [OF u s(1)]]]) simp
  then show ?thesis
    unfolding parser_comparable_def i append_assoc by (rule reads_then) simp
qed

subsection \<open>Restrictions\<close>

lemma printable_hd:
  assumes "printable v"
  shows "\<exists>c t. Value_Input is_print v = c # t \<and> c \<noteq> CHR ''='' \<and> \<not> re_space c"
proof (cases "Quoted v")
  case False
  with assms have t: "text_value (Value_Value v)" by (simp add: printable_def)
  then obtain c t where ct: "Value_Value v = c # t" by (cases "Value_Value v") (auto simp: text_value_def)
  with t have "re_text c" by (simp add: text_value_def)
  then have "c \<noteq> CHR ''=''" "\<not> re_space c" by (auto simp: re_text_def)
  with False ct show ?thesis by (simp add: Value_Input_def)
qed (simp add: Value_Input_def Quote_def re_space_def)

text \<open>The printed member begins with a token that is neither a negation, a parenthesis nor the end.\<close>

lemma lexes_member:
  assumes "printable_member m" "Member_Input is_print m = Some i" "delimited s"
  shows "\<exists>k w s'. lexes (i @ s) k w s' \<and> (k = kindString \<or> k = kindText)"
proof -
  obtain v fs u where v: "printable v" and u: "Member_fields_Input is_print fs = Some u"
    and i: "i = Value_Input is_print v @ u"
    using assms(1,2) by (cases m) (auto simp: printable_member_def Member_Input_def)
  have d: "delimited (u @ s)" by (rule delimited_fields [OF u assms(3)])
  show ?thesis
  proof (cases "Quoted v")
    case True
    then have "i = Quote is_print (Value_Value v) @ u" by (simp add: i Value_Input_def)
    then show ?thesis using lexes_quoted [of is_print "Value_Value v" "u @ s"] by auto
  next
    case False
    then have "i = Value_Value v @ u" "text_value (Value_Value v)"
      using v by (simp_all add: i Value_Input_def printable_def)
    then show ?thesis using lexes_text [OF _ d] by auto
  qed
qed

lemma member_hd:
  assumes "printable_member m" "Member_Input is_print m = Some i"
  shows "i \<noteq> []" "hd i \<noteq> CHR ''=''"
proof -
  obtain v u where v: "printable v" and i: "i = Value_Input is_print v @ u"
    using assms by (cases m) (auto simp: printable_member_def Member_Input_def)
  show "i \<noteq> []" "hd i \<noteq> CHR ''=''" using printable_hd [OF v, of is_print] by (auto simp: i)
qed

lemma delimited_comparator: "op \<in> comparators \<Longrightarrow> delimited (op @ s)"
  by (auto simp: comparators_def delimited_def re_text_def re_space_def)

lemma reads_restriction:
  assumes m: "printable_member m" "Member_Input is_print m = Some i"
    and a: "printable_member a" "Member_Input is_print a = Some j"
    and op: "op \<in> comparators"
  shows "reads (parser_restriction expr) (i @ op @ j)
    (Some (Restriction (Some (Comparable (Some m))) op (Some (Arg (Some (Comparable (Some a))) None)))) []"
    (is "reads _ _ (Some ?r) []")
proof -
  have lex: "lexes (op @ j) kindComparator op j" by (rule lexes_comparator [OF op member_hd [OF a]])
  have "reads parser_comparable j (Some (Comparable (Some a))) []"
    using reads_comparable [OF a _ lexes_end] by (simp add: delimited_def)
  then have "reads (parser_arg expr) j (Some (Arg (Some (Comparable (Some a))) None)) []"
    unfolding parser_arg_def by (rule reads_then) simp
  then have "reads (parse_then (parser_arg expr) (\<lambda>a. case a of
      None \<Rightarrow> parse_fail (ExpectedArg op)
    | Some a \<Rightarrow> parse_return (Some (Restriction (Some (Comparable (Some m))) op (Some a))))) j (Some ?r) []"
    by (rule reads_then) simp
  then have "reads (parse_then (parser_accept kindComparator) (\<lambda>op. case op of
      None \<Rightarrow> parse_return (Some (Restriction (Some (Comparable (Some m))) [] None))
    | Some op \<Rightarrow> parse_then (parser_arg expr) (\<lambda>a. case a of
        None \<Rightarrow> parse_fail (ExpectedArg (tk_value op))
      | Some a \<Rightarrow> parse_return (Some (Restriction (Some (Comparable (Some m))) (tk_value op) (Some a))))))
      (op @ j) (Some ?r) []"
    by (intro reads_then [OF reads_accept [OF lex]]) simp
  then show ?thesis
    unfolding parser_restriction_def
    by (intro reads_then [OF reads_comparable [OF m delimited_comparator [OF op] lex]]) simp_all
qed

lemma reads_lone_member:
  assumes m: "printable_member m" "Member_Input is_print m = Some i"
  shows "reads (parser_restriction expr) i (Some (Restriction (Some (Comparable (Some m))) [] None)) []"
proof -
  have c: "reads parser_comparable i (Some (Comparable (Some m))) []"
    using reads_comparable [OF m _ lexes_end] by (simp add: delimited_def)
  have "reads (parse_then (parser_accept kindComparator) (\<lambda>op. case op of
      None \<Rightarrow> parse_return (Some (Restriction (Some (Comparable (Some m))) [] None))
    | Some op \<Rightarrow> parse_then (parser_arg expr) (\<lambda>a. case a of
        None \<Rightarrow> parse_fail (ExpectedArg (tk_value op))
      | Some a \<Rightarrow> parse_return (Some (Restriction (Some (Comparable (Some m))) (tk_value op) (Some a))))))
      [] (Some (Restriction (Some (Comparable (Some m))) [] None)) []"
    by (rule reads_then [OF not_at_end]) simp_all
  then show ?thesis unfolding parser_restriction_def by (intro reads_then [OF c]) simp
qed

subsection \<open>Filters of one restriction\<close>

definition single :: "Restriction \<Rightarrow> Expression" where
  "single r = Expression [Some (Sequence [Some (Factor [Some (Term False
     (Some (Simple (Some r) None)))])])]"

lemma reads_sep_end:
  assumes "sep \<noteq> kindEnd"
  shows "reads (sep_parts sep err p xs) [] xs []"
proof -
  have "reads (sep_loop (Suc n) sep err p xs) [] xs []" for n
    unfolding sep_loop.simps by (rule reads_then [OF not_at_end [OF assms]]) simp
  then show ?thesis by (simp add: reads_def sep_parts_def del: sep_loop.simps)
qed

lemma reads_single:
  assumes r: "\<And>expr. reads (parser_restriction expr) s (Some r) []"
    and lex: "lexes s k w s'" "k = kindString \<or> k = kindText"
  shows "reads (parser_expression (Suc n)) s (Some (single r)) []"
proof -
  let ?t = "Term False (Some (Simple (Some r) None))" and ?expr = "parser_expression n"
  have "reads (parser_simple ?expr) s (Some (Simple (Some r) None)) []"
    unfolding parser_simple_def by (rule reads_then [OF r]) simp
  then have "reads (parse_then (parser_simple ?expr) (case_option (parse_return None)
      (\<lambda>s. parse_return (Some (Term False (Some s)))))) s (Some ?t) []"
    by (rule reads_then) simp
  then have t: "reads (parser_term ?expr) s (Some ?t) []"
    unfolding parser_term_def using lex(2) by (intro reads_then [OF reads_not_accept [OF lex(1)]]) auto
  have "reads (parse_then (sep_parts kindOr ExpectedTermAfterOr (parser_term ?expr) [Some ?t])
      (\<lambda>ts. parse_return (Some (Factor ts)))) [] (Some (Factor [Some ?t])) []"
    by (rule reads_then [OF reads_sep_end]) simp_all
  then have f: "reads (parser_factor ?expr) s (Some (Factor [Some ?t])) []"
    unfolding parser_factor_def by (intro reads_then [OF t]) simp
  have "reads (sequence_loop (Suc n) ?expr fs) [] fs []" for n fs
    unfolding sequence_loop.simps by (rule reads_then [OF reads_end_factor]) simp
  then have "reads (sequence_loop (Suc (Suc n)) ?expr []) s [Some (Factor [Some ?t])] []" for n
    unfolding sequence_loop.simps(2) [of "Suc n"]
    by (intro reads_then [OF f]) (simp del: sequence_loop.simps)
  then have q: "reads (sequence_loop (Suc n) ?expr []) s [Some (Factor [Some ?t])] []" if "Suc 0 \<le> n" for n
    using that by (cases n) (simp_all del: sequence_loop.simps)
  have "s \<noteq> []" using lex lexes_end by (auto simp: lexes_def)
  then have size: "Suc 0 \<le> lexer_size l" if "at l s" for l
    using at_size [OF that lex(1)] lex(2) by (cases s) auto
  have "reads (\<lambda>l. sequence_loop (Suc (lexer_size l)) ?expr [] l) s [Some (Factor [Some ?t])] []"
    by (rule reads_size [where F = "\<lambda>n. sequence_loop n ?expr []" and m = "Suc 0"]) (use q size in auto)
  then have sq: "reads (parser_sequence ?expr) s (Some (Sequence [Some (Factor [Some ?t])])) []"
    unfolding parser_sequence_def by (rule reads_then) simp
  have "reads (parse_then (sep_parts kindAnd ExpectedSequenceAfterAnd (parser_sequence ?expr)
      [Some (Sequence [Some (Factor [Some ?t])])]) (\<lambda>ss. parse_return (Some (Expression ss)))) []
      (Some (single r)) []"
    by (rule reads_then [OF reads_sep_end]) (simp_all add: single_def)
  then show ?thesis
    unfolding parser_expression.simps expression_body_def by (intro reads_then [OF sq]) simp
qed

lemma ParseFilter_single:
  assumes "\<And>expr. reads (parser_restriction expr) s (Some r) []"
    and lex: "lexes s k w s'" "k = kindString \<or> k = kindText"
  shows "ParseFilter s = Inr (Filter (Some (single r)))"
proof -
  let ?n = "Suc (length s)"
  have "reads (parse_then (parser_expect kindEnd) (\<lambda>_. parse_return (Filter (Some (single r))))) []
      (Filter (Some (single r))) []"
    by (rule reads_then [OF reads_expect [OF lexes_end]]) simp
  then have "reads (parse_then (parser_expression ?n) (\<lambda>e. parse_then (parser_expect kindEnd)
      (\<lambda>_. parse_return (Filter e)))) s (Filter (Some (single r))) []"
    by (rule reads_then [OF reads_single [OF assms]])
  then have "reads (parser_filter ?n) s (Filter (Some (single r))) []"
    unfolding parser_filter_def using lex(2)
    by (intro reads_then [OF reads_not_accept [OF lex(1)]]) (auto simp del: parser_expression.simps)
  moreover have "NewLexer s = fresh s" by (simp add: NewLexer_def fresh_def)
  ultimately obtain l where "parser_filter ?n (NewLexer s) = Inr (Filter (Some (single r)), l)"
    using at_fresh [of s] unfolding reads_def by metis
  then show ?thesis by (simp add: ParseFilter_def)
qed

lemma ParseFilter_restriction:
  assumes "printable_member m" "Member_Input is_print m = Some i"
    and "printable_member a" "Member_Input is_print a = Some j" and "op \<in> comparators"
  shows "ParseFilter (i @ op @ j) = Inr (Filter (Some (single
    (Restriction (Some (Comparable (Some m))) op (Some (Arg (Some (Comparable (Some a))) None))))))"
proof -
  obtain k w s' where "lexes (i @ op @ j) k w s'" "k = kindString \<or> k = kindText"
    using lexes_member [OF assms(1,2) delimited_comparator [OF assms(5)]] by blast
  then show ?thesis by (rule ParseFilter_single [OF reads_restriction [OF assms]])
qed

lemma ParseFilter_member:
  assumes "printable_member m" "Member_Input is_print m = Some i"
  shows "ParseFilter i = Inr (Filter (Some (single (Restriction (Some (Comparable (Some m))) [] None))))"
proof -
  obtain k w s' where "lexes (i @ []) k w s'" "k = kindString \<or> k = kindText"
    using lexes_member [OF assms, of "[]"] by (auto simp: delimited_def)
  then show ?thesis using ParseFilter_single [OF reads_lone_member [OF assms]] by simp
qed

end
