(* ===== verification/Filter_Spec.thy ===== *)
theory Filter_Spec
  imports Filter_Roundtrip Listing_Spec
begin

text \<open>
  The properties of the parser of filters. The predicate \<open>is_print\<close> is the part of
  \<open>strconv.IsPrint\<close> above ASCII, a table of the Go library; the properties hold for every table.
\<close>

subsection \<open>A sample\<close>

lemma quote_x: "Quote is_print ''x'' = ''\"x\"''"
proof -
  have "byte 120 = CHR ''x''" by (rule of_char_eqI [where 'a = nat]) simp
  then show ?thesis
    by (simp add: Quote_def quote_loop.simps appendEscapedRune_def IsPrint_def AppendRune_def
        ValidRune_def RuneError_def)
qed

definition sample_member :: Member where
  "sample_member = Member (Some (Value False ''tags'')) []"

definition sample_arg :: Member where
  "sample_arg = Member (Some (Value True ''x'')) []"

lemma sample_printable:
  "printable_member sample_member" "Member_Input is_print sample_member = Some ''tags''"
  "printable_member sample_arg" "Member_Input is_print sample_arg = Some ''\"x\"''"
  by (simp_all add: sample_member_def sample_arg_def Member_Input_def Value_Input_def quote_x
      printable_member_def printable_def text_value_def re_text_def re_space_def)

lemma sample_parse: "ParseFilter ''tags=\"x\"'' = Inr (the sample_filter)"
  using ParseFilter_restriction [OF sample_printable, of "''=''"]
  by (simp add: comparators_def sample_filter_def single_def sample_member_def sample_arg_def)

subsection \<open>Properties\<close>

text \<open>C18: Parsing ends on every input: with the recursion bounded by the length of the input and each loop
  by what is left of it, the parser never runs out of fuel. It returns a tree or one of the errors
  of the source.\<close>
theorem parse_total: "ParseFilter input \<noteq> Inl OutOfFuel"
  by (rule ParseFilter_spec(1))

text \<open>C30: A tree the parser returns has no nil and no empty list in it: a restriction has a member with a
  value, has an argument exactly when it has a comparator, and a term is either a restriction or a
  parenthesised expression. The evaluators never meet the cases they guard against.\<close>
theorem parse_wf:
  assumes "ParseFilter input = Inr f"
  shows "wf_Filter f"
  by (rule ParseFilter_spec(2) [OF assms])

theorem parse_wf_witness:
  "ParseFilter ''tags=\"x\"'' = Inr (the sample_filter) \<and> wf_Filter (the sample_filter)"
  using parse_wf [OF sample_parse] sample_parse by blast

text \<open>C17: What \<open>Input\<close> writes for two members, with a comparator between them, is parsed to the filter of
  exactly that one restriction. Quoted values may be any byte strings; an unquoted value has to
  be one text token.\<close>
theorem parse_restriction:
  assumes "printable_member m" and "Member_Input is_print m = Some i"
    and "printable_member a" and "Member_Input is_print a = Some j" and "op \<in> comparators"
  shows "ParseFilter (i @ op @ j) = Inr (Filter (Some (single
    (Restriction (Some (Comparable (Some m))) op (Some (Arg (Some (Comparable (Some a))) None))))))"
  by (rule ParseFilter_restriction [OF assms])

theorem parse_restriction_witness:
  "ParseFilter ''tags!=\"x\"'' = Inr (Filter (Some (single
    (Restriction (Some (Comparable (Some sample_member))) ''!='' (Some (Arg (Some (Comparable (Some sample_arg))) None))))))"
  using parse_restriction [OF sample_printable, of "''!=''"]
  by (simp add: comparators_def)

text \<open>The query of a parsed filter needs no assumption on the tree: it fails exactly with the first
  ill-typed restriction of the filter, and otherwise returns exactly the rows the filter holds of
  whose time span meets the asked one. It never panics.\<close>
theorem parsed_query:
  assumes "ParseFilter input = Inr f"
    and "roaring_bitmap R" and "ri_rep R as_time ri rows" and "0 < numCPU"
  shows "case filter_errors (Some f) of
      e # _ \<Rightarrow> query R numCPU ri startTime endTime (Some f) = Some (Inl e)
    | [] \<Rightarrow> \<exists>bm. query R numCPU ri startTime endTime (Some f) = Some (Inr bm) \<and>
        (\<forall>c. bm_contains R bm c \<longleftrightarrow>
          unat c < length rows \<and> row_matches as_time startTime endTime (Some f) (rows ! unat c))"
proof (rule roaring_bitmap.query_rows [OF assms(2,3) _ assms(4)])
  show "wf_filter (Some f)" using ParseFilter_spec(2) [OF assms(1)] by (simp add: wf_filter_def)
qed

theorem parsed_query_witness:
  "\<exists>f ri bm. ParseFilter ''tags=\"x\"'' = Inr f \<and>
     query list_roaring 3 ri (sample_time 0) (sample_time 300) (Some f) = Some (Inr bm) \<and>
     bm_contains list_roaring bm 1 \<and> \<not> bm_contains list_roaring bm 0"
proof -
  obtain ri where ri: "ri_rep list_roaring sample_as_time ri [sample_b, sample_a]"
    using sample_index by blast
  have f: "Some (the sample_filter) = sample_filter" by (simp add: sample_filter_def)
  from parsed_query [OF sample_parse list_roaring_ok ri, of 3 "sample_time 0" "sample_time 300", unfolded f]
  obtain bm where "query list_roaring 3 ri (sample_time 0) (sample_time 300) sample_filter = Some (Inr bm)"
    "bm_contains list_roaring bm 1" "\<not> bm_contains list_roaring bm 0"
    using sample_matches by auto
  then show ?thesis using sample_parse f by metis
qed

text \<open>Printing a parsed filter for debugging never panics: \<open>String\<close> calls the method of a nil value
  only on trees the parser does not build.\<close>
theorem parsed_String:
  assumes "ParseFilter input = Inr f"
  shows "Filter_String is_print f \<noteq> None"
  by (rule Filter_String_Some [OF ParseFilter_spec(2) [OF assms]])

theorem parsed_String_witness: "Filter_String (\<lambda>_. True) (the sample_filter) \<noteq> None"
  by (rule parsed_String [OF sample_parse])

text \<open>Only the first alternative of the regular expression of the lexer is anchored. A byte that
  starts no token is skipped without an error, and since the input is cut by the length of the
  match, the last byte of the token is read again as a token of its own: after \<open>!\<close> and a text,
  the lexer returns the text and is left with its last byte.\<close>
theorem lexer_skips:
  assumes "text_value t"
  shows "lexer_Next (NewLexer (''!'' @ t)) =
    Inr (\<lparr>tk_kind = kindText, tk_value = t\<rparr>, NewLexer [last t])"
proof -
  obtain c t' where ct: "t = c # t'" using assms by (cases t) (auto simp: text_value_def)
  have "c \<noteq> CHR ''=''" using assms by (auto simp: ct text_value_def re_text_def)
  then have "match_here True (''!'' @ t) = None"
    by (auto simp: ct match_here_def keyword_def re_text_def re_space_def Let_def)
  then have "find_match True (''!'' @ t) = Some (11, t, length t)"
    using text_match [OF assms, of "[]" False] find_match.simps [of True "''!'' @ t"] find_match.simps [of False t]
    by (simp add: delimited_def)
  moreover have "TrimLeft (''!'' @ t) = ''!'' @ t" by (simp add: TrimLeft_def)
  moreover have "drop (length t) (''!'' @ t) = [last t]"
    by (cases t rule: rev_cases) (simp_all add: ct)
  ultimately show ?thesis
    by (simp add: lexer_Next_def NewLexer_def group_kind_def group_value_def Let_def)
qed

theorem lexer_skips_witness:
  "lexer_Next (NewLexer ''!abc'') = Inr (\<lparr>tk_kind = kindText, tk_value = ''abc''\<rparr>, NewLexer ''c'')"
  using lexer_skips [of "''abc''"] by (simp add: text_value_def re_text_def re_space_def)

end
