(* ===== verification/Rpc_Spec.thy ===== *)
theory Rpc_Spec
  imports List_Run Rpc_Calls Filter_Spec
begin

text \<open>
  The properties of listings: the whole call \<open>ListEvents\<close> in the middle of a run of the workers, in which events
  are created, updated and deleted. What the cluster does is stated by the laws \<open>honest\<close>, \<open>answers\<close>,
  \<open>readable\<close> and \<open>forgets\<close>. Which events a listing shows, that it ends, that it shows a created event and does
  not show a deleted one, and the limits of a page.
\<close>

subsection \<open>From keys to events\<close>

text \<open>The event that a row of the cluster holds.\<close>

definition decodes :: "('ts, 'r, 'n) codec \<Rightarrow> 'n \<Rightarrow> 'r \<Rightarrow> 'ts event \<Rightarrow> bool" where
  "decodes K nameTable r e \<longleftrightarrow> (\<exists>row. cd_row K nameTable r = Inr row \<and> cd_unmarshal K (er_Event row) = Inr e)"

lemma decodes_unique: "decodes K nt r e \<Longrightarrow> decodes K nt r e' \<Longrightarrow> e' = e"
  by (auto simp: decodes_def)

lemma decode_rows_map:
  assumes "decode_rows K nt rs m w = (Inr m', w')"
  shows "(\<forall>i e. m' i = Some e \<longrightarrow> m i = Some e \<or> ev_Id e = i \<and> (\<exists>r \<in> set rs. decodes K nt r e)) \<and>
    (\<forall>r \<in> set rs. \<exists>e. decodes K nt r e \<and> m' (ev_Id e) \<noteq> None) \<and> (\<forall>i. m i \<noteq> None \<longrightarrow> m' i \<noteq> None)"
  using assms
proof (induction rs arbitrary: m w)
  case (Cons r rs)
  from Cons.prems obtain row e where row: "cd_row K nt r = Inr row" "cd_unmarshal K (er_Event row) = Inr e"
    "decode_rows K nt rs (m(ev_Id e \<mapsto> e)) w = (Inr m', w')"
    by (auto simp: call_defs split: sum.splits prod.splits)
  have e: "decodes K nt r e" using row(1,2) by (auto simp: decodes_def)
  note IH = Cons.IH [OF row(3)]
  show ?case
  proof (intro conjI allI impI ballI)
    fix i e' assume "m' i = Some e'"
    with IH consider "(m(ev_Id e \<mapsto> e)) i = Some e'" | "ev_Id e' = i" "\<exists>r \<in> set rs. decodes K nt r e'" by blast
    then show "m i = Some e' \<or> ev_Id e' = i \<and> (\<exists>r \<in> set (r # rs). decodes K nt r e')"
      by cases (use e in \<open>auto split: if_splits\<close>)
  next
    fix x assume "x \<in> set (r # rs)"
    then consider "x = r" | "x \<in> set rs" by auto
    then show "\<exists>e. decodes K nt x e \<and> m' (ev_Id e) \<noteq> None"
    proof cases
      case 1
      from IH have "m' (ev_Id e) \<noteq> None" by simp
      with e 1 show ?thesis by blast
    qed (use IH in blast)
  next
    fix i assume "m i \<noteq> None"
    with IH show "m' i \<noteq> None" by simp
  qed
qed (simp add: call_return_def)

lemma decode_rows_returns:
  "\<forall>r \<in> set rs. \<exists>e. decodes K nt r e \<Longrightarrow> \<exists>m'. decode_rows K nt rs m w = (Inr m', w)"
  by (induction rs arbitrary: m) (auto simp: decodes_def call_defs)

lemma found_events_mem: "e \<in> set (found_events m keys) \<longleftrightarrow> (\<exists>k \<in> set keys. m (key_ID k) = Some e)"
  by (induction keys) (auto split: option.splits)

lemma key_of_row_key: "key_of F as_time T startTime endTime flt row k \<Longrightarrow> key_row_key k = event_row_key as_time (fst row)"
  by (auto simp: key_of_def key_row_key_def event_row_key_def start_micro_def row_key_def table_write_def EventKeyFromProto_def
      getters UnixMicro_def Unix_def in_Local_def split: prod.splits)

text \<open>What a listing did that has returned a response: it took keys, and showed of their page the events
  that a lookup at its timestamp has returned.\<close>

definition page_of :: "u32 \<Rightarrow> EventKey list \<Rightarrow> EventKey list" where
  "page_of pg keys = (if int (length keys) = page_size pg then butlast keys else keys)"

lemma page_of_sub: "set (page_of pg keys) \<subseteq> set keys"
  by (auto simp: page_of_def dest: in_set_butlastD)

lemma ListEvents_did:
  assumes "ListEvents R S F numCPU C K as_time token st puts q startTime endTime pg w = (Inr r, w')"
  obtains f ts y keys where "ParseFilter q = Inr f" and "yt_GenerateTimestamp C (wd_yt w) = (Inr ts, y)"
    and "list_keys R S F numCPU st puts (as_time startTime) (as_time endTime) (Some f) ts pg = Some (Inr keys)"
    and "keys = [] \<and> ls_Events r = [] \<or>
      (\<exists>rs nt m y'. keys \<noteq> [] \<and> yt_LookupRows C eventsTable (map AKey (map key_row_key (page_of pg keys))) ts y = (Inr (rs, nt), y') \<and>
        (\<forall>i e. m i = Some e \<longrightarrow> ev_Id e = i \<and> (\<exists>r \<in> set rs. decodes K nt r e)) \<and>
        (\<forall>r \<in> set rs. \<exists>e. decodes K nt r e \<and> m (ev_Id e) \<noteq> None) \<and> ls_Events r = found_events m (page_of pg keys) \<and>
        (int (length keys) = page_size pg \<longrightarrow> token (last keys) = Inr (ls_NextPageToken r)))"
proof -
  from assms obtain f where f: "ParseFilter q = Inr f" by (auto simp: ListEvents_def call_defs split: sum.splits)
  from assms [unfolded ListEvents_def f sum.case, THEN call_then_Inr] obtain ts v where
    gen: "client ListFail (yt_GenerateTimestamp C) w = (Inr ts, v)" and
    v: "(case list_keys R S F numCPU st puts (as_time startTime) (as_time endTime) (Some f) ts pg of
            None \<Rightarrow> call_fail ListPanic
          | Some (Inl e) \<Rightarrow> call_fail (ListFilterFail e)
          | Some (Inr []) \<Rightarrow> call_return \<lparr>ls_Events = [], ls_NextPageToken = [], ls_Stats = list_stats R st\<rparr>
          | Some (Inr keys) \<Rightarrow>
            call_then (split_page token pg keys) (\<lambda>(keys, nextPageToken).
            call_then (client (LookupFail \<circ> Some)
              (yt_LookupRows C eventsTable (map (AKey \<circ> key_row_key) keys) ts)) (\<lambda>(wireRows, nameTable).
            call_then (decode_rows K nameTable wireRows (\<lambda>_. None)) (\<lambda>eventsMap.
              call_return \<lparr>ls_Events = found_events eventsMap keys, ls_NextPageToken = nextPageToken,
                ls_Stats = list_stats R st\<rparr>)))) v = (Inr r, w')" by blast
  from gen have gen': "yt_GenerateTimestamp C (wd_yt w) = (Inr ts, wd_yt v)" by (auto simp: client_def split: prod.splits sum.splits)
  from v obtain keys where keys: "list_keys R S F numCPU st puts (as_time startTime) (as_time endTime) (Some f) ts pg = Some (Inr keys)"
    by (auto simp: call_defs split: option.splits sum.splits)
  show thesis
  proof (cases keys)
    case Nil
    with v keys have "ls_Events r = []" by (auto simp: call_defs)
    with that [OF f gen' keys] Nil show thesis by blast
  next
    case (Cons k0 ks0)
    from v [unfolded keys option.case sum.case Cons list.case, THEN call_then_Inr] obtain ks t u where
      page: "split_page token pg keys v = (Inr (ks, t), u)"
      and rest: "call_then (client (LookupFail \<circ> Some) (yt_LookupRows C eventsTable (map (AKey \<circ> key_row_key) ks) ts))
        (\<lambda>(wireRows, nameTable). call_then (decode_rows K nameTable wireRows (\<lambda>_. None)) (\<lambda>eventsMap.
           call_return \<lparr>ls_Events = found_events eventsMap ks, ls_NextPageToken = t, ls_Stats = list_stats R st\<rparr>)) u = (Inr r, w')"
      unfolding Cons by fastforce
    from page have ks: "ks = page_of pg keys" "u = v" "int (length keys) = page_size pg \<longrightarrow> token (last keys) = Inr t"
      by (auto simp: split_page_def page_of_def call_defs split: if_splits sum.splits)
    from call_then_Inr [OF rest] obtain rs nt x where
      look: "client (LookupFail \<circ> Some) (yt_LookupRows C eventsTable (map (AKey \<circ> key_row_key) ks) ts) u = (Inr (rs, nt), x)"
      and dec: "call_then (decode_rows K nt rs (\<lambda>_. None)) (\<lambda>eventsMap.
           call_return \<lparr>ls_Events = found_events eventsMap ks, ls_NextPageToken = t, ls_Stats = list_stats R st\<rparr>) x = (Inr r, w')"
      by auto
    from look have look': "\<exists>y'. yt_LookupRows C eventsTable (map AKey (map key_row_key ks)) ts (wd_yt v) = (Inr (rs, nt), y')"
      by (auto simp: client_def ks(2) split: prod.splits sum.splits)
    from call_then_Inr [OF dec] obtain m z where
      m: "decode_rows K nt rs (\<lambda>_. None) x = (Inr m, z)" "ls_Events r = found_events m ks" "ls_NextPageToken r = t"
      by (auto simp: call_return_def)
    from decode_rows_map [OF m(1)] m(2,3) ks look' Cons show thesis
      by (intro that [OF f gen' keys] disjI2) auto
  qed
qed

subsection \<open>The cluster\<close>

text \<open>The laws speak of the lookups in one state of the cluster at one timestamp: those of a listing that has
  asked for its timestamp. What such a lookup in the table of the events returns: events that were committed
  under one of the asked keys, not after the timestamp.\<close>

definition honest :: "('y, 'g, 'r, 'n) yt_client \<Rightarrow> ('ts, 'r, 'n) codec \<Rightarrow> ('ts option \<Rightarrow> go_time) \<Rightarrow> u64 \<Rightarrow> 'y \<Rightarrow>
    ('ts event \<Rightarrow> u64 \<Rightarrow> bool) \<Rightarrow> bool" where
  "honest C K as_time ts y committed \<longleftrightarrow> (\<forall>keys rs nt y'. yt_LookupRows C eventsTable (map AKey keys) ts y = (Inr (rs, nt), y') \<longrightarrow>
     (\<forall>r \<in> set rs. \<forall>e. decodes K nt r e \<longrightarrow> event_row_key as_time e \<in> set keys \<and> (\<exists>t \<le> ts. committed e t)))"

text \<open>A lookup that asks for the key of the event finds it, and no other event of its id.\<close>

definition answers :: "('y, 'g, 'r, 'n) yt_client \<Rightarrow> ('ts, 'r, 'n) codec \<Rightarrow> ('ts option \<Rightarrow> go_time) \<Rightarrow> u64 \<Rightarrow> 'y \<Rightarrow> 'ts event \<Rightarrow> bool" where
  "answers C K as_time ts y e \<longleftrightarrow> (\<forall>keys rs nt y'. yt_LookupRows C eventsTable (map AKey keys) ts y = (Inr (rs, nt), y') \<longrightarrow>
     event_row_key as_time e \<in> set keys \<longrightarrow>
     (\<exists>r \<in> set rs. decodes K nt r e) \<and> (\<forall>r \<in> set rs. \<forall>e'. decodes K nt r e' \<longrightarrow> ev_Id e' = ev_Id e \<longrightarrow> e' = e))"

text \<open>A lookup of keys of these events succeeds, and its rows can be decoded.\<close>

definition readable :: "('y, 'g, 'r, 'n) yt_client \<Rightarrow> ('ts, 'r, 'n) codec \<Rightarrow> ('ts option \<Rightarrow> go_time) \<Rightarrow> u64 \<Rightarrow> 'y \<Rightarrow> 'ts event set \<Rightarrow> bool" where
  "readable C K as_time ts y events \<longleftrightarrow> (\<forall>keys. set keys \<subseteq> event_row_key as_time ` events \<longrightarrow>
     (\<exists>rs nt y'. yt_LookupRows C eventsTable (map AKey keys) ts y = (Inr (rs, nt), y') \<and> (\<forall>r \<in> set rs. \<exists>e. decodes K nt r e)))"

subsection \<open>A sample\<close>

text \<open>A storage that has taken one event.\<close>

definition sample_taken ::
  "(u32 list, (EventKey \<Rightarrow> EventKey \<Rightarrow> int) \<times> (EventKey \<times> (go_time, string list) memTableItem) list,
    (go_time, string list) writeItem) system" where
  "sample_taken = young (table_of list_skiplist list_bloom sample_as_time [sample_a]) W_poll
     (map (table_write list_bloom sample_as_time) [sample_a])"

lemma sample_taken_ok:
  "reach list_roaring list_skiplist sample_as_time False sample_taken"
  "written list_bloom sample_as_time (sy_accepted sample_taken)"
  "item_rows (sy_accepted sample_taken) = [sample_a]" "ev_ok (fst sample_a)" "sy_writer sample_taken \<noteq> W_panic"
  "converting (sy_writer sample_taken) = None" "pending_items (sy_writer sample_taken) = []"
  "page_size 10 = 11"
proof -
  show "reach list_roaring list_skiplist sample_as_time False sample_taken"
    unfolding sample_taken_def by (rule put_reached [OF list_skiplist_ok])
  have acc: "sy_accepted sample_taken = map (table_write list_bloom sample_as_time) [sample_a]"
    by (simp add: sample_taken_def young_def)
  show rows: "item_rows (sy_accepted sample_taken) = [sample_a]" unfolding acc by (rule item_rows_writes)
  show "written list_bloom sample_as_time (sy_accepted sample_taken)"
    unfolding acc by (rule written_writes) simp_all
  show "ev_ok (fst sample_a)" by (simp add: ev_ok_def sample_a_def sample_event_def)
  show "sy_writer sample_taken \<noteq> W_panic"
    "converting (sy_writer sample_taken) = None" "pending_items (sy_writer sample_taken) = []"
    by (simp_all add: sample_taken_def young_def)
  show "page_size 10 = 11" by (simp add: page_size_def)
qed

text \<open>A codec for which the row of its key holds this event.\<close>

definition sample_store :: "(go_time, any_row, unit) codec" where
  "sample_store = sample_codec\<lparr>cd_unmarshal := (\<lambda>_. Inr (fst sample_a)),
     cd_row := (\<lambda>_ r. case r of AKey k \<Rightarrow>
         if k = event_row_key sample_as_time (fst sample_a)
         then Inr \<lparr>er_ResourceTypeCode = rk_ResourceTypeCode k, er_ResourceExternalID = rk_ResourceExternalID k,
           er_StartTime = rk_StartTime k, er_ID = rk_ID k, er_Event = []\<rparr>
         else Inl ''row''
     | _ \<Rightarrow> Inl ''row'')\<rparr>"

lemma sample_decodes:
  "decodes sample_store () (AKey k) e \<longleftrightarrow> k = event_row_key sample_as_time (fst sample_a) \<and> e = fst sample_a"
  by (auto simp: decodes_def sample_store_def)

lemma sample_cluster:
  "honest sample_client sample_store sample_as_time ts y (\<lambda>e t. e = fst sample_a)"
  "answers sample_client sample_store sample_as_time ts y (fst sample_a)"
  "readable sample_client sample_store sample_as_time ts y {fst sample_a}"
proof -
  have look: "yt_LookupRows sample_client eventsTable rows ts y = (Inr (rows, ()), y)" for rows ts y
    by (simp add: sample_client_def)
  show "honest sample_client sample_store sample_as_time ts y (\<lambda>e t. e = fst sample_a)"
    unfolding honest_def look by (auto simp: sample_decodes)
  show "answers sample_client sample_store sample_as_time ts y (fst sample_a)"
    unfolding answers_def look by (auto simp: sample_decodes)
  show "readable sample_client sample_store sample_as_time ts y {fst sample_a}"
    unfolding readable_def look by (auto simp: sample_decodes intro!: exI [of _ "fst sample_a"])
qed

lemma sample_during_run:
  "during_run list_roaring list_skiplist list_bloom sample_as_time sample_taken sample_taken sample_taken sample_taken
     [map (table_write list_bloom sample_as_time) [sample_a]]"
proof -
  have "sy_accepted sample_taken = map (table_write list_bloom sample_as_time) [sample_a]"
    by (simp add: sample_taken_def young_def)
  then show ?thesis
    using sample_taken_ok(1,2,4,5) unfolding during_run_def sample_taken_ok(3) by simp
qed

subsection \<open>Listing\<close>

lemma parsed_wf: "ParseFilter q = Inr f \<Longrightarrow> wf_filter (Some f)"
  using ParseFilter_spec(2) [of q f] by (simp add: wf_filter_def)


text \<open>C6: The events a listing returns, during a run in which the table grows and events are written, updated
  and deleted. Each was committed to the cluster not after the timestamp of the listing, and it has the row
  key of an accepted version of an event that matches the filter, is not deleted and is not newer than the
  listing; this version also meets the asked time span, unless it is in the table the listing walks through.
  It holds for any filter, page size and token of a call that has returned a response. The conditions: the
  process is running when the table is loaded, the timer does not fire while a flushed index is removed, no version is
  written twice (an update leaving the start at the same instant), the keys of annotations are distinct, and a
  lookup returns committed events of the asked keys.\<close>
theorem listing_sound:
  assumes "roaring_bitmap R" and "skip_list S made" and "bloom_filter F" and "during_run R S F as_time s1 s2 s3 s4 puts"
    and "0 < numCPU" and "yt_GenerateTimestamp C (wd_yt w) = (Inr ts, y)" and "honest C K as_time ts y committed"
    and "ListEvents R S F numCPU C K as_time token (loaded s1 s2 s3) puts q startTime endTime pg w = (Inr r, w')"
  shows "\<exists>f. ParseFilter q = Inr f \<and>
    (\<forall>e \<in> set (ls_Events r). (\<exists>t \<le> ts. committed e t) \<and>
       (\<exists>row \<in> set (item_rows (sy_accepted s4)). event_row_key as_time (fst row) = event_row_key as_time e \<and>
          \<not> snd (snd row) \<and> fst (snd row) \<le> ts \<and> filter_holds (event_sat (fst row)) (Some f) \<and>
          (row_matches as_time (as_time startTime) (as_time endTime) (Some f) row \<or> table_write F as_time row \<in> walked S s1 puts)))"
proof -
  let ?W = "set (item_rows (sy_accepted s4))" and ?key_of = "\<lambda>f. key_of F as_time (walked S s1 puts) (as_time startTime) (as_time endTime) (Some f)"
  obtain f ts' y' keys where f: "ParseFilter q = Inr f" and gen: "yt_GenerateTimestamp C (wd_yt w) = (Inr ts', y')"
    and keys': "list_keys R S F numCPU (loaded s1 s2 s3) puts (as_time startTime) (as_time endTime) (Some f) ts' pg = Some (Inr keys)"
    and did: "keys = [] \<and> ls_Events r = [] \<or>
      (\<exists>rs nt m z. keys \<noteq> [] \<and> yt_LookupRows C eventsTable (map AKey (map key_row_key (page_of pg keys))) ts' y' = (Inr (rs, nt), z) \<and>
        (\<forall>i e. m i = Some e \<longrightarrow> ev_Id e = i \<and> (\<exists>r \<in> set rs. decodes K nt r e)) \<and>
        (\<forall>r \<in> set rs. \<exists>e. decodes K nt r e \<and> m (ev_Id e) \<noteq> None) \<and> ls_Events r = found_events m (page_of pg keys) \<and>
        (int (length keys) = page_size pg \<longrightarrow> token (last keys) = Inr (ls_NextPageToken r)))"
    by (rule ListEvents_did [OF assms(8)])
  have same: "ts' = ts" "y' = y" using gen assms(6) by simp_all
  note keys = keys' [unfolded same]
  have n: "0 \<le> page_size pg" using list_keys_bounded [OF keys] by linarith
  note wf = parsed_wf [OF f]
  from keys_sound [OF assms(1-4) wf keys_found [OF assms(1,2,4) wf assms(5) keys] assms(5) n,
      of "as_time startTime" "as_time endTime" ts] keys
  have of_row: "\<forall>k \<in> set keys. \<not> key_IsDeleted k \<and> key_Timestamp k \<le> ts \<and> (\<exists>row \<in> ?W. ?key_of f row k)" by auto
  have "(\<exists>t \<le> ts. committed e t) \<and> (\<exists>row \<in> ?W. event_row_key as_time (fst row) = event_row_key as_time e \<and>
      \<not> snd (snd row) \<and> fst (snd row) \<le> ts \<and> filter_holds (event_sat (fst row)) (Some f) \<and>
      (row_matches as_time (as_time startTime) (as_time endTime) (Some f) row \<or> table_write F as_time row \<in> walked S s1 puts))"
    if e: "e \<in> set (ls_Events r)" for e
  proof -
    from did e obtain rs nt y' where
      look: "yt_LookupRows C eventsTable (map AKey (map key_row_key (page_of pg keys))) ts y = (Inr (rs, nt), y')"
      and dec: "\<exists>x \<in> set rs. decodes K nt x e" by (fastforce simp: found_events_mem same)
    from assms(7) [unfolded honest_def, rule_format, OF look] dec
    have h: "event_row_key as_time e \<in> set (map key_row_key (page_of pg keys))" "\<exists>t \<le> ts. committed e t" by blast+
    then obtain k where k: "k \<in> set keys" "key_row_key k = event_row_key as_time e" using page_of_sub by fastforce
    with of_row obtain row where row: "row \<in> ?W" "\<not> key_IsDeleted k" "key_Timestamp k \<le> ts" "?key_of f row k" by blast
    with key_of_view [OF row(4)] key_of_row_key [OF row(4)] k(2) have
      "event_row_key as_time (fst row) = event_row_key as_time e" "\<not> snd (snd row)" "fst (snd row) \<le> ts" by auto
    with row(1,4) h(2) show ?thesis by (intro conjI bexI [of _ row]) (auto simp: key_of_def)
  qed
  with f show ?thesis by blast
qed

text \<open>The whole listing of a call that returns: its keys, and for each asked event an answer.\<close>

lemma listing_returned:
  assumes flt: "ParseFilter q = Inr f" and gen: "yt_GenerateTimestamp C (wd_yt w) = (Inr ts, y)"
    and keys: "list_keys R S F numCPU st puts (as_time startTime) (as_time endTime) (Some f) ts pg = Some (Inr keys)"
    and sub: "\<forall>k \<in> set keys. key_row_key k \<in> event_row_key as_time ` events"
    and read: "readable C K as_time ts y events" and token: "\<forall>k. \<exists>t. token k = Inr t"
  shows "\<exists>r w'. ListEvents R S F numCPU C K as_time token st puts q startTime endTime pg w = (Inr r, w')"
proof -
  let ?w = "\<lparr>wd_yt = y, wd_sent = wd_sent w\<rparr>"
  have gen': "call_then (client ListFail (yt_GenerateTimestamp C)) g w = g ts ?w" for g
    by (cases w) (use gen in \<open>simp add: call_then_def client_def\<close>)
  show ?thesis
  proof (cases "keys = []")
    case True
    then show ?thesis by (simp add: ListEvents_def flt gen' keys call_return_def)
  next
    case False
    obtain t where "token (last keys) = Inr t" using token by blast
    then have page: "call_then (split_page token pg keys) g ?w =
        g (page_of pg keys, if int (length keys) = page_size pg then t else []) ?w" for g
      by (simp add: split_page_def call_defs page_of_def)
    have "set (map key_row_key (page_of pg keys)) \<subseteq> event_row_key as_time ` events"
      using sub page_of_sub [of pg keys] by auto
    with read [unfolded readable_def, rule_format, of "map key_row_key (page_of pg keys)"] obtain rs nt y' where
      look: "yt_LookupRows C eventsTable (map AKey (map key_row_key (page_of pg keys))) ts y = (Inr (rs, nt), y')"
      and dec: "\<forall>r \<in> set rs. \<exists>e. decodes K nt r e" by blast
    let ?v = "\<lparr>wd_yt = y', wd_sent = wd_sent w\<rparr>"
    have look': "call_then (client (LookupFail \<circ> Some) (yt_LookupRows C eventsTable (map (AKey \<circ> key_row_key) (page_of pg keys)) ts)) g ?w =
        g (rs, nt) ?v" for g
      using look by (simp add: call_then_def client_def)
    obtain m where m: "decode_rows K nt rs (\<lambda>_. None) ?v = (Inr m, ?v)"
      using decode_rows_returns [OF dec] by blast
    then have m: "call_then (decode_rows K nt rs (\<lambda>_. None)) g ?v = g m ?v" for g by (simp add: call_then_def)
    obtain k0 ks where cons: "keys = k0 # ks" using False by (cases keys) auto
    show ?thesis
      unfolding ListEvents_def flt sum.case gen' keys [unfolded cons] option.case list.case
        page [unfolded cons] prod.case look' [unfolded cons] m
      by (simp add: call_return_def)
  qed
qed

lemma listing_answered:
  assumes "roaring_bitmap R" and "skip_list S made" and "bloom_filter F" and "during_run R S F as_time s1 s2 s3 s4 puts"
    and "0 < numCPU" and "0 \<le> page_size pg" and "ParseFilter q = Inr f" and "filter_errors (Some f) = []"
    and "yt_GenerateTimestamp C (wd_yt w) = (Inr ts, y)"
    and "readable C K as_time ts y (fst ` set (item_rows (sy_accepted s4)))" and "\<forall>k. \<exists>t. token k = Inr t"
  shows "\<exists>r w'. ListEvents R S F numCPU C K as_time token (loaded s1 s2 s3) puts q startTime endTime pg w = (Inr r, w')"
proof -
  from keys_sound [OF assms(1-4) parsed_wf [OF assms(7)] disjI1 [OF assms(8)] assms(5,6), of "as_time startTime" "as_time endTime" ts] obtain keys where
    keys: "list_keys R S F numCPU (loaded s1 s2 s3) puts (as_time startTime) (as_time endTime) (Some f) ts pg = Some (Inr keys)"
    and of_row: "\<forall>k \<in> set keys. \<exists>row \<in> set (item_rows (sy_accepted s4)).
      key_of F as_time (walked S s1 puts) (as_time startTime) (as_time endTime) (Some f) row k" by blast
  have "\<forall>k \<in> set keys. key_row_key k \<in> event_row_key as_time ` fst ` set (item_rows (sy_accepted s4))"
  proof
    fix k assume "k \<in> set keys"
    with of_row obtain row where row: "row \<in> set (item_rows (sy_accepted s4))"
      "key_of F as_time (walked S s1 puts) (as_time startTime) (as_time endTime) (Some f) row k" by blast
    from row(1) show "key_row_key k \<in> event_row_key as_time ` fst ` set (item_rows (sy_accepted s4))"
      unfolding key_of_row_key [OF row(2)] by (intro imageI)
  qed
  from listing_returned [OF assms(7,9) keys this assms(10,11)] show ?thesis .
qed

text \<open>Calls that do not end in a panic of the listing.\<close>

named_theorems calm

definition no_panic :: "('y, 'w, 'a) call \<Rightarrow> bool" where
  "no_panic m \<longleftrightarrow> (\<forall>w. fst (m w) \<noteq> Inl ListPanic)"

lemma no_panic_basic [calm]:
  "no_panic (call_return x)" "e \<noteq> ListPanic \<Longrightarrow> no_panic (call_fail e)"
  "(\<And>e. fail e \<noteq> ListPanic) \<Longrightarrow> no_panic (client fail op)" "(\<And>e. fail e \<noteq> ListPanic) \<Longrightarrow> no_panic (lift_error fail r)"
  by (auto simp: no_panic_def call_defs split: prod.splits sum.splits)

lemma no_panic_then [calm]: "no_panic m \<Longrightarrow> (\<And>x. no_panic (f x)) \<Longrightarrow> no_panic (call_then m f)"
  by (auto simp: no_panic_def call_then_def split: prod.splits sum.splits) (metis fst_conv)

lemma no_panic_rows [calm]: "no_panic (decode_rows K nt rs m)"
  by (induction rs arbitrary: m) (auto simp: fun_upd_def intro!: calm)

lemma no_panic_list:
  assumes "\<forall>f ts. ParseFilter q = Inr f \<longrightarrow> list_keys R S F numCPU st puts (as_time startTime) (as_time endTime) (Some f) ts pg \<noteq> None"
  shows "no_panic (ListEvents R S F numCPU C K as_time token st puts q startTime endTime pg)"
proof (cases "ParseFilter q")
  case (Inr f)
  have some: "list_keys R S F numCPU st puts (as_time startTime) (as_time endTime) (Some f) ts pg \<noteq> None" for ts
    using assms Inr by blast
  show ?thesis unfolding ListEvents_def split_page_def Inr sum.case
    by (intro calm) (auto simp: some intro!: calm split: sum.split option.split list.split prod.split)
qed (simp add: ListEvents_def calm)

text \<open>C28: A listing during a run comes to an end without a panic, whatever the filter, the cluster
  answers and the page size, as long as adding one to the size gives no negative number. And it returns a response
  when the filter parses and has no ill-typed restriction, the cluster gives a timestamp and answers the lookups of
  accepted events with rows that can be decoded, and the keys can be encoded as tokens. The
  conditions on the run are those of the soundness of a listing.\<close>
theorem listing_returns:
  assumes "roaring_bitmap R" and "skip_list S made" and "bloom_filter F" and "during_run R S F as_time s1 s2 s3 s4 puts"
    and "0 < numCPU" and "0 \<le> page_size pg"
  shows "fst (ListEvents R S F numCPU C K as_time token (loaded s1 s2 s3) puts q startTime endTime pg w) \<noteq> Inl ListPanic \<and>
    (ParseFilter q = Inr f \<longrightarrow> filter_errors (Some f) = [] \<longrightarrow> yt_GenerateTimestamp C (wd_yt w) = (Inr ts, y) \<longrightarrow>
     readable C K as_time ts y (fst ` set (item_rows (sy_accepted s4))) \<longrightarrow> (\<forall>k. \<exists>t. token k = Inr t) \<longrightarrow>
     (\<exists>r w'. ListEvents R S F numCPU C K as_time token (loaded s1 s2 s3) puts q startTime endTime pg w = (Inr r, w')))"
    (is "?ends \<and> _")
proof (intro conjI impI)
  have some: "list_keys R S F numCPU (loaded s1 s2 s3) puts (as_time startTime) (as_time endTime) (Some g) now pg \<noteq> None"
    if g: "ParseFilter q = Inr g" for g now
  proof (cases "filter_errors (Some g) = [] \<or> set (indices (loaded s1 s2 s3)) \<subseteq> {None}")
    case True
    from keys_sound [OF assms(1-4) parsed_wf [OF g] True assms(5,6)] show ?thesis by (metis option.distinct(1))
  next
    case False
    then obtain err es where "filter_errors (Some g) = err # es" by (cases "filter_errors (Some g)") auto
    with keys_error [OF assms(1,2,4) parsed_wf [OF g] assms(5)] False show ?thesis by (metis option.distinct(1))
  qed
  show ?ends by (rule no_panic_list [unfolded no_panic_def, rule_format]) (rule some)
next
  assume "ParseFilter q = Inr f" "filter_errors (Some f) = []" "yt_GenerateTimestamp C (wd_yt w) = (Inr ts, y)"
    "readable C K as_time ts y (fst ` set (item_rows (sy_accepted s4)))" "\<forall>k. \<exists>t. token k = Inr t"
  then show "\<exists>r w'. ListEvents R S F numCPU C K as_time token (loaded s1 s2 s3) puts q startTime endTime pg w = (Inr r, w')"
    by (rule listing_answered [OF assms])
qed

text \<open>An event that a listing finds is in the response, unless the page is full; then the response has
  the token of a next page. Nothing else was written with the id of the event, and the call
  returned a response.\<close>
lemma listing_complete:
  assumes "roaring_bitmap R" and "skip_list S made" and "bloom_filter F" and "during_run R S F as_time s1 s2 s3 s4 puts"
    and "0 < numCPU" and "0 \<le> sint pg" and "ParseFilter q = Inr f" and "filter_errors (Some f) = []"
    and "ListEvents R S F numCPU C K as_time token (loaded s1 s2 s3) puts q startTime endTime pg w = (Inr r, w')"
    and "yt_GenerateTimestamp C (wd_yt w) = (Inr ts, y)" and "answers C K as_time ts y (fst row)" and "\<forall>k. token k \<noteq> Inr []"
    and "\<forall>x \<in> set (sy_accepted s4). key_ID (fst x) = ev_Id (fst row) \<longrightarrow> x = table_write F as_time row" and "converting (sy_writer s1) = None"
    and "table_write F as_time row \<in> set (sy_accepted s1)" and "table_write F as_time row \<notin> set (pending_items (sy_writer s1))"
    and "\<not> snd (snd row)" and "fst (snd row) \<le> ts" and "row_matches as_time (as_time startTime) (as_time endTime) (Some f) row"
  shows "fst row \<in> set (ls_Events r) \<or> ls_NextPageToken r \<noteq> []"
proof -
  obtain f' ts' y' keys where g: "ParseFilter q = Inr f'" "yt_GenerateTimestamp C (wd_yt w) = (Inr ts', y')"
    and keys': "list_keys R S F numCPU (loaded s1 s2 s3) puts (as_time startTime) (as_time endTime) (Some f') ts' pg = Some (Inr keys)"
    and did: "keys = [] \<and> ls_Events r = [] \<or>
      (\<exists>rs nt m z. keys \<noteq> [] \<and> yt_LookupRows C eventsTable (map AKey (map key_row_key (page_of pg keys))) ts' y' = (Inr (rs, nt), z) \<and>
        (\<forall>i e. m i = Some e \<longrightarrow> ev_Id e = i \<and> (\<exists>r \<in> set rs. decodes K nt r e)) \<and>
        (\<forall>r \<in> set rs. \<exists>e. decodes K nt r e \<and> m (ev_Id e) \<noteq> None) \<and> ls_Events r = found_events m (page_of pg keys) \<and>
        (int (length keys) = page_size pg \<longrightarrow> token (last keys) = Inr (ls_NextPageToken r)))"
    by (rule ListEvents_did [OF assms(9)])
  have same: "f' = f" "ts' = ts" "y' = y" using g assms(7,10) by simp_all
  note keys = keys' [unfolded same]
  note size = list_keys_bounded [OF keys]
  then have "0 \<le> page_size pg" by linarith
  have "0 < page_size pg" using \<open>0 \<le> page_size pg\<close> assms(6) by (simp add: page_size_eq split: if_splits)
  note complete = keys_complete [OF assms(1-4) parsed_wf [OF assms(7)] assms(8,5) \<open>0 \<le> page_size pg\<close> assms(13,14) keys _ assms(15-19)]
  show ?thesis
  proof (cases "int (length keys) < page_size pg")
    case True
    from complete [OF this] obtain k where
      k: "k \<in> set keys" "key_of F as_time (walked S s1 puts) (as_time startTime) (as_time endTime) (Some f) row k" by blast
    have page: "page_of pg keys = keys" using True by (simp add: page_of_def)
    from did k(1) obtain rs nt m z where look: "yt_LookupRows C eventsTable (map AKey (map key_row_key keys)) ts y = (Inr (rs, nt), z)"
      and m: "\<forall>i e. m i = Some e \<longrightarrow> ev_Id e = i \<and> (\<exists>r \<in> set rs. decodes K nt r e)"
        "\<forall>r \<in> set rs. \<exists>e. decodes K nt r e \<and> m (ev_Id e) \<noteq> None" "ls_Events r = found_events m keys"
      by (auto simp: page same)
    have "event_row_key as_time (fst row) \<in> set (map key_row_key keys)" using k key_of_row_key [OF k(2)] by force
    with assms(11) [unfolded answers_def, rule_format, OF look] obtain x where
      x: "x \<in> set rs" "decodes K nt x (fst row)" and only: "\<forall>x \<in> set rs. \<forall>e. decodes K nt x e \<longrightarrow> ev_Id e = ev_Id (fst row) \<longrightarrow> e = fst row"
      by blast
    from m(2) x obtain e where "decodes K nt x e" "m (ev_Id e) \<noteq> None" by blast
    with decodes_unique [OF x(2)] obtain e' where "m (ev_Id (fst row)) = Some e'" by auto
    with m(1) only have "m (ev_Id (fst row)) = Some (fst row)" by blast
    moreover have "key_ID k = ev_Id (fst row)" using key_of_view [OF k(2)] by blast
    ultimately have "fst row \<in> set (ls_Events r)" using k(1) unfolding m(3) found_events_mem by metis
    then show ?thesis ..
  next
    case False
    with size have full: "int (length keys) = page_size pg" by simp
    with \<open>0 < page_size pg\<close> have "keys \<noteq> []" by auto
    with did full assms(12) show ?thesis by auto
  qed
qed

text \<open>C1: An event that was created is listed. A call of \<open>BatchCreateEvents\<close> has succeeded, its request was
  taken by the write worker and put into the table, and then a call of \<open>ListEvents\<close> returns a response while the
  two workers go on, the table grows, and other events are created, updated and deleted. The event of each request,
  with its new id, is among the events of the response, or the response has the token of a next page.
  The conditions. On the run: the process is running, and no table is being converted, when the table is loaded (during a
  conversion events are missed: \<open>conversion_hides\<close>); the timer does not fire while a flushed index is removed; no version is
  written twice; nothing else is written with the new id, neither an update nor a deletion. On the call: the filter
  has no ill-typed restriction, the page size is not negative, the event matches the filter and its time span the asked one, and
  its commit is not after the timestamp of the listing. On the cluster and the tokens: a lookup of the key
  of the event answers it, and no token is empty.\<close>
theorem created_event_listed:
  assumes "roaring_bitmap R" and "skip_list S made" and "bloom_filter F" and "during_run R S F as_time s1 s2 s3 s4 puts"
    and "0 < numCPU" and "0 \<le> sint pg" and "ParseFilter q = Inr f" and "filter_errors (Some f) = []"
    and "ListEvents R S F numCPU C K as_time token (loaded s1 s2 s3) puts q startTime endTime pg w = (Inr r, w')"
    and "yt_GenerateTimestamp C (wd_yt w) = (Inr ts, y)" and "answers C K as_time ts y (e\<lparr>ev_Id := uuids i\<rparr>)" and "\<forall>k. token k \<noteq> Inr []"
    and once: "\<forall>x \<in> set (sy_accepted s4). \<forall>x' \<in> set (sy_accepted s4).
      key_ID (fst x) = uuids i \<longrightarrow> key_ID (fst x') = uuids i \<longrightarrow> x = x'" and "converting (sy_writer s1) = None"
    and created: "BatchCreateEvents C K F as_time uuids outcome reqs u = (Inr events, u')" "wd_sent u' = wd_sent u @ [batch]"
    and taken: "set batch \<subseteq> set (sy_accepted s1)" "set batch \<inter> set (pending_items (sy_writer s1)) = {}"
    and before: "\<forall>x \<in> set batch. key_Timestamp (fst x) \<le> ts"
    and request: "i < length reqs" "reqs ! i = Some e"
    and matches: "row_matches as_time (as_time startTime) (as_time endTime) (Some f) (e\<lparr>ev_Id := uuids i\<rparr>, ts, False)"
  shows "e\<lparr>ev_Id := uuids i\<rparr> \<in> set (ls_Events r) \<or> ls_NextPageToken r \<noteq> []"
proof -
  let ?e = "e\<lparr>ev_Id := uuids i\<rparr>"
  from create_returns(3) [OF created(1)] created(2) obtain t where
    batch: "batch = map (\<lambda>e. table_write F as_time (e, t, False)) events" by auto
  have "events ! i = ?e" "i < length events"
    unfolding create_returns(2) [OF created(1)] using request by (simp_all add: with_ids_def nth_enumerate_eq)
  then have "?e \<in> set events" by (metis nth_mem)
  then have x: "table_write F as_time (?e, t, False) \<in> set batch" unfolding batch by simp
  have m: "row_matches as_time (as_time startTime) (as_time endTime) (Some f) (?e, t, False)"
    using matches by (simp add: row_matches_def row_start_def row_end_def)
  have t: "t \<le> ts" using before x by fastforce
  have pending: "table_write F as_time (?e, t, False) \<notin> set (pending_items (sy_writer s1))" using x taken(2) by blast
  have acc: "table_write F as_time (?e, t, False) \<in> set (sy_accepted s1)" using x taken(1) by blast
  have "prefix (sy_accepted s1) (sy_accepted s4)"
    using assms(4) unfolding during_run_def by (meson prefix_order.trans steps_accepted)
  with acc set_mono_prefix have "table_write F as_time (?e, t, False) \<in> set (sy_accepted s4)" by blast
  with once have "\<forall>x \<in> set (sy_accepted s4). key_ID (fst x) = ev_Id ?e \<longrightarrow> x = table_write F as_time (?e, t, False)" by simp
  then show ?thesis
    using listing_complete [OF assms(1-10), where row = "(?e, t, False)"] assms(11,12,14) acc pending t m by simp
qed

text \<open>The sample listing.\<close>

lemma sample_list_samples:
  "filter_errors (Some (the sample_filter)) = []" "0 \<le> sint (10 :: u32)"
  "yt_GenerateTimestamp sample_client (wd_yt \<lparr>wd_yt = 8, wd_sent = sent\<rparr>) = (Inr 8, 9)"
  "Some (the sample_filter) = sample_filter"
  by (simp_all add: sample_filter_def filter_errors_def error_of_def arg_value_def sample_client_def)

lemma sample_listed:
  "\<exists>r w'. ListEvents list_roaring list_skiplist list_bloom 1 sample_client sample_store sample_as_time (\<lambda>_. Inr ''t'')
      (loaded sample_taken sample_taken sample_taken) [map (table_write list_bloom sample_as_time) [sample_a]] ''tags=\"x\"''
      (Some (sample_time 0)) (Some (sample_time 300)) 10 \<lparr>wd_yt = 8, wd_sent = [[table_write list_bloom sample_as_time sample_a]]\<rparr> = (Inr r, w')"
  by (rule listing_answered [OF list_roaring_ok list_skiplist_ok list_bloom_ok sample_during_run _ _ sample_parse sample_list_samples(1,3)])
    (simp_all add: sample_taken_ok sample_cluster(3))

theorem listing_sound_witness:
  "\<exists>r w'. ListEvents list_roaring list_skiplist list_bloom 1 sample_client sample_store sample_as_time (\<lambda>_. Inr ''t'')
      (loaded sample_taken sample_taken sample_taken) [map (table_write list_bloom sample_as_time) [sample_a]] ''tags=\"x\"''
      (Some (sample_time 0)) (Some (sample_time 300)) 10 \<lparr>wd_yt = 8, wd_sent = [[table_write list_bloom sample_as_time sample_a]]\<rparr> = (Inr r, w') \<and>
    set (ls_Events r) \<subseteq> {fst sample_a}"
proof -
  obtain r w' where r: "ListEvents list_roaring list_skiplist list_bloom 1 sample_client sample_store sample_as_time (\<lambda>_. Inr ''t'')
      (loaded sample_taken sample_taken sample_taken) [map (table_write list_bloom sample_as_time) [sample_a]] ''tags=\"x\"''
      (Some (sample_time 0)) (Some (sample_time 300)) 10 \<lparr>wd_yt = 8, wd_sent = [[table_write list_bloom sample_as_time sample_a]]\<rparr> = (Inr r, w')"
    using sample_listed by blast
  from listing_sound [OF list_roaring_ok list_skiplist_ok list_bloom_ok sample_during_run _ sample_list_samples(3) sample_cluster(1) r]
  have "set (ls_Events r) \<subseteq> {fst sample_a}" by auto
  with r show ?thesis by blast
qed

theorem created_event_listed_witness:
  "\<exists>u' r w'. BatchCreateEvents sample_client sample_store list_bloom sample_as_time (\<lambda>_. ev_Id (fst sample_a)) Answered
      [Some (fst sample_a)] \<lparr>wd_yt = 6, wd_sent = []\<rparr> = (Inr [fst sample_a], u') \<and>
    ListEvents list_roaring list_skiplist list_bloom 1 sample_client sample_store sample_as_time (\<lambda>_. Inr ''t'')
      (loaded sample_taken sample_taken sample_taken) [map (table_write list_bloom sample_as_time) [sample_a]] ''tags=\"x\"''
      (Some (sample_time 0)) (Some (sample_time 300)) 10 u' = (Inr r, w') \<and>
    (fst sample_a \<in> set (ls_Events r) \<or> ls_NextPageToken r \<noteq> [])"
proof -
  let ?u = "\<lparr>wd_yt = 8, wd_sent = [[table_write list_bloom sample_as_time sample_a]]\<rparr>"
  have create: "BatchCreateEvents sample_client sample_store list_bloom sample_as_time (\<lambda>_. ev_Id (fst sample_a)) Answered
      [Some (fst sample_a)] \<lparr>wd_yt = 6, wd_sent = []\<rparr> = (Inr [fst sample_a], ?u)"
    by (simp add: BatchCreateEvents_def call_defs insert_or_abort_def sample_client_def sample_store_def sample_codec_def
        table_write_def sample_a_def Let_def sample_event_def)
  obtain r w' where r: "ListEvents list_roaring list_skiplist list_bloom 1 sample_client sample_store sample_as_time (\<lambda>_. Inr ''t'')
      (loaded sample_taken sample_taken sample_taken) [map (table_write list_bloom sample_as_time) [sample_a]] ''tags=\"x\"''
      (Some (sample_time 0)) (Some (sample_time 300)) 10 ?u = (Inr r, w')" using sample_listed by blast
  have t: "sample_as_time (Some (sample_time 0)) = sample_time 0" "sample_as_time (Some (sample_time 300)) = sample_time 300"
    by (simp_all add: sample_as_time_def)
  have acc: "sy_accepted sample_taken = [table_write list_bloom sample_as_time sample_a]"
    by (simp add: sample_taken_def young_def)
  have m: "row_matches sample_as_time (sample_time 0) (sample_time 300) sample_filter (fst sample_a, 8, False)"
    using sample_matches(1) by (simp add: row_matches_def row_start_def row_end_def)
  have a: "key_Timestamp (fst (table_write list_bloom sample_as_time sample_a)) \<le> 8" by (simp add: sample_a_def)
  from created_event_listed [OF list_roaring_ok list_skiplist_ok list_bloom_ok sample_during_run _ sample_list_samples(2) sample_parse
      sample_list_samples(1) r sample_list_samples(3) _ _ _ _ create,
      where e = "fst sample_a" and i = 0 and batch = "[table_write list_bloom sample_as_time sample_a]"]
    sample_cluster(2) [of 8 9] m a create r
  show ?thesis by (auto simp: sample_taken_ok t acc sample_list_samples(4))
qed

theorem listing_returns_witness:
  "\<exists>r w'. ListEvents list_roaring list_skiplist list_bloom 1 sample_client sample_store sample_as_time (\<lambda>_. Inr ''t'')
      (loaded sample_taken sample_taken sample_taken) [map (table_write list_bloom sample_as_time) [sample_a]] ''tags=\"x\"''
      (Some (sample_time 0)) (Some (sample_time 300)) 10 \<lparr>wd_yt = 8, wd_sent = [[table_write list_bloom sample_as_time sample_a]]\<rparr> = (Inr r, w')"
  using listing_returns [OF list_roaring_ok list_skiplist_ok list_bloom_ok sample_during_run, of 1 10 sample_client sample_store "\<lambda>_. Inr ''t''"
      "''tags=\"x\"''" "Some (sample_time 0)" "Some (sample_time 300)" "\<lparr>wd_yt = 8, wd_sent = [[table_write list_bloom sample_as_time sample_a]]\<rparr>"
      "the sample_filter" 8 9] sample_parse sample_list_samples sample_cluster(3) [of 8 9]
  by (simp add: sample_taken_ok)
subsection \<open>Deletions\<close>

text \<open>What a cluster does with a deletion. A row whose deletion a transaction has taken is pending in it, and gone once the
  transaction is committed; it stays gone in the later states, as long as the row is not written again, and
  a lookup at a timestamp that is not before the commit does not return it.\<close>

definition forgets :: "('y, 'g, 'r, 'n) yt_client \<Rightarrow> ('ts, 'r, 'n) codec \<Rightarrow> ('ts option \<Rightarrow> go_time) \<Rightarrow>
    ('g \<Rightarrow> EventRowKey \<Rightarrow> 'y \<Rightarrow> bool) \<Rightarrow> (EventRowKey \<Rightarrow> u64 \<Rightarrow> 'y \<Rightarrow> bool) \<Rightarrow> (EventRowKey \<Rightarrow> 'y \<Rightarrow> 'y \<Rightarrow> bool) \<Rightarrow> bool" where
  "forgets C K as_time pending gone later \<longleftrightarrow>
     (\<forall>tx key y y'. yt_DeleteRows C tx eventsTable [AKey key] y = (Inr (), y') \<longrightarrow> pending tx key y') \<and>
     (\<forall>tx key path rows y r y'. pending tx key y \<longrightarrow> yt_DeleteRows C tx path rows y = (r, y') \<longrightarrow> pending tx key y') \<and>
     (\<forall>tx key y ts y'. pending tx key y \<longrightarrow> yt_CommitTabletTx C tx y = (Inr ts, y') \<longrightarrow> gone key ts y') \<and>
     (\<forall>key ts y z. gone key ts y \<longrightarrow> later key y z \<longrightarrow> gone key ts z) \<and>
     (\<forall>key ts y r y'. gone key ts y \<longrightarrow> yt_GenerateTimestamp C y = (r, y') \<longrightarrow> gone key ts y') \<and>
     (\<forall>key ts now keys y rs nt y'. gone key ts y \<longrightarrow> ts \<le> now \<longrightarrow>
        yt_LookupRows C eventsTable (map AKey keys) now y = (Inr (rs, nt), y') \<longrightarrow>
        (\<forall>r \<in> set rs. \<forall>e. decodes K nt r e \<longrightarrow> event_row_key as_time e \<noteq> key))"

lemma forgetsD:
  assumes "forgets C K as_time pending gone later"
  shows "yt_DeleteRows C tx eventsTable [AKey key] y = (Inr (), y') \<Longrightarrow> pending tx key y'"
    and "pending tx key y \<Longrightarrow> yt_DeleteRows C tx path rows y = (r, y') \<Longrightarrow> pending tx key y'"
    and "pending tx key y \<Longrightarrow> yt_CommitTabletTx C tx y = (Inr ts, y') \<Longrightarrow> gone key ts y'"
    and "gone key ts y \<Longrightarrow> later key y z \<Longrightarrow> gone key ts z"
    and "gone key ts y \<Longrightarrow> yt_GenerateTimestamp C y = (r', y') \<Longrightarrow> gone key ts y'"
    and "gone key ts y \<Longrightarrow> ts \<le> now \<Longrightarrow> yt_LookupRows C eventsTable (map AKey keys) now y = (Inr (rs, nt), y') \<Longrightarrow>
      x \<in> set rs \<Longrightarrow> decodes K nt x e \<Longrightarrow> event_row_key as_time e \<noteq> key"
proof -
  note law = assms [unfolded forgets_def]
  note rest = law [THEN conjunct2] law [THEN conjunct2, THEN conjunct2] law [THEN conjunct2, THEN conjunct2, THEN conjunct2]
  show "yt_DeleteRows C tx eventsTable [AKey key] y = (Inr (), y') \<Longrightarrow> pending tx key y'"
    by (rule law [THEN conjunct1, rule_format])
  show "pending tx key y \<Longrightarrow> yt_DeleteRows C tx path rows y = (r, y') \<Longrightarrow> pending tx key y'"
    by (rule rest(1) [THEN conjunct1, rule_format])
  show "pending tx key y \<Longrightarrow> yt_CommitTabletTx C tx y = (Inr ts, y') \<Longrightarrow> gone key ts y'"
    by (rule rest(2) [THEN conjunct1, rule_format])
  show "gone key ts y \<Longrightarrow> later key y z \<Longrightarrow> gone key ts z"
    by (rule rest(3) [THEN conjunct1, rule_format])
  show "gone key ts y \<Longrightarrow> yt_GenerateTimestamp C y = (r', y') \<Longrightarrow> gone key ts y'"
    by (rule rest(3) [THEN conjunct2, THEN conjunct1, rule_format])
  show "gone key ts y \<Longrightarrow> ts \<le> now \<Longrightarrow> yt_LookupRows C eventsTable (map AKey keys) now y = (Inr (rs, nt), y') \<Longrightarrow>
      x \<in> set rs \<Longrightarrow> decodes K nt x e \<Longrightarrow> event_row_key as_time e \<noteq> key"
    by (rule rest(3) [THEN conjunct2, THEN conjunct2, rule_format])
qed

lemma tombstone_key_inj:
  assumes k: "tombstone_key key ts = tombstone_key key' ts'"
  shows "key = key' \<and> ts = ts'"
proof -
  from k have "UnixMicro (time_UnixMicro (rk_StartTime key)) = UnixMicro (time_UnixMicro (rk_StartTime key'))"
    by (simp add: tombstone_key_def)
  then have "rk_StartTime key = rk_StartTime key'" by (simp only: UnixMicro_time_UnixMicro)
  with k show ?thesis by (cases key; cases key') (simp add: tombstone_key_def)
qed

lemma client_Inr: "client fail op w = (Inr x, w') \<Longrightarrow> op (wd_yt w) = (Inr x, wd_yt w') \<and> wd_sent w' = wd_sent w"
  by (auto simp: client_def split: prod.splits sum.splits)

lemma submit_Inr: "submit outcome batch w = (Inr x, w') \<Longrightarrow> wd_yt w' = wd_yt w \<and> wd_sent w' = wd_sent w @ [batch]"
  by (cases outcome) (auto simp: submit_def)

text \<open>After a deletion that succeeded the row is gone as of its commit.\<close>

lemma delete_forgets:
  assumes laws: "forgets C K as_time pending gone later" and del: "DeleteEvent C K F outcome i u = (Inr (), u')"
    and sent: "wd_sent u' = wd_sent u @ [[tombstone F key ts]]"
  shows "gone key ts (wd_yt u')"
proof -
  from call_then_Inr [OF del [unfolded DeleteEvent_def]] obtain tx t0 v where
    tx: "client StartTxFail (yt_StartTabletTx C) u = (Inr (tx, t0), v)"
    and d1: "call_then (lookup_key C K i t0) (\<lambda>key.
      call_then (client DeleteFail (yt_DeleteRows C tx eventsTable [AKey key])) (\<lambda>_.
      call_then (client DeleteIdxFail (yt_DeleteRows C tx eventsIdUniqIndexTable [AIndex \<lparr>ik_ID = i\<rparr>])) (\<lambda>_.
      call_then (client CommitFail (yt_CommitTabletTx C tx)) (\<lambda>ts. submit outcome [tombstone F key ts])))) v = (Inr (), u')"
    by auto
  from call_then_Inr [OF d1] obtain k v1 where
    k: "lookup_key C K i t0 v = (Inr k, v1)"
    and d2: "call_then (client DeleteFail (yt_DeleteRows C tx eventsTable [AKey k])) (\<lambda>_.
      call_then (client DeleteIdxFail (yt_DeleteRows C tx eventsIdUniqIndexTable [AIndex \<lparr>ik_ID = i\<rparr>])) (\<lambda>_.
      call_then (client CommitFail (yt_CommitTabletTx C tx)) (\<lambda>ts. submit outcome [tombstone F k ts]))) v1 = (Inr (), u')" by blast
  from call_then_Inr [OF d2] obtain v2 where
    del1: "client DeleteFail (yt_DeleteRows C tx eventsTable [AKey k]) v1 = (Inr (), v2)"
    and d3: "call_then (client DeleteIdxFail (yt_DeleteRows C tx eventsIdUniqIndexTable [AIndex \<lparr>ik_ID = i\<rparr>])) (\<lambda>_.
      call_then (client CommitFail (yt_CommitTabletTx C tx)) (\<lambda>ts. submit outcome [tombstone F k ts])) v2 = (Inr (), u')" by auto
  from call_then_Inr [OF d3] obtain v3 where
    del2: "client DeleteIdxFail (yt_DeleteRows C tx eventsIdUniqIndexTable [AIndex \<lparr>ik_ID = i\<rparr>]) v2 = (Inr (), v3)"
    and d4: "call_then (client CommitFail (yt_CommitTabletTx C tx)) (\<lambda>ts. submit outcome [tombstone F k ts]) v3 = (Inr (), u')" by auto
  from call_then_Inr [OF d4] obtain t v4 where
    com: "client CommitFail (yt_CommitTabletTx C tx) v3 = (Inr t, v4)" and sub: "submit outcome [tombstone F k t] v4 = (Inr (), u')" by auto
  have "wd_sent v1 = wd_sent v"
    using keeps_sent_lookup(2) [of C K i t0] k unfolding keeps_sent_def by (metis snd_conv)
  then have "wd_sent v4 = wd_sent u"
    using client_Inr [OF tx] client_Inr [OF del1] client_Inr [OF del2] client_Inr [OF com] by simp
  with submit_Inr [OF sub] sent have "tombstone_key k t = tombstone_key key ts" by (simp add: tombstone_def)
  then have same: "k = key" "t = ts" using tombstone_key_inj by blast+
  note laws = forgetsD [OF laws]
  have "pending tx k (wd_yt v2)" using laws(1) client_Inr [OF del1] by blast
  then have "pending tx k (wd_yt v3)" using laws(2) client_Inr [OF del2] by blast
  then have "gone k t (wd_yt v4)" using laws(3) client_Inr [OF com] by blast
  with submit_Inr [OF sub] same show ?thesis by simp
qed

text \<open>C14: A deleted event is not listed again. When a call of \<open>DeleteEvent\<close> has succeeded, no later call of
  \<open>ListEvents\<close> that returns a response, at a timestamp not before the commit of the deletion, shows an event at the row
  key the deletion has found for the id. It holds whatever the table, the waiting indices and the levels hold: the
  tombstone hides nothing that an index holds, but the row is gone from the table of the events, and
  the lookup of the listing drops the event. The conditions are on the cluster: a deletion that was committed
  takes the row away from the later lookups, until it is written again.\<close>
theorem deleted_event_not_listed:
  assumes "forgets C K as_time pending gone later" and "DeleteEvent C K F outcome i u = (Inr (), u')"
    and "wd_sent u' = wd_sent u @ [[tombstone F key ts]]" and "later key (wd_yt u') (wd_yt w)"
    and "yt_GenerateTimestamp C (wd_yt w) = (Inr now, y)" and "ts \<le> now"
    and "ListEvents R S F' numCPU C K as_time token st puts q startTime endTime pg w = (Inr r, w')"
  shows "\<forall>e \<in> set (ls_Events r). event_row_key as_time e \<noteq> key"
proof
  note laws = forgetsD [OF assms(1)]
  note gone = laws(5) [OF laws(4) [OF delete_forgets [OF assms(1-3)] assms(4)] assms(5)]
  obtain f ts' y' keys where gen: "yt_GenerateTimestamp C (wd_yt w) = (Inr ts', y')"
    and did: "keys = [] \<and> ls_Events r = [] \<or>
      (\<exists>rs nt m z. keys \<noteq> [] \<and> yt_LookupRows C eventsTable (map AKey (map key_row_key (page_of pg keys))) ts' y' = (Inr (rs, nt), z) \<and>
        (\<forall>i e. m i = Some e \<longrightarrow> ev_Id e = i \<and> (\<exists>r \<in> set rs. decodes K nt r e)) \<and>
        (\<forall>r \<in> set rs. \<exists>e. decodes K nt r e \<and> m (ev_Id e) \<noteq> None) \<and> ls_Events r = found_events m (page_of pg keys) \<and>
        (int (length keys) = page_size pg \<longrightarrow> token (last keys) = Inr (ls_NextPageToken r)))"
    by (rule ListEvents_did [OF assms(7)])
  have same: "ts' = now" "y' = y" using gen assms(5) by simp_all
  fix e assume "e \<in> set (ls_Events r)"
  with did obtain rs nt z where
    look: "yt_LookupRows C eventsTable (map AKey (map key_row_key (page_of pg keys))) now y = (Inr (rs, nt), z)"
    and dec: "\<exists>x \<in> set rs. decodes K nt x e" by (fastforce simp: found_events_mem same)
  from dec laws(6) [OF gone assms(6) look] show "event_row_key as_time e \<noteq> key" by blast
qed

text \<open>A cluster with one event: its state is the next timestamp and the deleted keys.\<close>

definition sample_deleting :: "(u64 \<times> EventRowKey list, unit, any_row, unit) yt_client" where
  "sample_deleting = \<lparr>yt_GenerateTimestamp = (\<lambda>(n, d). (Inr n, (n + 1, d))), yt_StartTabletTx = (\<lambda>(n, d). (Inr ((), n), (n + 1, d))),
     yt_CommitTabletTx = (\<lambda>_ (n, d). (Inr n, (n + 1, d))), yt_AbortTabletTx = (\<lambda>_ y. (Inr (), y)),
     yt_InsertRows = (\<lambda>_ _ _ y. (Inr (), y)),
     yt_DeleteRows = (\<lambda>_ path rows (n, d). (Inr (),
       (n, if path = eventsTable then List.map_filter (\<lambda>r. case r of AKey k \<Rightarrow> Some k | _ \<Rightarrow> None) rows @ d else d))),
     yt_LookupRows = (\<lambda>path rows _ (n, d). (Inr (if path = eventsTable then filter (\<lambda>r. r \<notin> AKey ` set d) rows
       else [AKey (event_row_key sample_as_time (fst sample_a))], ()), (n, d)))\<rparr>"

lemma sample_forgets:
  "forgets sample_deleting sample_store sample_as_time (\<lambda>_ key y. key \<in> set (snd y)) (\<lambda>key _ y. key \<in> set (snd y)) (\<lambda>key y z. z = y)"
  unfolding forgets_def
  by (intro conjI allI impI; auto simp: sample_deleting_def map_filter_simps sample_decodes split: if_splits)

theorem deleted_event_not_listed_witness:
  "\<exists>u' r w'. DeleteEvent sample_deleting sample_store list_bloom Answered ''a'' \<lparr>wd_yt = (8, []), wd_sent = []\<rparr> = (Inr (), u') \<and>
    ListEvents list_roaring list_skiplist list_bloom 1 sample_deleting sample_store sample_as_time (\<lambda>_. Inr ''t'')
      (loaded sample_taken sample_taken sample_taken) [] ''tags=\"x\"'' (Some (sample_time 0)) (Some (sample_time 300)) 10 u' = (Inr r, w') \<and>
    fst sample_a \<notin> set (ls_Events r)"
proof -
  let ?k = "event_row_key sample_as_time (fst sample_a)"
  let ?u = "\<lparr>wd_yt = (10, [?k]), wd_sent = [[tombstone list_bloom ?k 9 :: (go_time, string list) writeItem]]\<rparr>"
  have p: "eventsIdUniqIndexTable \<noteq> eventsTable" by (simp add: eventsTable_def eventsIdUniqIndexTable_def)
  have del: "DeleteEvent sample_deleting sample_store list_bloom Answered ''a'' \<lparr>wd_yt = (8, []), wd_sent = []\<rparr> = (Inr (), ?u)"
    by (simp add: DeleteEvent_def lookup_key_def lookup_one_def call_defs sample_deleting_def map_filter_simps p sample_store_def sample_codec_def)
  have run: "during_run list_roaring list_skiplist list_bloom sample_as_time sample_taken sample_taken sample_taken sample_taken []"
    using sample_during_run by (simp add: during_run_def)
  have gen: "yt_GenerateTimestamp sample_deleting (wd_yt ?u) = (Inr 10, (11, [?k]))" by (simp add: sample_deleting_def)
  have "readable sample_deleting sample_store sample_as_time 10 (11, [?k]) (fst ` set (item_rows (sy_accepted sample_taken)))"
    unfolding readable_def sample_taken_ok(3)
    by (auto simp: sample_deleting_def sample_decodes intro!: exI [of _ "fst sample_a"])
  from listing_answered [OF list_roaring_ok list_skiplist_ok list_bloom_ok run _ _ sample_parse sample_list_samples(1) gen this, of 1 10 "\<lambda>_. Inr ''t''"
      "Some (sample_time 0)" "Some (sample_time 300)"]
  obtain r w' where r: "ListEvents list_roaring list_skiplist list_bloom 1 sample_deleting sample_store sample_as_time (\<lambda>_. Inr ''t'')
      (loaded sample_taken sample_taken sample_taken) [] ''tags=\"x\"'' (Some (sample_time 0)) (Some (sample_time 300)) 10 ?u = (Inr r, w')"
    by (auto simp: sample_taken_ok)
  from deleted_event_not_listed [OF sample_forgets del _ _ gen _ r, of ?k 9] have "fst sample_a \<notin> set (ls_Events r)" by auto
  with del r show ?thesis by blast
qed

subsection \<open>Filters and versions\<close>

text \<open>C24: A listing filters before it looks for the newest version. When an index holds a version of an event
  that matches and the table holds a newer one, of the same start time, that does not, the key is
  still listed, in the old version; the newer one does not hide it.\<close>
theorem stale_version_listed:
  assumes "roaring_bitmap R" and "bloom_filter F" and "wf_filter flt" and "filter_errors flt = []" and "0 < numCPU"
    and "st_pen st = []" and "st_levels st = [Some ri, None, None, None]" and "ri_rep R as_time ri rows"
    and "distinct (map (ev_Id \<circ> fst) rows)" and "int (length rows) < page_size pg"
    and "(e, ts, False) \<in> set rows" and "row_matches as_time startTime endTime flt (e, ts, False)"
    and "st_cur st = put_all S [table_write F as_time (e', ts', False)]"
    and "ev_Id e' = ev_Id e" and "ev_StartTime e' = ev_StartTime e" and "ev_ok e'"
    and "ts < ts'" and "ts' \<le> now" and "\<not> filter_holds (event_sat e') flt" and "skip_list S made"
  shows "\<exists>keys. list_keys R S F numCPU st [] startTime endTime flt now pg = Some (Inr keys) \<and>
    row_key as_time (e, ts, False) \<in> set keys"
proof -
  let ?x = "table_write F as_time (e', ts', False)" and ?w = "live_left S F (st_cur st, [], NewMemTableIterator flt now)"
  have no_match: "matchMemTableItem F flt (snd ?x) = Inr False"
    using bloom_filter.match_item [OF assms(2,16,4)] assms(19) by (simp add: table_write_def)
  have made: "made memTable_compare (mt_items (st_cur st))" "version_sorted (map fst (sl_items S (mt_items (st_cur st))))"
    unfolding assms(13) by (rule put_all_made [OF assms(20)], rule put_all_sorted [OF assms(20)])
  note start = live_start [OF assms(20) made, where f = flt and ts = now]
  have "mset (sl_items S (mt_items (st_cur st))) = mset [?x]"
    unfolding assms(13) by (rule put_all_items [OF assms(20)]) simp
  then have items: "set (sl_items S (mt_items (st_cur st))) = {?x}" by simp
  have "k \<notin> set ?w" for k
  proof
    assume "k \<in> set ?w"
    from live_left_sound [OF start(1) _ _ _ this, of "{?x}"] items start(4) obtain v where
      "(k, v) = ?x" "matchMemTableItem F flt v = Inr True" by (auto simp: one_version_def)
    with no_match show False by (metis Inr_inject snd_conv)
  qed
  then have mem: "?w = []" by (cases ?w) auto
  have ind: "indices st = [Some ri, None, None, None]" by (simp add: indices_def assms(6,7))
  have "0 \<le> page_size pg" using assms(10) by linarith
  from list_keys_ok [where P = "\<lambda>r. r = rows" and as_time = as_time and F = F and ts = now and puts = "[]",
      OF assms(1,3) disjI1 [OF assms(4)] assms(5) this assms(20) made, of startTime endTime] obtain ls where
    ls: "list_keys R S F numCPU st [] startTime endTime flt now pg = Some (Inr (take_page (page_size pg) (merge_out (?w # ls))))"
    "\<forall>l \<in> set ls. selects as_time startTime endTime flt now rows l" "length ls = 1"
    using assms(8) by (auto simp: ind)
  then obtain l where l: "ls = [l]" "selects as_time startTime endTime flt now rows l"
    by (cases ls) auto
  let ?keys = "take_page (page_size pg) (merge_out [[], l])"
  have "int (length ?keys) < page_size pg"
  proof -
    have "length (merge_out [[], l]) \<le> length rows"
      using length_merge_out [of "[[], l]"] l(2) by (simp add: selects_def)
    with length_take_page [of "page_size pg" "merge_out [[], l]"] have "length ?keys \<le> length rows" by simp
    then show ?thesis using assms(10) by simp
  qed
  note all = take_page_all [OF this]
  have key: "k = row_key as_time (e, ts, False)" if "k \<in> set l" "key_ID k = ev_Id e" for k
  proof -
    from l(2) that(1) obtain row where row: "row \<in> set rows" "k = row_key as_time row" unfolding selects_def by blast
    with that(2) assms(9,11) have "row = (e, ts, False)" by (auto simp: distinct_map inj_on_def)
    with row(2) show ?thesis by simp
  qed
  have "ts \<le> now" using assms(17,18) by simp
  with l(2) assms(11,12) obtain k where k: "k \<in> set l" "key_ID k = ev_Id e" unfolding selects_def by fastforce
  then have "k \<in> pending_keys [[], l]" by (simp add: pending_keys_def)
  then obtain y where y: "y \<in> set (merge_out [[], l])" "newer k y" using merge_out_newest by blast
  then have "y \<in> set l" "key_ID y = ev_Id e"
    using set_merge_out [of "[[], l]"] key_view_ID [of y k] k(2) by (auto simp: pending_keys_def newer_def)
  from key [OF this] y(1) all [of y] have "row_key as_time (e, ts, False) \<in> set ?keys" by simp
  with ls(1) show ?thesis unfolding mem l(1) by blast
qed

theorem stale_version_listed_witness:
  "\<exists>ri keys. list_keys list_roaring list_skiplist list_bloom 2
      \<lparr>st_cur = put_all list_skiplist [table_write list_bloom sample_as_time ((fst sample_a)\<lparr>ev_Tags := [''y'']\<rparr>, 8, False)],
       st_pen = [], st_levels = [Some ri, None, None, None]\<rparr> [] (sample_time 0) (sample_time 300) sample_filter 9 10 = Some (Inr keys) \<and>
    row_key sample_as_time sample_a \<in> set keys"
proof -
  obtain ri where ri: "ri_rep list_roaring sample_as_time ri [sample_b, sample_a]" using sample_index by blast
  let ?e = "(fst sample_a)\<lparr>ev_Tags := [''y'']\<rparr>"
  let ?st = "\<lparr>st_cur = put_all list_skiplist [table_write list_bloom sample_as_time (?e, 8, False)],
       st_pen = [], st_levels = [Some ri, None, None, None]\<rparr>"
  have a: "sample_a = (fst sample_a, 7, False)" by (simp add: sample_a_def)
  have ids: "distinct (map (ev_Id \<circ> fst) [sample_b, sample_a])" by (simp add: sample_a_def sample_b_def sample_event_def)
  have e: "ev_ok ?e" "\<not> filter_holds (event_sat ?e) sample_filter"
    by (simp_all add: ev_ok_def sample_a_def sample_event_def)
  have "row_matches sample_as_time (sample_time 0) (sample_time 300) sample_filter (fst sample_a, 7, False)"
    using sample_matches(1) a by simp
  from stale_version_listed [OF list_roaring_ok list_bloom_ok sample_filter_ok(1,2) _ _ _ ri ids _ _ this _ _ _ e(1) _ _ e(2) list_skiplist_ok, of 2 ?st 10 8 9] a
  show ?thesis by (auto simp: sample_taken_ok(8))
qed

subsection \<open>Pages\<close>

text \<open>C21: A listing that succeeds returns at most as many events as its page size asks for, none when the
  size is not given, whatever the state of the storage and the answers of the cluster; it changes
  nothing. It does not succeed with a size of \<open>2 ^ 31 - 1\<close>, where adding one wraps, nor below -1.\<close>
theorem page_bounds:
  assumes "ListEvents R S F numCPU C K as_time token st puts flt startTime endTime n w = (Inr r, w')"
  shows "int (length (ls_Events r)) \<le> max 0 (sint n) \<and> -1 \<le> sint n \<and> sint n < 2 ^ 31 - 1 \<and> wd_sent w' = wd_sent w"
proof -
  obtain f ts y keys where
    keys: "list_keys R S F numCPU st puts (as_time startTime) (as_time endTime) (Some f) ts n = Some (Inr keys)"
    and did: "keys = [] \<and> ls_Events r = [] \<or>
      (\<exists>rs nt m y'. keys \<noteq> [] \<and> yt_LookupRows C eventsTable (map AKey (map key_row_key (page_of n keys))) ts y = (Inr (rs, nt), y') \<and>
        (\<forall>i e. m i = Some e \<longrightarrow> ev_Id e = i \<and> (\<exists>r \<in> set rs. decodes K nt r e)) \<and>
        (\<forall>r \<in> set rs. \<exists>e. decodes K nt r e \<and> m (ev_Id e) \<noteq> None) \<and> ls_Events r = found_events m (page_of n keys) \<and>
        (int (length keys) = page_size n \<longrightarrow> token (last keys) = Inr (ls_NextPageToken r)))"
    by (rule ListEvents_did [OF assms])
  have size: "int (length keys) \<le> page_size n" by (rule list_keys_bounded [OF keys])
  have "int (length (page_of n keys)) \<le> max 0 (page_size n - 1)" using size by (auto simp: page_of_def)
  moreover have "length (ls_Events r) \<le> length (page_of n keys)" using did length_found_events by auto
  ultimately have "int (length (ls_Events r)) \<le> max 0 (page_size n - 1)" by linarith
  moreover have "0 \<le> page_size n" using size by simp
  moreover have "wd_sent w' = wd_sent w"
    using keeps_sent_list [of R S F numCPU C K as_time token st puts flt startTime endTime n] assms
    unfolding keeps_sent_def by (metis snd_conv)
  moreover have "sint n < 2 ^ 31" using sint_less [of n] by simp
  ultimately show ?thesis by (auto simp: page_size_eq split: if_splits)
qed

lemma sample_empty_keys:
  "list_keys list_roaring list_skiplist list_bloom 2 (open_storage list_skiplist) [] (sample_time 0) (sample_time 0) sample_filter 7 10 =
     Some (Inr [])"
proof -
  let ?st = "open_storage list_skiplist"
  have none: "indices ?st = [None, None, None, None]" by (simp add: indices_def open_storage_def)
  have items: "sl_items list_skiplist (mt_items (st_cur ?st)) = []"
    by (simp add: open_storage_def newMemTable_def skip_list.new_items [OF list_skiplist_ok])
  then have made: "fst (mt_items (st_cur ?st)) = memTable_compare" "version_sorted (map fst (sl_items list_skiplist (mt_items (st_cur ?st))))"
    by (simp_all add: open_storage_def newMemTable_def list_skiplist_def version_sorted_def)
  have "merge_out [[]] = []" by (simp add: merge_out.simps merge_step_def)
  with list_keys_ok [OF list_roaring_ok sample_filter_ok(1) disjI1 [OF sample_filter_ok(2)] _ _ list_skiplist_ok made, of 2 10 sample_as_time "\<lambda>_. True"
      list_bloom "[]" "sample_time 0" "sample_time 0" 7]
  show ?thesis by (auto simp: none sample_taken_ok(8) take_page_def live_left_nil [OF items])
qed

theorem page_bounds_witness:
  "\<exists>r w'. ListEvents list_roaring list_skiplist list_bloom 2 sample_client sample_codec sample_as_time (\<lambda>_. Inr [])
      (open_storage list_skiplist) [] ''tags=\"x\"'' None None 10 \<lparr>wd_yt = 7, wd_sent = [] :: unit list list\<rparr> = (Inr r, w') \<and>
    int (length (ls_Events r)) \<le> 10"
proof -
  have "sample_as_time None = sample_time 0" "Some (the sample_filter) = sample_filter"
    by (simp_all add: sample_as_time_def sample_filter_def)
  then have "\<exists>r w'. ListEvents list_roaring list_skiplist list_bloom 2 sample_client sample_codec sample_as_time (\<lambda>_. Inr [])
      (open_storage list_skiplist) [] ''tags=\"x\"'' None None 10 \<lparr>wd_yt = 7, wd_sent = [] :: unit list list\<rparr> = (Inr r, w')"
    by (simp add: ListEvents_def sample_parse call_defs sample_client_def sample_empty_keys)
  then obtain r w' where r: "ListEvents list_roaring list_skiplist list_bloom 2 sample_client sample_codec sample_as_time (\<lambda>_. Inr [])
      (open_storage list_skiplist) [] ''tags=\"x\"'' None None 10 \<lparr>wd_yt = 7, wd_sent = [] :: unit list list\<rparr> = (Inr r, w')" by blast
  from page_bounds [OF r] r show ?thesis by auto
qed

end
