(* ===== verification/Write_Spec.thy ===== *)
theory Write_Spec
  imports Rpc_Calls Storage_Spec
begin

text \<open>
  The properties of the calls that write events: the order of commit and request to the write
  worker, what is written, which fields an update takes, and what the tombstones of deletions and
  updates do to the table and to its iterator.
\<close>

subsection \<open>Order and contents\<close>

text \<open>C4: Each of the three calls hands at most one request to the write worker, and only after the commit
  of its transaction, which is then the last operation on the cluster. The items have the
  timestamp of the commit: live items of events from a creation, one tombstone from a deletion,
  the new event and possibly a tombstone from an update. A call that succeeds has handed over its
  request; a call that fails with anything but the end of its context has not.\<close>
theorem commit_first:
  "writes_after_commit C (\<lambda>ts batch. \<exists>es. batch = map (\<lambda>e. table_write F as_time (e, ts, False)) es)
     (BatchCreateEvents C K F as_time uuids outcome reqs) \<and>
   writes_after_commit C (\<lambda>ts batch. \<exists>key. batch = [tombstone F key ts]) (DeleteEvent C K F outcome i) \<and>
   writes_after_commit C (\<lambda>ts batch. \<exists>event key changed. batch = update_writes F as_time event key changed ts)
     (UpdateEvent C K F as_time outcome new paths)"
  by (intro conjI create_writes delete_writes update_writes_commit)

text \<open>C12: Creating events, when the cluster accepts every operation: each event gets the next id, the keys
  go to the index table and the rows to the events table under one transaction, and the write
  worker gets the live items of exactly these events, in order, with the timestamp of the commit.
  When the context ends before the send, the events are committed but never reach the table.\<close>
theorem create_events:
  assumes "events = with_ids uuids 0 es" and "\<forall>e \<in> set events. cd_marshal K e = Inr (bytes e)"
    and "yt_StartTabletTx C (wd_yt w) = (Inr (tx, t0), y1)"
    and "yt_InsertRows C tx eventsIdUniqIndexTable (map (\<lambda>e. AKey (event_row_key as_time e)) events) y1 = (Inr (), y2)"
    and "yt_InsertRows C tx eventsTable (map (\<lambda>e. ARow (event_row as_time e (bytes e))) events) y2 = (Inr (), y3)"
    and "yt_CommitTabletTx C tx y3 = (Inr ts, y4)"
  shows "BatchCreateEvents C K F as_time uuids outcome (map Some es) w =
    (if outcome = Answered then Inr events else Inl ContextDone,
     \<lparr>wd_yt = y4, wd_sent = wd_sent w @ (if outcome = EndedBeforeSend then [] else
        [map (\<lambda>e. table_write F as_time (e, ts, False)) events])\<rparr>)"
proof -
  have loop: "create_loop K as_time uuids 0 (map Some es) w = (Inr (map (\<lambda>e. (e, AKey (event_row_key as_time e),
      ARow (event_row as_time e (bytes e)))) events), w)"
    unfolding assms(1) by (rule create_loop_events) (use assms(1,2) in simp)
  have "map (\<lambda>(e, _). (EventKeyFromProto as_time (Some e) ts False, newMemTableItem F (Some e) ts False))
      (map (\<lambda>e. (e, AKey (event_row_key as_time e), ARow (event_row as_time e (bytes e)))) events) =
      map (\<lambda>e. table_write F as_time (e, ts, False)) events"
    by (simp add: table_write_def)
  then show ?thesis
    by (cases outcome) (simp_all add: BatchCreateEvents_def call_then_def loop client_eq(1) insert_or_abort_def assms(3-6)
        comp_def submit_def call_return_def)
qed

theorem create_events_witness:
  "BatchCreateEvents sample_client sample_codec list_bloom sample_as_time (\<lambda>i. ''id'') Answered [Some (fst sample_a)]
      \<lparr>wd_yt = 7, wd_sent = []\<rparr> =
    (Inr [(fst sample_a)\<lparr>ev_Id := ''id''\<rparr>], \<lparr>wd_yt = 9,
      wd_sent = [[table_write list_bloom sample_as_time ((fst sample_a)\<lparr>ev_Id := ''id''\<rparr>, 8, False)]]\<rparr>)"
  using create_events [OF refl, of "\<lambda>i. ''id''" "[fst sample_a]" sample_codec "\<lambda>_. []" sample_client
      "\<lparr>wd_yt = 7, wd_sent = []\<rparr>" "()" 7 8 sample_as_time 8 8 8 9 list_bloom Answered]
  by (simp add: sample_client_def sample_codec_def)

text \<open>A request without an event panics, whatever requests are around it, before the cluster is asked
  for anything.\<close>
theorem create_nil_panics:
  assumes "None \<in> set reqs" and "\<And>e. \<exists>b. cd_marshal K e = Inr b"
  shows "BatchCreateEvents C K F as_time uuids outcome reqs w = (Inl NilPanic, w)"
  by (simp add: BatchCreateEvents_def call_then_eq(2) [OF create_loop_nil [OF assms]])

theorem create_nil_panics_witness:
  "BatchCreateEvents sample_client sample_codec list_bloom sample_as_time (\<lambda>i. ''id'') Answered [Some (fst sample_a), None]
      \<lparr>wd_yt = 7, wd_sent = []\<rparr> = (Inl NilPanic, \<lparr>wd_yt = 7, wd_sent = []\<rparr>)"
  by (rule create_nil_panics) (simp_all add: sample_codec_def)

subsection \<open>The update mask\<close>

definition taken :: "'ts event option \<Rightarrow> bool \<Rightarrow> bool \<Rightarrow> bool \<Rightarrow> bool \<Rightarrow> bool \<Rightarrow> bool \<Rightarrow> 'ts event \<Rightarrow> 'ts event \<times> bool" where
  "taken new t d s e g a event =
     (event\<lparr>ev_Title := if t then GetTitle new else ev_Title event,
        ev_Description := if d then GetDescription new else ev_Description event,
        ev_StartTime := if s then GetStartTime new else ev_StartTime event,
        ev_EndTime := if e then GetEndTime new else ev_EndTime event,
        ev_Tags := if g then GetTags new else ev_Tags event,
        ev_Annotations := if a then GetAnnotations new else ev_Annotations event\<rparr>, s)"

lemma apply_path_taken:
  "apply_path new ''title'' (taken new t d s e g a event) = taken new True d s e g a event"
  "apply_path new ''description'' (taken new t d s e g a event) = taken new t True s e g a event"
  "apply_path new ''start_time'' (taken new t d s e g a event) = taken new t d True e g a event"
  "apply_path new ''end_time'' (taken new t d s e g a event) = taken new t d s True g a event"
  "apply_path new ''tags'' (taken new t d s e g a event) = taken new t d s e True a event"
  "apply_path new ''annotations'' (taken new t d s e g a event) = taken new t d s e g True event"
  by (simp_all add: apply_path_def taken_def split del: if_split)

lemma apply_path_other:
  "p \<notin> {''title'', ''description'', ''start_time'', ''end_time'', ''tags'', ''annotations''} \<Longrightarrow> apply_path new p x = x"
  by (cases x) (simp add: apply_path_def)

lemma apply_paths_taken:
  "apply_paths new ps event = taken new (''title'' \<in> set ps) (''description'' \<in> set ps) (''start_time'' \<in> set ps)
     (''end_time'' \<in> set ps) (''tags'' \<in> set ps) (''annotations'' \<in> set ps) event"
proof (induction ps rule: rev_induct)
  case Nil
  show ?case by (simp add: apply_paths_def taken_def)
next
  case (snoc p ps)
  have "apply_paths new (ps @ [p]) event = apply_path new p (apply_paths new ps event)"
    by (simp add: apply_paths_def)
  moreover have "p \<notin> {''title'', ''description'', ''start_time'', ''end_time'', ''tags'', ''annotations''} \<or>
      p \<in> {''title'', ''description'', ''start_time'', ''end_time'', ''tags'', ''annotations''}" by (rule excluded_middle)
  ultimately show ?case
    unfolding snoc.IH by (elim disjE insertE emptyE; simp add: apply_path_taken apply_path_other eq_commute [of _ p] split del: if_split)
qed

text \<open>C13: An update takes a field from the request exactly when its path is in the mask, in any order and
  number, and keeps the others; the key has changed exactly when \<open>start_time\<close> is in the mask. The
  id, the resource and the audit fields are never taken.\<close>
theorem update_mask:
  "apply_paths new paths event =
    (event\<lparr>ev_Title := if ''title'' \<in> set paths then GetTitle new else ev_Title event,
       ev_Description := if ''description'' \<in> set paths then GetDescription new else ev_Description event,
       ev_StartTime := if ''start_time'' \<in> set paths then GetStartTime new else ev_StartTime event,
       ev_EndTime := if ''end_time'' \<in> set paths then GetEndTime new else ev_EndTime event,
       ev_Tags := if ''tags'' \<in> set paths then GetTags new else ev_Tags event,
       ev_Annotations := if ''annotations'' \<in> set paths then GetAnnotations new else ev_Annotations event\<rparr>,
     ''start_time'' \<in> set paths)"
  using apply_paths_taken [of new paths event] by (simp add: taken_def)

subsection \<open>Tombstones\<close>

text \<open>Times whose microseconds fit 64 bits: about 292,000 years around 1970.\<close>

definition micro_range :: "go_time \<Rightarrow> bool" where
  "micro_range t \<longleftrightarrow> t_nsec t < 1000000000 \<and> - (2 ^ 63) \<le> (sint (t_ext t) - 62135596800) * 1000000 \<and>
     (sint (t_ext t) - 62135596800) * 1000000 + 999999 < 2 ^ 63"

lemma instant_UnixMicro:
  assumes "micro_range t"
  shows "instant (time_UnixMicro (UnixMicro t)) = (sint (t_ext t), t_nsec t div 1000 * 1000)"
proof -
  let ?s = "sint (t_ext t) - 62135596800" and ?n = "t_nsec t div 1000"
  have "?n < 1000000" by (rule less_mult_imp_div_less) (use assms in \<open>simp add: micro_range_def\<close>)
  then have n: "int ?n < 1000000" by simp
  have "UnixMicro t = of_int (?s * 1000000 + int ?n)" by (simp add: UnixMicro_def Unix_def unixToInternal_def)
  moreover have "- (2 ^ 63) \<le> ?s * 1000000 + int ?n" and "?s * 1000000 + int ?n < 2 ^ 63"
    using assms n by (auto simp: micro_range_def)
  ultimately have u: "sint (UnixMicro t) = ?s * 1000000 + int ?n"
    unfolding \<open>UnixMicro t = _\<close> by (simp only: signed_of_int) (simp add: signed_take_bit_int_eq_self)
  have "(s * 1000000 + m) div 1000000 = s" "(s * 1000000 + m) mod 1000000 = m" if "0 \<le> m" "m < 1000000" for s m :: int
    using that by simp_all
  from this [of "int ?n" ?s] n
  have "(?s * 1000000 + int ?n) div 1000000 = ?s" "(?s * 1000000 + int ?n) mod 1000000 = int ?n" by (simp_all only: of_nat_0_le_iff)
  then have "time_UnixMicro (UnixMicro t) = time_Unix (of_int ?s) (int ?n * 1000)"
    unfolding time_UnixMicro_def u by simp
  moreover have "int ?n * 1000 div 1000000000 = 0" "int ?n * 1000 mod 1000000000 = int ?n * 1000" using n by simp_all
  ultimately show ?thesis
    by (simp add: time_Unix_def instant_def unixToInternal_def nat_mult_distrib)
qed

text \<open>The key of a tombstone is read from the cluster, where the nanoseconds were cut off: it is the key of the
  live item exactly when the start time is a whole number of microseconds.\<close>

lemma tombstone_view:
  assumes "micro_range (as_time (ev_StartTime e))"
  shows "key_view (tombstone_key (event_row_key as_time e) ts) = key_view (fst (table_write F as_time (e, ts', d))) \<longleftrightarrow>
    t_nsec (as_time (ev_StartTime e)) mod 1000 = 0"
proof -
  let ?t = "as_time (ev_StartTime e)"
  have "key_view (tombstone_key (event_row_key as_time e) ts) = (instant (time_UnixMicro (UnixMicro ?t)), ev_Id e)"
    by (simp add: tombstone_key_def event_row_key_def start_micro_def key_view_def getters)
  moreover have "key_view (fst (table_write F as_time (e, ts', d))) = ((sint (t_ext ?t), t_nsec ?t), ev_Id e)"
    by (simp add: table_write_def EventKeyFromProto_def key_view_def getters instant_def)
  moreover have "t_nsec ?t div 1000 * 1000 = t_nsec ?t \<longleftrightarrow> t_nsec ?t mod 1000 = 0"
    using div_mult_mod_eq [of "t_nsec ?t" 1000] by linarith
  ultimately show ?thesis using instant_UnixMicro [OF assms] by simp
qed

subsection \<open>Updates of the start time\<close>

lemma put_all_snoc:
  assumes S: "skip_list S made"
  shows "sl_items S (mt_items (put_all S (ws @ [x]))) = insert_desc memTable_compare (fst x) (snd x) (sl_items S (mt_items (put_all S ws)))"
proof -
  have "made memTable_compare (mt_items (put_all S ws))"
    by (induction ws rule: rev_induct)
      (simp_all add: put_all_def putItem_def newMemTable_def skip_list.made_new [OF S] skip_list.made_set [OF S] split: prod.splits)
  then show ?thesis
    by (simp add: put_all_def putItem_def skip_list.set_items [OF S] split: prod.splits)
qed

lemma put_batch_put_all: "put_batch S ws (put_all S vs) = put_all S (vs @ ws)"
proof -
  have "put_batch S ws mt = fold (\<lambda>(k, v) mt. putItem S mt k v) ws mt" for mt
    by (induction ws arbitrary: mt) auto
  then show ?thesis by (simp add: put_all_def)
qed

lemma insert_desc_has: "\<exists>k'. (k', v) \<in> set (insert_desc memTable_compare k v xs) \<and> version_view k' = version_view k"
proof (induction xs)
  case (Cons x xs)
  obtain k' v' where "x = (k', v')" by fastforce
  with Cons version_order.cmp_zero [of k k'] show ?case by (auto simp: memTable_compare_reverse)
qed auto

lemma version_sorted_unique:
  assumes "version_sorted (map fst xs)" and "(k, v) \<in> set xs" and "(k', v') \<in> set xs" and "version_view k = version_view k'"
  shows "v = v'"
proof -
  have "sorted_wrt version_less (map (version_view \<circ> fst) xs)" using assms(1) by (simp add: version_sorted_views)
  moreover have "sorted_wrt version_less ys \<Longrightarrow> distinct ys" for ys by (induction ys) auto
  ultimately have "distinct (map (version_view \<circ> fst) xs)" by blast
  then have "inj_on (version_view \<circ> fst) (set xs)" by (simp add: distinct_map)
  from inj_onD [OF this _ assms(2,3)] assms(4) show ?thesis by simp
qed

text \<open>C37: An update that has \<open>start_time\<close> in its mask but leaves the start at the same instant puts the new
  item and a tombstone with the same version into the table: the tombstone takes the place of the
  item, no item of this version has an event any more, and the table can no longer be converted.\<close>
theorem update_same_start:
  assumes "skip_list S made" and "instant (as_time (ev_StartTime event)) = instant (time_UnixMicro (rk_StartTime key))"
    and "rk_ID key = ev_Id event" and "mt = put_batch S (update_writes F as_time event key True ts) (put_all S writes)"
  shows "(\<forall>(k, v) \<in> set (sl_items S (mt_items mt)).
      version_view k = version_view (EventKeyFromProto as_time (Some event) ts False) \<longrightarrow> mi_event v = None) \<and>
    fromMemTable R S as_time mt = None"
proof -
  let ?k = "tombstone_key key ts" and ?items = "sl_items S (mt_items mt)"
  obtain new v where none: "mi_event v = None" and "update_writes F as_time event key True ts = [new, (?k, v)]"
    by (fastforce simp: update_writes_def tombstone_def newMemTableItem_def)
  then have mt: "mt = put_all S ((writes @ [new]) @ [(?k, v)])"
    by (simp add: assms(4) put_batch_put_all)
  have sorted: "version_sorted (map fst ?items)" unfolding mt by (rule put_all_sorted [OF assms(1)])
  have view: "version_view ?k = version_view (EventKeyFromProto as_time (Some event) ts False)"
    using assms(2,3) by (simp add: tombstone_key_def EventKeyFromProto_def version_view_def key_view_def getters)
  obtain k where k: "(k, v) \<in> set ?items" "version_view k = version_view ?k"
    unfolding mt put_all_snoc [OF assms(1)] fst_conv snd_conv
    using insert_desc_has [of v ?k "insert_desc memTable_compare (fst new) (snd new) (sl_items S (mt_items (put_all S writes)))"]
    by blast
  have "mi_event v' = None" if "(k', v') \<in> set ?items" "version_view k' = version_view ?k" for k' v'
    using version_sorted_unique [OF sorted that(1) k(1)] that(2) k(2) none by simp
  moreover have "fromMemTable R S as_time mt = None"
    using index_items_tombstone [of ?items R as_time "newRoaringIndex R"] k(1) none by (auto simp: fromMemTable_def)
  ultimately show ?thesis unfolding view by auto
qed

theorem update_same_start_witness:
  "fromMemTable list_roaring list_skiplist sample_as_time (put_batch list_skiplist
     (update_writes list_bloom sample_as_time (fst sample_a) (event_row_key sample_as_time (fst sample_a)) True 9)
     (put_all list_skiplist [])) = None"
proof -
  have t: "micro_range (sample_as_time (ev_StartTime (fst sample_a)))" "t_nsec (sample_as_time (ev_StartTime (fst sample_a))) = 0"
    by (simp_all add: sample_defs micro_range_def unixToInternal_def)
  have "instant (sample_as_time (ev_StartTime (fst sample_a))) =
      instant (time_UnixMicro (rk_StartTime (event_row_key sample_as_time (fst sample_a))))"
    using t(2) by (simp add: event_row_key_def start_micro_def getters instant_UnixMicro [OF t(1)]) (simp add: instant_def)
  moreover have "rk_ID (event_row_key sample_as_time (fst sample_a)) = ev_Id (fst sample_a)"
    by (simp add: event_row_key_def getters)
  ultimately show ?thesis
    using update_same_start [where as_time = sample_as_time, OF list_skiplist_ok _ _ refl] by blast
qed

text \<open>C9: An event moved to an earlier start time disappears from the table. The update puts the new version
  and a tombstone of the old start time; the iterator of the table passes over an element that follows
  one of the same id, whatever the start times are. So when the table has no other event that starts
  between the two times, the new version is in the table, matches any filter or none, and yet is
  not yielded at any timestamp from which on all items are visible.\<close>
theorem moved_event_hidden:
  fixes F :: "'f bloom" and event :: "'ts event" and S :: "(EventKey, ('ts, 'f) memTableItem, 's) skiplist"
  assumes "skip_list S made" and "ws = writes @ update_writes F as_time event key True ts"
    and "elems = sl_items S (mt_items (put_all S ws))" and "distinct (map (version_view \<circ> fst) ws)"
    and "rk_ID key = ev_Id event" and "Before (as_time (ev_StartTime event)) (time_UnixMicro (rk_StartTime key))"
    and between: "\<forall>x \<in> set writes. key_ID (fst x) = ev_Id event \<or> Before (key_StartTime (fst x)) (as_time (ev_StartTime event)) \<or>
      After (key_StartTime (fst x)) (time_UnixMicro (rk_StartTime key))"
    and "\<forall>x \<in> set ws. key_Timestamp (fst x) \<le> now" and "length elems < n"
  shows "table_write F as_time (event, ts, False) \<in> set elems \<and>
    (\<exists>keys. iterator.drain (\<lambda>mti. Some (mti_Next F elems mti)) mti_Value n (NewMemTableIterator f now) = Some keys \<and>
       fst (table_write F as_time (event, ts, False)) \<notin> set keys)"
proof
  let ?x = "table_write F as_time (event, ts, False)" and ?t = "tombstone F key ts :: ('ts, 'f) writeItem"
  let ?view = "version_view \<circ> fst :: ('ts, 'f) writeItem \<Rightarrow> _"
  have ws: "ws = writes @ [?x, ?t]"
    by (simp add: assms(2) update_writes_def table_write_def EventKeyFromProto_def)
  have "mset elems = mset ws" unfolding assms(3) by (rule put_all_items [OF assms(1,4)])
  then have set: "set elems = set ws" by (rule mset_eq_setD)
  then show "?x \<in> set elems" by (simp add: ws)
  have "version_sorted (map fst elems)" unfolding assms(3) by (rule put_all_sorted [OF assms(1)])
  then have sorted: "sorted_wrt version_less (map ?view elems)" by (simp add: version_sorted_views)
  have less: "version_less (?view (elems ! i)) (?view (elems ! j))" if "i < j" "j < length elems" for i j
    using sorted_wrt_nth_less [OF sorted that(1)] that by simp
  have t: "key_ID (fst ?t) = ev_Id event" "key_Timestamp (fst ?t) = ts"
    "key_StartTime (fst ?t) = time_UnixMicro (rk_StartTime key)"
    by (simp_all add: tombstone_def tombstone_key_def assms(5))
  have x: "key_ID (fst ?x) = ev_Id event" "key_Timestamp (fst ?x) = ts" "key_StartTime (fst ?x) = as_time (ev_StartTime event)"
    by (simp_all add: table_write_def EventKeyFromProto_def getters)
  have tx: "version_less (?view ?t) (?view ?x)"
    using assms(6) by (simp add: version_less_def key_less_def version_view_def key_view_def t x Before_instant)
  have shadow: "shadowed now elems i" if i: "i < length elems" "fst (elems ! i) = fst ?x" for i
  proof -
    have view: "?view (elems ! i) = ?view ?x" using i(2) by simp
    obtain j where j: "j < length elems" "elems ! j = ?t"
      using set unfolding in_set_conv_nth [symmetric] ws by (metis in_set_conv_nth list.set_intros(1,2) Un_iff set_append)
    have "j < i"
    proof (rule ccontr)
      assume "\<not> j < i"
      then consider "i = j" | "i < j" by linarith
      then show False
      proof cases
        case 1
        with tx view j(2) show False by simp
      next
        case 2
        from less [OF this j(1)] tx view j(2) version_less_asym show False by metis
      qed
    qed
    let ?p = "elems ! (i - 1)"
    have p: "?p \<in> set ws" using i(1) set by (metis less_imp_diff_less nth_mem)
    have id: "key_ID (fst ?p) = ev_Id event"
    proof (cases "i - 1 = j")
      case True
      with j(2) t show ?thesis by simp
    next
      case False
      with \<open>j < i\<close> have "j < i - 1" "i - 1 < i" by linarith+
      with less [of j "i - 1"] less [of "i - 1" i] i(1) j(2) view
      have less: "version_less (?view ?t) (?view ?p)" "version_less (?view ?p) (?view ?x)" by simp_all
      have "\<not> After (key_StartTime (fst ?p)) (time_UnixMicro (rk_StartTime key))"
        using less(1) earlier_asym by (fastforce simp: version_less_def key_less_def version_view_def key_view_def t After_instant)
      moreover have "\<not> Before (key_StartTime (fst ?p)) (as_time (ev_StartTime event))"
        using less(2) earlier_asym by (fastforce simp: version_less_def key_less_def version_view_def key_view_def x Before_instant)
      ultimately show ?thesis using between p t x by (auto simp: ws)
    qed
    with \<open>j < i\<close> p assms(8) i(2) x(1) show ?thesis by (auto simp: shadowed_def)
  qed
  show "\<exists>keys. iterator.drain (\<lambda>mti. Some (mti_Next F elems mti)) mti_Value n (NewMemTableIterator f now) = Some keys \<and>
      fst ?x \<notin> set keys"
  proof (intro exI conjI)
    show "iterator.drain (\<lambda>mti. Some (mti_Next F elems mti)) mti_Value n (NewMemTableIterator f now) =
        Some (mt_visible F f now None elems)" by (rule mem_iterator_drains [OF assms(1,3,9)])
    show "fst ?x \<notin> set (mt_visible F f now None elems)"
    proof
      assume "fst ?x \<in> set (mt_visible F f now None elems)"
      then obtain i where "i < length elems" "shown F f now elems i" "fst (elems ! i) = fst ?x"
        unfolding mt_visible_all by fastforce
      with shadow show False by (auto simp: shown_def)
    qed
  qed
qed

text \<open>One event, created at 200 and moved to 100.\<close>
theorem moved_event_hidden_witness:
  "\<exists>elems. elems = sl_items list_skiplist (mt_items (put_all list_skiplist (table_write list_bloom sample_as_time sample_b #
       update_writes list_bloom sample_as_time ((fst sample_b)\<lparr>ev_StartTime := Some (sample_time 100)\<rparr>)
         (event_row_key sample_as_time (fst sample_b)) True 9))) \<and>
     table_write list_bloom sample_as_time ((fst sample_b)\<lparr>ev_StartTime := Some (sample_time 100)\<rparr>, 9, False) \<in> set elems \<and>
     (\<exists>keys. iterator.drain (\<lambda>mti. Some (mti_Next list_bloom elems mti)) mti_Value 4 (NewMemTableIterator None 9) = Some keys \<and>
       fst (table_write list_bloom sample_as_time ((fst sample_b)\<lparr>ev_StartTime := Some (sample_time 100)\<rparr>, 9, False)) \<notin> set keys)"
proof -
  let ?e = "(fst sample_b)\<lparr>ev_StartTime := Some (sample_time 100)\<rparr>" and ?k = "event_row_key sample_as_time (fst sample_b)"
  let ?b = "table_write list_bloom sample_as_time sample_b"
  let ?u = "update_writes list_bloom sample_as_time ?e ?k True 9"
  have u: "?u = [table_write list_bloom sample_as_time (?e, 9, False), tombstone list_bloom ?k 9]"
    by (simp add: update_writes_def table_write_def EventKeyFromProto_def)
  have "micro_range (sample_as_time (ev_StartTime (fst sample_b)))"
    by (simp add: sample_defs micro_range_def unixToInternal_def)
  from instant_UnixMicro [OF this] have k: "instant (time_UnixMicro (rk_StartTime ?k)) = (62135597000, 0)" "rk_ID ?k = ''b''"
    by (simp_all add: event_row_key_def start_micro_def getters sample_defs unixToInternal_def)
  have ts: "key_Timestamp (fst ?b) = 7" "key_ID (fst ?b) = ''b''" "ev_Id ?e = ''b''"
    and s: "instant (sample_as_time (Some (sample_time 100))) = (62135596900, 0)"
    by (simp_all add: table_write_def EventKeyFromProto_def sample_defs getters instant_def unixToInternal_def)
  have d: "distinct (map (version_view \<circ> fst) ([?b] @ ?u))"
    unfolding u by (simp add: version_view_def key_view_def ts tombstone_def tombstone_key_def k)
      (simp add: table_write_def EventKeyFromProto_def getters s)
  let ?elems = "sl_items list_skiplist (mt_items (put_all list_skiplist ([?b] @ ?u)))"
  have "length ?elems = 3" using arg_cong [OF put_all_items [OF list_skiplist_ok d], of size] by (simp add: u)
  then have n: "length ?elems < 4" by simp
  have at: "\<forall>x \<in> set ([?b] @ ?u). key_Timestamp (fst x) \<le> 9" 
    using ts(1) by (auto simp: u tombstone_def tombstone_key_def) (simp add: table_write_def EventKeyFromProto_def)
  have before: "Before (sample_as_time (ev_StartTime ?e)) (time_UnixMicro (rk_StartTime ?k))"
    by (simp add: Before_instant k s earlier_def)
  have between: "\<forall>x \<in> set [?b]. key_ID (fst x) = ev_Id ?e \<or> Before (key_StartTime (fst x)) (sample_as_time (ev_StartTime ?e)) \<or>
      After (key_StartTime (fst x)) (time_UnixMicro (rk_StartTime ?k))" by (simp add: ts)
  from moved_event_hidden [OF list_skiplist_ok refl refl d _ before between at n, of None] k ts show ?thesis by simp
qed

subsection \<open>A deletion stops the writes\<close>

text \<open>C23: A deleted event stops the write worker. When the first request is a deletion and the events that
  follow it fill the table, the next request makes the worker panic: the state is reachable, and
  from then on no further request is taken.\<close>
theorem delete_stops_writer:
  assumes "skip_list S made" and "distinct (map (version_view \<circ> fst) (tombstone F key ts # map (table_write F as_time) rows))"
    and "maxMemTableSize \<le> Suc (length rows)"
  shows "\<exists>s. reach R S as_time late s \<and> sy_accepted s = tombstone F key ts # map (table_write F as_time) rows \<and>
    sy_writer s = W_panic \<and> (\<forall>t. steps R S as_time late s t \<longrightarrow> sy_accepted t = sy_accepted s)"
proof -
  let ?b = "tombstone F key ts # map (table_write F as_time) rows"
  let ?t = "put_batch S ?b (newMemTable S)" and ?n = "newMemTable S"
  let ?s = "(young ?n W_panic ?b)\<lparr>sy_flusher := F_panic\<rparr>"
  have "?t = put_all S ?b" using put_batch_put_all [of S ?b "[]"] by (simp add: put_all_def)
  with put_all_items [OF assms(1,2)] have items: "mset (sl_items S (mt_items ?t)) = mset ?b" by simp
  from arg_cong [OF items, of size] assms(3) have "maxMemTableSize \<le> mt_size S ?t"
    by (simp add: mt_size_def skip_list.len_items [OF assms(1)])
  note run = rtranclp_trans [OF batch_reached [OF assms(1)] full_run [OF this]]
  have "tombstone F key ts \<in> set (sl_items S (mt_items ?t))" using mset_eq_setD [OF items] by simp
  then have "fromMemTable R S as_time ?t = None"
    using index_items_tombstone [of "sl_items S (mt_items ?t)" R as_time "newRoaringIndex R"]
    by (force simp: fromMemTable_def tombstone_def newMemTableItem_def)
  then have "step R S as_time late (young ?n (W_convert ?t []) ?b) ?s"
    using step.convert_panic [of "young ?n (W_convert ?t []) ?b" ?t "[]" R S as_time late] by (simp add: young_def)
  with run have reach: "reach R S as_time late ?s" by (rule rtranclp.rtrancl_into_rtrancl)
  have stuck: "sy_accepted t = sy_accepted ?s" if "steps R S as_time late ?s t" for t
  proof -
    have "t = ?s"
      using that
    proof (induction rule: rtranclp_induct)
      case (step u t)
      then show ?case using panic_stuck [of u R S as_time late t] by (simp add: young_def)
    qed simp
    then show ?thesis by (simp add: young_def)
  qed
  show ?thesis
  proof (intro exI [of _ ?s] conjI allI impI)
    show "sy_accepted ?s = ?b" "sy_writer ?s = W_panic" by (simp_all add: young_def)
  qed (fact reach, rule stuck)
qed

theorem delete_stops_writer_witness:
  "\<exists>s. reach list_roaring list_skiplist sample_as_time False s \<and> sy_writer s = W_panic \<and>
     sy_accepted s = tombstone list_bloom (event_row_key sample_as_time (fst sample_a)) 9 # sample_items"
proof -
  let ?t = "tombstone list_bloom (event_row_key sample_as_time (fst sample_a)) 9"
  have "key_Timestamp (fst x) = 7" if "x \<in> set sample_items" for x
    using that by (auto simp: sample_rows_def table_write_def EventKeyFromProto_def)
  then have "version_view (fst ?t) \<notin> (version_view \<circ> fst) ` set sample_items"
    by (fastforce simp: tombstone_def tombstone_key_def version_view_def)
  moreover have "map (version_view \<circ> fst) sample_items = map (version_view \<circ> row_key sample_as_time) (sample_rows maxMemTableSize)"
    by (simp add: version_view_row_key [of sample_as_time _ list_bloom])
  then have "distinct (map (version_view \<circ> fst) sample_items)" by (simp only: sample_rows_distinct)
  ultimately have "distinct (map (version_view \<circ> fst) (?t # sample_items))"
    by (simp only: list.map distinct.simps list.set_map comp_apply simp_thms)
  from delete_stops_writer [OF list_skiplist_ok this] show ?thesis by fastforce
qed

end
