(* ===== verification/Page_Token.thy ===== *)
theory Page_Token
  imports Storage_List Listing_Spec
begin

text \<open>
  The token of the next page (\<open>src/page_token.go\<close>): a key as a protobuf message, in the standard
  base64 encoding of Go's library, which is modelled here on bytes. The protobuf encoding of the
  message and the conversions of times are parameters. An error of the decoder has no position.
\<close>

subsection \<open>Base64\<close>

definition b64_alphabet :: string where
  "b64_alphabet = ''ABCDEFGHIJKLMNOPQRSTUVWXYZabcdefghijklmnopqrstuvwxyz0123456789+/''"

definition b64_char :: "nat \<Rightarrow> char" where
  "b64_char n = b64_alphabet ! n"

definition b64_value :: "char \<Rightarrow> nat option" where
  "b64_value c = (let i = length (takeWhile (\<lambda>d. d \<noteq> c) b64_alphabet) in if i < 64 then Some i else None)"

text \<open>Three bytes become four characters of six bits; one or two bytes at the end are padded.\<close>

fun b64_encode :: "u8 list \<Rightarrow> string" where
  "b64_encode [] = []"
| "b64_encode [a] = [b64_char (unat a div 4), b64_char (unat a mod 4 * 16), CHR ''='', CHR ''='']"
| "b64_encode [a, b] =
     [b64_char (unat a div 4), b64_char (unat a mod 4 * 16 + unat b div 16), b64_char (unat b mod 16 * 4), CHR ''='']"
| "b64_encode (a # b # c # bs) =
     [b64_char (unat a div 4), b64_char (unat a mod 4 * 16 + unat b div 16),
      b64_char (unat b mod 16 * 4 + unat c div 64), b64_char (unat c mod 64)] @ b64_encode bs"

definition b64_byte1 :: "nat \<Rightarrow> nat \<Rightarrow> u8" where
  "b64_byte1 a b = of_nat (a * 4 + b div 16)"

definition b64_byte2 :: "nat \<Rightarrow> nat \<Rightarrow> u8" where
  "b64_byte2 b c = of_nat (b mod 16 * 16 + c div 4)"

definition b64_byte3 :: "nat \<Rightarrow> nat \<Rightarrow> u8" where
  "b64_byte3 c d = of_nat (c mod 4 * 64 + d)"

text \<open>Four characters at a time; padding only at the very end. Left-over bits are not checked.\<close>

fun b64_quanta :: "string \<Rightarrow> u8 list option" where
  "b64_quanta [] = Some []"
| "b64_quanta (a # b # c # d # rest) =
     (case (b64_value a, b64_value b) of
        (Some a, Some b) \<Rightarrow>
          if d = CHR ''='' then
            (if rest \<noteq> [] then None
             else if c = CHR ''='' then Some [b64_byte1 a b]
             else map_option (\<lambda>c. [b64_byte1 a b, b64_byte2 b c]) (b64_value c))
          else (case (b64_value c, b64_value d) of
                  (Some c, Some d) \<Rightarrow>
                    map_option (\<lambda>bs. b64_byte1 a b # b64_byte2 b c # b64_byte3 c d # bs) (b64_quanta rest)
                | _ \<Rightarrow> None)
      | _ \<Rightarrow> None)"
| "b64_quanta _ = None"

text \<open>Line breaks are skipped wherever they are.\<close>

definition b64_decode :: "string \<Rightarrow> u8 list option" where
  "b64_decode s = b64_quanta (filter (\<lambda>c. c \<noteq> CHR 0x0A \<and> c \<noteq> CHR 0x0D) s)"

subsection \<open>The token\<close>

record 'ts pb_key =
  pk_Id :: string
  pk_Resource :: "resource option"
  pk_StartTime :: "'ts option"

record 'ts token_codec =
  tc_marshal :: "'ts pb_key \<Rightarrow> string + u8 list"
  tc_unmarshal :: "u8 list \<Rightarrow> string + 'ts pb_key"
  tc_new :: "go_time \<Rightarrow> 'ts"             \<comment> \<open>\<open>timestamppb.New\<close>\<close>

definition EncodePageToken :: "'ts token_codec \<Rightarrow> EventKey \<Rightarrow> string + string" where
  "EncodePageToken T eventKey =
     (case tc_marshal T
        \<lparr>pk_Id = key_ID eventKey,
         pk_Resource = Some \<lparr>rs_TypeCode = key_ResourceTypeCode eventKey, rs_ExternalId = key_ResourceExternalID eventKey\<rparr>,
         pk_StartTime = Some (tc_new T (key_StartTime eventKey))\<rparr> of
        Inl e \<Rightarrow> Inl e
      | Inr bytes \<Rightarrow> Inr (b64_encode bytes))"

definition DecodePageToken :: "'ts token_codec \<Rightarrow> ('ts option \<Rightarrow> go_time) \<Rightarrow> string \<Rightarrow> string + EventKey" where
  "DecodePageToken T as_time pageToken =
     (case b64_decode pageToken of
        None \<Rightarrow> Inl ''illegal base64 data''
      | Some bytes \<Rightarrow>
        (case tc_unmarshal T bytes of
           Inl e \<Rightarrow> Inl e
         | Inr pbKey \<Rightarrow> Inr
             \<lparr>key_ResourceTypeCode = GetTypeCode (pk_Resource pbKey),
              key_ResourceExternalID = GetExternalId (pk_Resource pbKey),
              key_StartTime = as_time (pk_StartTime pbKey), key_ID = pk_Id pbKey,
              key_Timestamp = 0, key_IsDeleted = False\<rparr>))"

subsection \<open>Decoding what was encoded\<close>

lemma b64_alphabet_facts: "length b64_alphabet = 64" "distinct b64_alphabet"
  "CHR ''='' \<notin> set b64_alphabet" "CHR 0x0A \<notin> set b64_alphabet" "CHR 0x0D \<notin> set b64_alphabet"
  by (simp_all add: b64_alphabet_def)

lemma b64_value_char: "n < 64 \<Longrightarrow> b64_value (b64_char n) = Some n"
proof -
  assume n: "n < 64"
  have "takeWhile (\<lambda>d. d \<noteq> b64_alphabet ! n) b64_alphabet = take n b64_alphabet"
    using n b64_alphabet_facts(1,2) by (intro takeWhile_eq_take_P_nth) (auto simp: nth_eq_iff_index_eq)
  with n show ?thesis by (simp add: b64_value_def b64_char_def b64_alphabet_facts(1) min_def)
qed

lemma b64_char_other: "n < 64 \<Longrightarrow> b64_char n \<noteq> CHR ''='' \<and> b64_char n \<noteq> CHR 0x0A \<and> b64_char n \<noteq> CHR 0x0D"
  using b64_alphabet_facts(1,3-5) nth_mem [of n b64_alphabet] unfolding b64_char_def by metis

text \<open>The groups of six bits of bytes.\<close>

lemma byte_less: "unat (a :: u8) < 256"
  using unsigned_less [of a] by simp

lemma byte_div: "unat (a :: u8) div 16 < 16" "unat a div 4 < 64" "unat a div 64 < 4"
  using byte_less [of a] by (auto intro: less_mult_imp_div_less)

lemma join_digits: "y < n \<Longrightarrow> (x * n + y) div n = x \<and> (x * n + y) mod n = (y :: nat)"
  by simp

lemma b64_sextets:
  fixes a b c :: u8
  shows "unat a div 4 < 64" "unat a mod 4 * 16 + unat b div 16 < 64" "unat a mod 4 * 16 < 64"
    "unat b mod 16 * 4 + unat c div 64 < 64" "unat b mod 16 * 4 < 64" "unat c mod 64 < 64"
proof -
  have "unat a mod 4 \<le> 3" "unat b mod 16 \<le> 15"
    using mod_less_divisor [of 4 "unat a"] mod_less_divisor [of 16 "unat b"] by linarith+
  with byte_div [of a] byte_div [of b] byte_div [of c]
  show "unat a div 4 < 64" "unat a mod 4 * 16 + unat b div 16 < 64" "unat a mod 4 * 16 < 64"
    "unat b mod 16 * 4 + unat c div 64 < 64" "unat b mod 16 * 4 < 64" "unat c mod 64 < 64" by simp_all
qed

lemma b64_bytes [simp]:
  fixes a b c :: u8
  shows "b64_byte1 (unat a div 4) (unat a mod 4 * 16 + unat b div 16) = a" "b64_byte1 (unat a div 4) (unat a mod 4 * 16) = a"
    "b64_byte2 (unat a mod 4 * 16 + unat b div 16) (unat b mod 16 * 4 + unat c div 64) = b"
    "b64_byte2 (unat a mod 4 * 16 + unat b div 16) (unat b mod 16 * 4) = b"
    "b64_byte3 (unat b mod 16 * 4 + unat c div 64) (unat c mod 64) = c"
proof -
  note d = join_digits [of "unat b div 16" 16 "unat a mod 4"] join_digits [of "unat c div 64" 4 "unat b mod 16"]
    byte_div [of b] byte_div [of c]
  show "b64_byte1 (unat a div 4) (unat a mod 4 * 16 + unat b div 16) = a"
    using d by (simp add: b64_byte1_def div_mult_mod_eq flip: of_nat_add of_nat_mult)
  show "b64_byte1 (unat a div 4) (unat a mod 4 * 16) = a"
    by (simp add: b64_byte1_def div_mult_mod_eq)
  show "b64_byte2 (unat a mod 4 * 16 + unat b div 16) (unat b mod 16 * 4 + unat c div 64) = b"
    using d by (simp add: b64_byte2_def div_mult_mod_eq)
  show "b64_byte2 (unat a mod 4 * 16 + unat b div 16) (unat b mod 16 * 4) = b"
    using d by (simp add: b64_byte2_def div_mult_mod_eq)
  show "b64_byte3 (unat b mod 16 * 4 + unat c div 64) (unat c mod 64) = c"
    using d by (simp add: b64_byte3_def div_mult_mod_eq)
qed

lemma b64_encode_text: "c \<in> set (b64_encode bs) \<Longrightarrow> c \<noteq> CHR 0x0A \<and> c \<noteq> CHR 0x0D"
proof (induction bs rule: b64_encode.induct)
  case (4 a b d bs)
  then show ?case using b64_char_other b64_sextets by (auto simp: Ball_def)
qed (use b64_char_other b64_sextets in \<open>auto simp: Ball_def\<close>)

lemma b64_quanta_encode: "b64_quanta (b64_encode bs) = Some bs"
  by (induction bs rule: b64_encode.induct) (simp_all add: b64_value_char b64_char_other b64_sextets)

lemma b64_decode_encode: "b64_decode (b64_encode bs) = Some bs"
proof -
  have "filter (\<lambda>c. c \<noteq> CHR 0x0A \<and> c \<noteq> CHR 0x0D) (b64_encode bs) = b64_encode bs"
    using b64_encode_text by (auto simp: filter_id_conv)
  then show ?thesis by (simp add: b64_decode_def b64_quanta_encode)
qed

subsection \<open>The token of a page\<close>

definition token_ok :: "'ts token_codec \<Rightarrow> ('ts option \<Rightarrow> go_time) \<Rightarrow> bool" where
  "token_ok T as_time \<longleftrightarrow> (\<forall>m bytes. tc_marshal T m = Inr bytes \<longrightarrow> tc_unmarshal T bytes = Inr m) \<and>
     (\<forall>t. instant (as_time (Some (tc_new T t))) = instant t)"

text \<open>C22: The token of a full page decodes, also with line breaks put into it, to the first key that is not
  on the page: the same resource, id and instant of its start, without a version. The page is the
  keys before it. This needs that decoding a message undoes encoding it, and that a protobuf
  timestamp keeps the instant of a time.\<close>
theorem page_token_next:
  assumes "token_ok T as_time" and "split_page (EncodePageToken T) n keys w = (Inr (page, t), w')"
    and "int (length keys) = page_size n" and "keys \<noteq> []"
    and "filter (\<lambda>c. c \<noteq> CHR 0x0A \<and> c \<noteq> CHR 0x0D) t' = t"
  shows "\<exists>k k'. keys = page @ [k] \<and> DecodePageToken T as_time t' = Inr k' \<and> compareEventKey k' k = 0 \<and>
    key_ResourceTypeCode k' = key_ResourceTypeCode k \<and> key_ResourceExternalID k' = key_ResourceExternalID k \<and>
    key_Timestamp k' = 0"
proof -
  from assms(2,3) have t: "EncodePageToken T (last keys) = Inr t" "page = butlast keys"
    by (auto simp: split_page_def call_defs split: sum.splits)
  then obtain bytes where bytes: "tc_marshal T
      \<lparr>pk_Id = key_ID (last keys), pk_Resource = Some \<lparr>rs_TypeCode = key_ResourceTypeCode (last keys),
         rs_ExternalId = key_ResourceExternalID (last keys)\<rparr>,
       pk_StartTime = Some (tc_new T (key_StartTime (last keys)))\<rparr> = Inr bytes" "t = b64_encode bytes"
    by (auto simp: EncodePageToken_def split: sum.splits)
  have "b64_decode t' = Some bytes" by (simp add: b64_decode_def assms(5) bytes(2) b64_quanta_encode)
  moreover have "tc_unmarshal T bytes = Inr
      \<lparr>pk_Id = key_ID (last keys), pk_Resource = Some \<lparr>rs_TypeCode = key_ResourceTypeCode (last keys),
         rs_ExternalId = key_ResourceExternalID (last keys)\<rparr>,
       pk_StartTime = Some (tc_new T (key_StartTime (last keys)))\<rparr>"
    using assms(1) bytes(1) by (simp add: token_ok_def)
  ultimately have "DecodePageToken T as_time t' = Inr
      \<lparr>key_ResourceTypeCode = key_ResourceTypeCode (last keys), key_ResourceExternalID = key_ResourceExternalID (last keys),
       key_StartTime = as_time (Some (tc_new T (key_StartTime (last keys)))), key_ID = key_ID (last keys),
       key_Timestamp = 0, key_IsDeleted = False\<rparr>" (is "_ = Inr ?k'")
    by (simp add: DecodePageToken_def getters)
  moreover have "compareEventKey ?k' (last keys) = 0"
    using assms(1) by (simp add: key_order.cmp_zero key_view_def token_ok_def)
  moreover have "keys = page @ [last keys]" using t(2) assms(4) by simp
  ultimately show ?thesis by (intro exI [of _ "last keys"] exI [of _ ?k'] conjI) simp_all
qed

text \<open>A codec that knows one message.\<close>

definition sample_message :: "go_time pb_key" where
  "sample_message = \<lparr>pk_Id = ''b'', pk_Resource = Some \<lparr>rs_TypeCode = [], rs_ExternalId = []\<rparr>,
     pk_StartTime = Some (sample_time 200)\<rparr>"

definition sample_tokens :: "go_time token_codec" where
  "sample_tokens = \<lparr>tc_marshal = (\<lambda>m. if m = sample_message then Inr [98, 255] else Inl ''message''),
     tc_unmarshal = (\<lambda>_. Inr sample_message), tc_new = (\<lambda>t. t)\<rparr>"

theorem page_token_next_witness:
  "\<exists>w. split_page (EncodePageToken sample_tokens) 0 [EventKeyFromProto sample_as_time (Some (fst sample_b)) 7 False] w =
      (Inr ([], ''Yv8=''), w :: (unit, unit) world) \<and>
    (\<exists>k'. DecodePageToken sample_tokens sample_as_time [CHR ''Y'', CHR ''v'', CHR 0x0A, CHR ''8'', CHR ''=''] = Inr k' \<and>
       compareEventKey k' (EventKeyFromProto sample_as_time (Some (fst sample_b)) 7 False) = 0)"
proof -
  let ?k = "EventKeyFromProto sample_as_time (Some (fst sample_b)) 7 False"
  have k: "key_ID ?k = ''b''" "key_ResourceTypeCode ?k = []" "key_ResourceExternalID ?k = []" "key_StartTime ?k = sample_time 200"
    by (simp_all add: EventKeyFromProto_def getters sample_b_def sample_event_def sample_as_time_def)
  have ok: "token_ok sample_tokens sample_as_time" by (simp add: token_ok_def sample_tokens_def sample_as_time_def)
  have "b64_encode [98, 255] = ''Yv8=''" by (simp add: b64_char_def b64_alphabet_def)
  then have page: "split_page (EncodePageToken sample_tokens) 0 [?k] w = (Inr ([], ''Yv8=''), w)" for w :: "(unit, unit) world"
    by (simp add: split_page_def page_size_def EncodePageToken_def sample_tokens_def k sample_message_def call_defs)
  let ?w = "\<lparr>wd_yt = (), wd_sent = []\<rparr> :: (unit, unit) world"
  have "\<exists>k'. DecodePageToken sample_tokens sample_as_time [CHR ''Y'', CHR ''v'', CHR 0x0A, CHR ''8'', CHR ''=''] = Inr k' \<and>
      compareEventKey k' ?k = 0"
    using page_token_next [OF ok page [of ?w], of "[CHR ''Y'', CHR ''v'', CHR 0x0A, CHR ''8'', CHR ''='']"]
    by (auto simp: page_size_def)
  with page show ?thesis by blast
qed

end
