(* ===== verification/Yt_Client.thy ===== *)
theory Yt_Client
  imports Rpc_Calls
begin

text \<open>
  The client of the YT cluster (\<open>src/ytclient/ytclient.go\<close>) and the construction of an index from a
  table of the cluster (\<open>fromYt\<close> of \<open>src/index.go\<close>).

  The connection of the bus, the wire format of rows and the conversion of transaction ids are
  parameters (\<open>bus\<close>); the state \<open>'y\<close> is that of the cluster. A request is a value with the fields the
  code sets, a response has the fields the code reads. The operations are those of the interface
  \<open>yt_client\<close> that the storage uses; its name table is the list of the column names.
\<close>

subsection \<open>Requests and responses\<close>

datatype mod_type = RMT_WRITE | RMT_DELETE

datatype rowset_kind = RK_UNVERSIONED

datatype transaction_type = TT_TABLET

record rowset_descriptor =
  rd_WireFormatVersion :: int
  rd_RowsetKind :: rowset_kind
  rd_NameTableEntries :: "string list"

datatype 'p request =
    ReqGenerateTimestamps
  | ReqStartTransaction transaction_type bool
  | ReqCommitTransaction 'p
  | ReqAbortTransaction 'p
  | ReqModifyRows 'p string "mod_type list" rowset_descriptor
  | ReqLookupRows string rowset_descriptor "u64 option"

record 'p response =
  rp_Timestamp :: u64
  rp_Id :: "'p option"
  rp_StartTimestamp :: u64
  rp_PrimaryCommitTimestamp :: u64
  rp_NameTableEntries :: "string list"

text \<open>\<open>Send\<close> takes the service, the method, the request, the token and the attachments, and answers with
  the response and its attachments.\<close>

record ('y, 'p, 'g, 'r) bus =
  bs_Send :: "string \<Rightarrow> string \<Rightarrow> 'p request \<Rightarrow> string \<Rightarrow> u8 list list \<Rightarrow> 'y \<Rightarrow> (string + 'p response \<times> u8 list list) \<times> 'y"
  bs_NewGUIDFromProto :: "'p option \<Rightarrow> 'g"
  bs_NewProtoFromGUID :: "'g \<Rightarrow> 'p"
  bs_Encode :: "any_row list \<Rightarrow> string + string list \<times> 'r list"
  bs_MarshalRowset :: "'r list \<Rightarrow> string + u8 list"
  bs_UnmarshalRowset :: "u8 list \<Rightarrow> string + 'r list"

definition buildDescriptor :: "string list \<Rightarrow> rowset_descriptor" where
  "buildDescriptor nameTable =
     \<lparr>rd_WireFormatVersion = 1, rd_RowsetKind = RK_UNVERSIONED, rd_NameTableEntries = nameTable\<rparr>"

text \<open>The result of a call, or its error, with a function of the response.\<close>

definition answer :: "('p response \<times> u8 list list \<Rightarrow> string + 'a) \<Rightarrow> (string + 'p response \<times> u8 list list) \<times> 'y \<Rightarrow> (string + 'a) \<times> 'y" where
  "answer f r = (case r of (Inl e, y) \<Rightarrow> (Inl e, y) | (Inr x, y) \<Rightarrow> (f x, y))"

subsection \<open>The operations\<close>

definition GenerateTimestamp :: "('y, 'p, 'g, 'r) bus \<Rightarrow> string \<Rightarrow> 'y \<Rightarrow> (string + u64) \<times> 'y" where
  "GenerateTimestamp B token y =
     answer (\<lambda>(rsp, _). Inr (rp_Timestamp rsp))
       (bs_Send B ''ApiService'' ''GenerateTimestamps'' ReqGenerateTimestamps token [] y)"

definition StartTabletTx :: "('y, 'p, 'g, 'r) bus \<Rightarrow> string \<Rightarrow> 'y \<Rightarrow> (string + 'g \<times> u64) \<times> 'y" where
  "StartTabletTx B token y =
     answer (\<lambda>(rsp, _). Inr (bs_NewGUIDFromProto B (rp_Id rsp), rp_StartTimestamp rsp))
       (bs_Send B ''ApiService'' ''StartTransaction'' (ReqStartTransaction TT_TABLET True) token [] y)"

definition CommitTabletTx :: "('y, 'p, 'g, 'r) bus \<Rightarrow> string \<Rightarrow> 'g \<Rightarrow> 'y \<Rightarrow> (string + u64) \<times> 'y" where
  "CommitTabletTx B token txID y =
     answer (\<lambda>(rsp, _). Inr (rp_PrimaryCommitTimestamp rsp))
       (bs_Send B ''ApiService'' ''CommitTransaction'' (ReqCommitTransaction (bs_NewProtoFromGUID B txID)) token [] y)"

definition AbortTabletTx :: "('y, 'p, 'g, 'r) bus \<Rightarrow> string \<Rightarrow> 'g \<Rightarrow> 'y \<Rightarrow> (string + unit) \<times> 'y" where
  "AbortTabletTx B token txID y =
     answer (\<lambda>_. Inr ())
       (bs_Send B ''ApiService'' ''AbortTransaction'' (ReqAbortTransaction (bs_NewProtoFromGUID B txID)) token [] y)"

definition InsertRows :: "('y, 'p, 'g, 'r) bus \<Rightarrow> string \<Rightarrow> 'g \<Rightarrow> string \<Rightarrow> any_row list \<Rightarrow> 'y \<Rightarrow> (string + unit) \<times> 'y" where
  "InsertRows B token txID path rows y =
     (case bs_Encode B rows of Inl e \<Rightarrow> (Inl e, y) | Inr (nameTable, wireRows) \<Rightarrow>
        (case bs_MarshalRowset B wireRows of Inl e \<Rightarrow> (Inl e, y) | Inr data \<Rightarrow>
           answer (\<lambda>_. Inr ()) (bs_Send B ''ApiService'' ''ModifyRows''
             (ReqModifyRows (bs_NewProtoFromGUID B txID) path (replicate (length rows) RMT_WRITE) (buildDescriptor nameTable))
             token [data] y)))"

definition DeleteRows :: "('y, 'p, 'g, 'r) bus \<Rightarrow> string \<Rightarrow> 'g \<Rightarrow> string \<Rightarrow> any_row list \<Rightarrow> 'y \<Rightarrow> (string + unit) \<times> 'y" where
  "DeleteRows B token txID path rows y =
     (case bs_Encode B rows of Inl e \<Rightarrow> (Inl e, y) | Inr (nameTable, wireRows) \<Rightarrow>
        (case bs_MarshalRowset B wireRows of Inl e \<Rightarrow> (Inl e, y) | Inr data \<Rightarrow>
           answer (\<lambda>_. Inr ()) (bs_Send B ''ApiService'' ''ModifyRows''
             (ReqModifyRows (bs_NewProtoFromGUID B txID) path (replicate (length rows) RMT_DELETE) (buildDescriptor nameTable))
             token [data] y)))"

text \<open>A timestamp of 0 is left out of the request. The attachments of the response are joined.\<close>

definition LookupRows :: "('y, 'p, 'g, 'r) bus \<Rightarrow> string \<Rightarrow> string \<Rightarrow> any_row list \<Rightarrow> u64 \<Rightarrow> 'y \<Rightarrow> (string + 'r list \<times> string list) \<times> 'y" where
  "LookupRows B token path keys timestamp y =
     (case bs_Encode B keys of Inl e \<Rightarrow> (Inl e, y) | Inr (nameTable, wireKeys) \<Rightarrow>
        (case bs_MarshalRowset B wireKeys of Inl e \<Rightarrow> (Inl e, y) | Inr data \<Rightarrow>
           answer (\<lambda>(rsp, attachments).
               map_sum id (\<lambda>rows. (rows, rp_NameTableEntries rsp)) (bs_UnmarshalRowset B (concat attachments)))
             (bs_Send B ''ApiService'' ''LookupRows''
               (ReqLookupRows path (buildDescriptor nameTable) (if timestamp \<noteq> 0 then Some timestamp else None))
               token [data] y)))"

text \<open>The client as the storage uses it.\<close>

definition client_of :: "('y, 'p, 'g, 'r) bus \<Rightarrow> string \<Rightarrow> ('y, 'g, 'r, string list) yt_client" where
  "client_of B token =
     \<lparr>yt_GenerateTimestamp = GenerateTimestamp B token, yt_StartTabletTx = StartTabletTx B token,
      yt_CommitTabletTx = CommitTabletTx B token, yt_AbortTabletTx = AbortTabletTx B token,
      yt_InsertRows = InsertRows B token, yt_DeleteRows = DeleteRows B token, yt_LookupRows = LookupRows B token\<rparr>"

subsection \<open>Finding a proxy\<close>

text \<open>The configuration, the HTTP request and the JSON decoder are arguments; the number is the choice of
  \<open>rand.Intn\<close>.\<close>

definition discoverProxy :: "string \<Rightarrow> string + string \<times> string \<Rightarrow> string + (string \<Rightarrow> string + u8 list) \<Rightarrow>
    (u8 list \<Rightarrow> string + string list) \<Rightarrow> (nat \<Rightarrow> nat) \<Rightarrow> string + string" where
  "discoverProxy rpcProxy clusterURL httpClient decode intn =
     (if rpcProxy \<noteq> [] then Inr rpcProxy
      else case clusterURL of Inl e \<Rightarrow> Inl (''get cluster url: '' @ e)
      | Inr (scheme, address) \<Rightarrow>
        (case httpClient of Inl e \<Rightarrow> Inl (''build http client: '' @ e)
         | Inr get \<Rightarrow>
           (case get (scheme @ ''://'' @ address @ ''/api/v4/discover_proxies?type=rpc'') of
              Inl e \<Rightarrow> Inl (''discover_proxies: '' @ e)
            | Inr body \<Rightarrow>
              (case decode body of
                 Inl e \<Rightarrow> Inl (''decode proxies: '' @ e)
               | Inr proxies \<Rightarrow>
                 if length proxies = 0 then Inl (''no RPC proxies for '' @ address)
                 else Inr (proxies ! intn (length proxies))))))"

subsection \<open>An index from a table\<close>

text \<open>Reading a table gives the scanned rows, each with its error, and the error at the end. The outer option
  is the panic of \<open>indexEvent\<close>. At the end the index is returned together with the error, if any.\<close>

datatype load_error = ReadTableFail string | ScanRowFail string | UnmarshalProtoFail string

fun load_rows :: "'b roaring \<Rightarrow> ('ts option \<Rightarrow> go_time) \<Rightarrow> (u8 list \<Rightarrow> string + 'ts event) \<Rightarrow> (string + EventRow) list \<Rightarrow>
    'b roaringIndex \<Rightarrow> (load_error + 'b roaringIndex) option" where
  "load_rows R as_time unmarshal [] ri = Some (Inr ri)"
| "load_rows R as_time unmarshal (Inl e # rows) ri = Some (Inl (ScanRowFail e))"
| "load_rows R as_time unmarshal (Inr row # rows) ri =
     (case unmarshal (er_Event row) of
        Inl e \<Rightarrow> Some (Inl (UnmarshalProtoFail e))
      | Inr event \<Rightarrow>
        (case indexEvent R as_time ri (Some event) 0 False of
           None \<Rightarrow> None
         | Some ri \<Rightarrow> load_rows R as_time unmarshal rows ri))"

definition fromYt :: "'b roaring \<Rightarrow> ('ts option \<Rightarrow> go_time) \<Rightarrow> (u8 list \<Rightarrow> string + 'ts event) \<Rightarrow>
    (string \<Rightarrow> string + (string + EventRow) list \<times> string option) \<Rightarrow> string \<Rightarrow>
    (load_error + 'b roaringIndex \<times> string option) option" where
  "fromYt R as_time unmarshal readTable tablePath =
     (case readTable tablePath of
        Inl e \<Rightarrow> Some (Inl (ReadTableFail e))
      | Inr (rows, err) \<Rightarrow>
        map_option (map_sum id (\<lambda>ri. (ri, err))) (load_rows R as_time unmarshal rows (newRoaringIndex R)))"

end
