(* ===== verification/Load_Tool.thy ===== *)
theory Load_Tool
  imports Event_Model "HOL-Library.Sublist" "HOL-Library.Signed_Division"
begin

text \<open>
  The load generator (\<open>src/cmd/load/main.go\<close>): the conversion of an exported event to a request, the
  reading loop that leaves out repeated events, a worker that sends batches, and the statistics.

  The YSON reader, the gRPC client (whether the call of a given number succeeds), the clock, \<open>timestamppb.New\<close> and the printing of a time (which
  depends on the local zone) are arguments. \<open>None\<close> is a panic.
\<close>

subsection \<open>Exported events\<close>

record load_event =
  le_Attendees :: "string list"
  le_CalendarEventID :: "u32 option"
  le_Components :: "string list"
  le_CreatedAt :: "u64 option"
  le_CreatedBy :: "string option"
  le_Dcs :: "string list"
  le_Description :: "string option"
  le_EnvironmentID :: "u32 option"
  le_FinishTime :: "u32 option"
  le_ID :: "u32 option"
  le_InfralentaID :: "string option"
  le_IsDeleted :: "bool option"
  le_Meta :: "string option"
  le_ServiceID :: "u32 option"
  le_Severity :: "string option"
  le_StartTime :: "u32 option"
  le_Tickets :: "string option"
  le_Title :: "string option"
  le_Type :: "string option"
  le_UpdatedAt :: "u64 option"
  le_UpdatedBy :: "string option"
  le_EntityType :: string
  le_EntitySlug :: string

text \<open>\<open>time.Date(2105, time.December, 31, 23, 59, 59, 0, time.UTC)\<close>\<close>

definition NullEndTime :: go_time where
  "NullEndTime = in_UTC (time_Unix 4291747199 0)"

definition resourceTypeCode :: "string \<Rightarrow> string option" where
  "resourceTypeCode resourceType =
     (if resourceType = ''application'' then Some ''abc_application''
      else if resourceType = ''product'' then Some ''idp_product''
      else if resourceType = ''team'' then Some ''team''
      else None)"

definition strptr :: "string option \<Rightarrow> string" where
  "strptr s = (case s of None \<Rightarrow> ''<nil>'' | Some s \<Rightarrow> s)"

text \<open>\<open>strconv.Itoa\<close>\<close>

fun decimal :: "nat \<Rightarrow> string" where
  "decimal n = (if n < 10 then [char_of (48 + n)] else decimal (n div 10) @ [char_of (48 + n mod 10)])"

declare decimal.simps [simp del]

definition Itoa :: "int \<Rightarrow> string" where
  "Itoa i = (if i < 0 then CHR ''-'' # decimal (nat (- i)) else decimal (nat i))"

definition int32strptr :: "u32 option \<Rightarrow> string" where
  "int32strptr i = (case i of None \<Rightarrow> ''<nil>'' | Some i \<Rightarrow> Itoa (sint i))"

definition boolstrptr :: "bool option \<Rightarrow> string" where
  "boolstrptr b = (case b of None \<Rightarrow> ''<nil>'' | Some b \<Rightarrow> if b then ''true'' else ''false'')"

definition microsecondsToTime :: "u64 option \<Rightarrow> go_time" where
  "microsecondsToTime timestamp =
     (case timestamp of None \<Rightarrow> NullEndTime
      | Some t \<Rightarrow> if t = 0 then NullEndTime
                  else time_Unix (t div 1000000) (uint (t mod 1000000) * 1000))"

text \<open>\<open>time.Unix(int64(s), 0)\<close> of an int32.\<close>

definition unix_seconds :: "u32 \<Rightarrow> go_time" where
  "unix_seconds s = time_Unix (scast s) 0"

definition load_tags :: "load_event \<Rightarrow> string list" where
  "load_tags event = le_Components event @ map (\<lambda>dc. ''dc:'' @ dc) (le_Dcs event)"

definition mapEventToProto :: "(go_time \<Rightarrow> 'ts) \<Rightarrow> (go_time \<Rightarrow> string) \<Rightarrow> load_event \<Rightarrow> 'ts event option" where
  "mapEventToProto new show_time event =
     (case (resourceTypeCode (le_EntityType event), le_StartTime event) of
        (Some code, Some start) \<Rightarrow> Some
          \<lparr>ev_Id = [], ev_Title = strptr (le_Title event), ev_Description = strptr (le_Description event),
           ev_Resource = Some \<lparr>rs_TypeCode = code, rs_ExternalId = le_EntitySlug event\<rparr>,
           ev_StartTime = Some (new (unix_seconds start)),
           ev_EndTime = Some (new (case le_FinishTime event of None \<Rightarrow> NullEndTime | Some t \<Rightarrow> unix_seconds t)),
           ev_Tags = load_tags event,
           ev_Annotations =
             [(''resource_type_code'', code), (''resource_external_id'', le_EntitySlug event),
              (''service_id'', int32strptr (le_ServiceID event)),
              (''created_at'', show_time (microsecondsToTime (le_CreatedAt event)))],
           ev_CreatedBy = [], ev_UpdatedBy = [], ev_CreateTime = None, ev_UpdateTime = None, ev_DeleteTime = None\<rparr>
      | _ \<Rightarrow> None)"

subsection \<open>Reading\<close>

text \<open>What the reader delivers: an error of the reader, an error of the decoder, or an event.\<close>

datatype read_item = ReaderError | DecodeError | Item load_event

fun read_loop :: "(go_time \<Rightarrow> 'ts) \<Rightarrow> (go_time \<Rightarrow> string) \<Rightarrow> u32 set \<Rightarrow> read_item list \<Rightarrow> 'ts event list option" where
  "read_loop new show_time saw [] = Some []"
| "read_loop new show_time saw (ReaderError # items) = Some []"
| "read_loop new show_time saw (DecodeError # items) = Some []"
| "read_loop new show_time saw (Item event # items) =
     (case le_ServiceID event of
        None \<Rightarrow> read_loop new show_time saw items
      | Some _ \<Rightarrow>
        (case le_ID event of
           None \<Rightarrow> None
         | Some i \<Rightarrow>
           if i \<in> saw then read_loop new show_time saw items
           else (case mapEventToProto new show_time event of
                   None \<Rightarrow> None
                 | Some params \<Rightarrow> map_option ((#) params) (read_loop new show_time (insert i saw) items))))"

subsection \<open>Sending\<close>

text \<open>A worker: its batch, the counters, and the requests it has made with their outcome. A failed request is
  counted and not repeated.\<close>

record 'e load_worker =
  lw_batch :: "'e list"
  lw_totalSent :: i64
  lw_totalErrors :: i64
  lw_calls :: "('e list \<times> bool) list"

definition sendBatch :: "(nat \<Rightarrow> 'e list \<Rightarrow> bool) \<Rightarrow> 'e load_worker \<Rightarrow> 'e load_worker" where
  "sendBatch call w =
     (if length (lw_batch w) = 0 then w
      else let ok = call (length (lw_calls w)) (lw_batch w); n = of_nat (length (lw_batch w))
           in w\<lparr>lw_batch := [],
                lw_totalSent := if ok then lw_totalSent w + n else lw_totalSent w,
                lw_totalErrors := if ok then lw_totalErrors w else lw_totalErrors w + n,
                lw_calls := lw_calls w @ [(lw_batch w, ok)]\<rparr>)"

fun worker_loop :: "nat \<Rightarrow> (nat \<Rightarrow> 'e list \<Rightarrow> bool) \<Rightarrow> 'e list \<Rightarrow> 'e load_worker \<Rightarrow> 'e load_worker" where
  "worker_loop batchSize call [] w = sendBatch call w"
| "worker_loop batchSize call (job # jobs) w =
     (let w = w\<lparr>lw_batch := lw_batch w @ [job]\<rparr>
      in worker_loop batchSize call jobs (if length (lw_batch w) \<ge> batchSize then sendBatch call w else w))"

definition load_worker :: "nat \<Rightarrow> (nat \<Rightarrow> 'e list \<Rightarrow> bool) \<Rightarrow> 'e list \<Rightarrow> 'e load_worker" where
  "load_worker batchSize call jobs =
     worker_loop batchSize call jobs \<lparr>lw_batch = [], lw_totalSent = 0, lw_totalErrors = 0, lw_calls = []\<rparr>"

subsection \<open>Statistics\<close>

definition percentile :: "int list \<Rightarrow> nat \<Rightarrow> int option" where
  "percentile latencies p =
     (let i = length latencies * p div 100 in if i < length latencies then Some (latencies ! i) else None)"

text \<open>A duration is a signed 64 bit number of nanoseconds: the total wraps around, and the division by the
  number of requests truncates towards zero.\<close>

definition totalDuration :: "int list \<Rightarrow> int" where
  "totalDuration results = sint (fold (\<lambda>r total. total + of_int r) results 0 :: i64)"

record latency_stats =
  lt_Total :: nat
  lt_Min :: int
  lt_Mean :: int
  lt_p50 :: int
  lt_p95 :: int
  lt_p99 :: int
  lt_Max :: int

definition latency_metrics :: "int list \<Rightarrow> latency_stats option" where
  "latency_metrics results =
     (let latencies = sort results in
      case (latencies, percentile latencies 50, percentile latencies 95, percentile latencies 99) of
        (_ # _, Some p50, Some p95, Some p99) \<Rightarrow>
          Some \<lparr>lt_Total = length latencies, lt_Min = hd latencies,
                lt_Mean = totalDuration results sdiv int (length latencies), lt_p50 = p50, lt_p95 = p95, lt_p99 = p99, lt_Max = last latencies\<rparr>
      | _ \<Rightarrow> None)"

subsection \<open>What a worker sends\<close>

definition sent_with :: "bool \<Rightarrow> ('e list \<times> bool) list \<Rightarrow> 'e list" where
  "sent_with ok calls = concat (map fst (filter (\<lambda>c. snd c = ok) calls))"

definition worker_ok :: "nat \<Rightarrow> 'e list \<Rightarrow> 'e load_worker \<Rightarrow> bool" where
  "worker_ok n jobs w \<longleftrightarrow> concat (map fst (lw_calls w)) @ lw_batch w = jobs \<and>
     (\<forall>(b, ok) \<in> set (lw_calls w). b \<noteq> [] \<and> length b \<le> max 1 n) \<and>
     lw_totalSent w = of_nat (length (sent_with True (lw_calls w))) \<and>
     lw_totalErrors w = of_nat (length (sent_with False (lw_calls w)))"

lemma sendBatch_ok:
  assumes "worker_ok n jobs w" and "length (lw_batch w) \<le> max 1 n"
  shows "worker_ok n jobs (sendBatch call w) \<and> lw_batch (sendBatch call w) = []"
  using assms by (auto simp: worker_ok_def sendBatch_def sent_with_def Let_def)

lemma worker_loop_ok:
  assumes "worker_ok n done w" and "length (lw_batch w) < max 1 n"
  shows "worker_ok n (done @ jobs) (worker_loop n call jobs w) \<and> lw_batch (worker_loop n call jobs w) = []"
  using assms
proof (induction jobs arbitrary: w "done")
  case Nil
  then show ?case using sendBatch_ok [of n "done" w call] by simp
next
  case (Cons job jobs)
  let ?w = "w\<lparr>lw_batch := lw_batch w @ [job]\<rparr>"
  have w: "worker_ok n (done @ [job]) ?w" "length (lw_batch ?w) \<le> max 1 n"
    using Cons.prems by (auto simp: worker_ok_def)
  show ?case
  proof (cases "length (lw_batch ?w) \<ge> n")
    case True
    with sendBatch_ok [OF w] Cons.IH [of "done @ [job]" "sendBatch call ?w"] show ?thesis by (simp add: Let_def)
  next
    case False
    with w Cons.IH [of "done @ [job]" ?w] show ?thesis by (simp add: Let_def)
  qed
qed

lemma load_worker_ok: "worker_ok n jobs (load_worker n call jobs) \<and> lw_batch (load_worker n call jobs) = []"
proof -
  let ?w = "\<lparr>lw_batch = [], lw_totalSent = 0, lw_totalErrors = 0, lw_calls = []\<rparr> :: 'a load_worker"
  have "worker_ok n [] ?w" "length (lw_batch ?w) < max 1 n" by (simp_all add: worker_ok_def sent_with_def)
  from worker_loop_ok [OF this, of jobs call] show ?thesis by (simp add: load_worker_def)
qed

subsection \<open>What is read\<close>

text \<open>The events before the first error.\<close>

fun read_items :: "read_item list \<Rightarrow> load_event list" where
  "read_items (Item e # items) = e # read_items items"
| "read_items _ = []"

lemma read_loop_reads:
  assumes "read_loop new show_time saw items = Some reqs"
  shows "\<exists>evs. subseq evs (read_items items) \<and> map (mapEventToProto new show_time) evs = map Some reqs \<and>
    distinct (map le_ID evs) \<and> set (map le_ID evs) \<inter> Some ` saw = {} \<and>
    (\<forall>e \<in> set (read_items items). le_ServiceID e \<noteq> None \<longrightarrow> le_ID e \<in> Some ` saw \<union> set (map le_ID evs))"
  using assms
proof (induction new show_time saw items arbitrary: reqs rule: read_loop.induct)
  case (4 new show_time saw event items)
  show ?case
  proof (cases "le_ServiceID event")
    case None
    with "4.prems" "4.IH"(1) obtain evs where "subseq evs (read_items items)"
      "map (mapEventToProto new show_time) evs = map Some reqs" "distinct (map le_ID evs)"
      "set (map le_ID evs) \<inter> Some ` saw = {}"
      "\<forall>e \<in> set (read_items items). le_ServiceID e \<noteq> None \<longrightarrow> le_ID e \<in> Some ` saw \<union> set (map le_ID evs)" by auto
    then show ?thesis by (intro exI [of _ evs]) (simp add: None list_emb_Cons)
  next
    case (Some v)
    then obtain i where i: "le_ID event = Some i" using "4.prems" by (auto split: option.splits)
    show ?thesis
    proof (cases "i \<in> saw")
      case True
      with "4.prems" "4.IH"(2) [OF Some i] Some i obtain evs where "subseq evs (read_items items)"
        "map (mapEventToProto new show_time) evs = map Some reqs" "distinct (map le_ID evs)"
        "set (map le_ID evs) \<inter> Some ` saw = {}"
        "\<forall>e \<in> set (read_items items). le_ServiceID e \<noteq> None \<longrightarrow> le_ID e \<in> Some ` saw \<union> set (map le_ID evs)" by auto
      with True i show ?thesis by (intro exI [of _ evs]) (simp add: list_emb_Cons)
    next
      case False
      with "4.prems" Some i obtain p rest where p: "mapEventToProto new show_time event = Some p"
        "read_loop new show_time (insert i saw) items = Some rest" "reqs = p # rest"
        by (auto split: option.splits)
      from "4.IH"(3) [OF Some i False p(1,2)] obtain evs where evs: "subseq evs (read_items items)"
        "map (mapEventToProto new show_time) evs = map Some rest" "distinct (map le_ID evs)"
        "set (map le_ID evs) \<inter> Some ` insert i saw = {}"
        "\<forall>e \<in> set (read_items items). le_ServiceID e \<noteq> None \<longrightarrow> le_ID e \<in> Some ` insert i saw \<union> set (map le_ID evs)"
        by blast
      show ?thesis
        by (rule exI [of _ "event # evs"]) (use evs p i False in \<open>auto simp: image_iff\<close>)
    qed
  qed
qed auto

end
