(* ===== verification/Load_Run.thy ===== *)
theory Load_Run
  imports Load_Tool "HOL-Library.Multiset"
begin

text \<open>
  A run of the load generator (\<open>main\<close> of \<open>src/cmd/load/main.go\<close>): the reading loop sends the events into a
  channel, any number of workers take them out of it, and each of them makes its requests and
  sends their durations into a second channel, which nobody reads before all workers have ended.
\<close>

subsection \<open>State\<close>

text \<open>Where a worker is: it waits for the next event with the batch it has so far, a request with its batch
  is under way, it sends a duration, or it has ended. The flag says that it is the request after
  the loop.\<close>

datatype 'e load_pc =
    L_receive "'e list" | L_request "'e list" bool | L_report bool int | L_done

record 'e load_run =
  lr_todo :: "'e list"            \<comment> \<open>what the reading loop has still to send\<close>
  lr_jobs :: "'e list"            \<comment> \<open>what is in the channel \<open>jobs\<close>\<close>
  lr_closed :: bool
  lr_workers :: "'e load_pc list"
  lr_results :: "int list"        \<comment> \<open>what is in the channel \<open>results\<close>\<close>
  lr_totalSent :: i64
  lr_totalErrors :: i64
  lr_calls :: "('e list \<times> bool) list"   \<comment> \<open>the answered requests\<close>

definition maxResults :: nat where
  "maxResults = 2000000"

definition load_start :: "nat \<Rightarrow> 'e list \<Rightarrow> 'e load_run" where
  "load_start workers events =
     \<lparr>lr_todo = events, lr_jobs = [], lr_closed = False, lr_workers = replicate workers (L_receive []),
      lr_results = [], lr_totalSent = 0, lr_totalErrors = 0, lr_calls = []\<rparr>"

text \<open>\<open>make(chan *storagepb.CreateEventRequest, workers * batchSize * 2)\<close>\<close>

definition jobs_cap :: "nat \<Rightarrow> 'e load_run \<Rightarrow> nat" where
  "jobs_cap batchSize s = length (lr_workers s) * batchSize * 2"

text \<open>The body of the loop of a worker, and what follows a request.\<close>

definition received :: "nat \<Rightarrow> 'e list \<Rightarrow> 'e \<Rightarrow> 'e load_pc" where
  "received batchSize batch job =
     (if length (batch @ [job]) \<ge> batchSize then L_request (batch @ [job]) False else L_receive (batch @ [job]))"

definition after_request :: "bool \<Rightarrow> 'e load_pc" where
  "after_request final = (if final then L_done else L_receive [])"

definition set_worker :: "nat \<Rightarrow> 'e load_pc \<Rightarrow> 'e load_run \<Rightarrow> 'e load_run" where
  "set_worker i p s = s\<lparr>lr_workers := (lr_workers s)[i := p]\<rparr>"

abbreviation at_worker :: "'e load_run \<Rightarrow> nat \<Rightarrow> 'e load_pc \<Rightarrow> bool" where
  "at_worker s i p \<equiv> i < length (lr_workers s) \<and> lr_workers s ! i = p"

subsection \<open>Steps\<close>

text \<open>A send to a channel passes the value directly when a receiver waits, also when the channel has no
  buffer.\<close>

inductive load_step :: "nat \<Rightarrow> 'e load_run \<Rightarrow> 'e load_run \<Rightarrow> bool" for n where
  produce: "lr_todo s = x # xs \<Longrightarrow> length (lr_jobs s) < jobs_cap n s \<Longrightarrow>
    load_step n s (s\<lparr>lr_todo := xs, lr_jobs := lr_jobs s @ [x]\<rparr>)"
| hand_over: "lr_todo s = x # xs \<Longrightarrow> lr_jobs s = [] \<Longrightarrow> at_worker s i (L_receive b) \<Longrightarrow>
    load_step n s (set_worker i (received n b x) s\<lparr>lr_todo := xs\<rparr>)"
| close_jobs: "lr_todo s = [] \<Longrightarrow> \<not> lr_closed s \<Longrightarrow> load_step n s (s\<lparr>lr_closed := True\<rparr>)"
| receive: "lr_jobs s = x # xs \<Longrightarrow> at_worker s i (L_receive b) \<Longrightarrow>
    load_step n s (set_worker i (received n b x) s\<lparr>lr_jobs := xs\<rparr>)"
| drained: "lr_jobs s = [] \<Longrightarrow> lr_closed s \<Longrightarrow> at_worker s i (L_receive b) \<Longrightarrow>
    load_step n s (set_worker i (if b = [] then L_done else L_request b True) s)"
| answer: "at_worker s i (L_request b final) \<Longrightarrow>
    load_step n s (set_worker i (L_report final d) s
      \<lparr>lr_totalSent := lr_totalSent s + of_nat (length b), lr_calls := lr_calls s @ [(b, True)]\<rparr>)"
| answer_error: "at_worker s i (L_request b final) \<Longrightarrow>
    load_step n s (set_worker i (after_request final) s
      \<lparr>lr_totalErrors := lr_totalErrors s + of_nat (length b), lr_calls := lr_calls s @ [(b, False)]\<rparr>)"
| report: "at_worker s i (L_report final d) \<Longrightarrow> length (lr_results s) < maxResults \<Longrightarrow>
    load_step n s (set_worker i (after_request final) s\<lparr>lr_results := lr_results s @ [d]\<rparr>)"

abbreviation load_steps where
  "load_steps n \<equiv> (load_step n)\<^sup>*\<^sup>*"

text \<open>\<open>wg.Wait()\<close> returns.\<close>

definition finished :: "'e load_run \<Rightarrow> bool" where
  "finished s \<longleftrightarrow> lr_closed s \<and> set (lr_workers s) \<subseteq> {L_done}"

lemma set_worker_simps [simp]:
  "lr_todo (set_worker i p s) = lr_todo s" "lr_jobs (set_worker i p s) = lr_jobs s" "lr_closed (set_worker i p s) = lr_closed s"
  "lr_workers (set_worker i p s) = (lr_workers s)[i := p]" "lr_results (set_worker i p s) = lr_results s"
  "lr_totalSent (set_worker i p s) = lr_totalSent s" "lr_totalErrors (set_worker i p s) = lr_totalErrors s"
  "lr_calls (set_worker i p s) = lr_calls s"
  by (simp_all add: set_worker_def)

lemma length_workers: "load_step n s t \<Longrightarrow> length (lr_workers t) = length (lr_workers s)"
  by (induction rule: load_step.induct) simp_all

subsection \<open>Every run ends\<close>

text \<open>What one more step takes away.\<close>

fun pc_weight :: "'e load_pc \<Rightarrow> nat" where
  "pc_weight (L_receive b) = 5 * length b + 1"
| "pc_weight (L_request b final) = 4"
| "pc_weight (L_report final d) = 2"
| "pc_weight L_done = 0"

definition load_weight :: "'e load_run \<Rightarrow> nat" where
  "load_weight s = 7 * length (lr_todo s) + 6 * length (lr_jobs s) + sum_list (map pc_weight (lr_workers s)) +
     (if lr_closed s then 0 else 1)"

lemma sum_list_map_update:
  fixes f :: "'a \<Rightarrow> 'b :: comm_monoid_add"
  shows "i < length xs \<Longrightarrow> sum_list (map f (xs[i := x])) + f (xs ! i) = sum_list (map f xs) + f x"
proof (induction xs arbitrary: i)
  case (Cons y ys)
  then show ?case
  proof (cases i)
    case (Suc j)
    with Cons have "sum_list (map f (ys[j := x])) + f (ys ! j) = sum_list (map f ys) + f x" by simp
    then show ?thesis by (simp add: Suc add.assoc)
  qed (simp add: ac_simps)
qed simp

lemma load_weight_step: "load_step n s t \<Longrightarrow> load_weight t < load_weight s"
proof (induction rule: load_step.induct)
  case (hand_over s x xs i b)
  then show ?case using sum_list_map_update [of i "lr_workers s" pc_weight "received n b x"]
    by (simp add: load_weight_def received_def split: if_splits)
next
  case (receive s x xs i b)
  then show ?case using sum_list_map_update [of i "lr_workers s" pc_weight "received n b x"]
    by (simp add: load_weight_def received_def split: if_splits)
next
  case (drained s i b)
  then show ?case using sum_list_map_update [of i "lr_workers s" pc_weight "if b = [] then L_done else L_request b True"]
    by (cases b) (simp_all add: load_weight_def)
next
  case (answer s i b final d)
  then show ?case using sum_list_map_update [of i "lr_workers s" pc_weight "L_report final d"] by (simp add: load_weight_def)
next
  case (answer_error s i b final)
  then show ?case using sum_list_map_update [of i "lr_workers s" pc_weight "after_request final"]
    by (simp add: load_weight_def after_request_def split: if_splits)
next
  case (report s i final d)
  then show ?case using sum_list_map_update [of i "lr_workers s" pc_weight "after_request final"]
    by (simp add: load_weight_def after_request_def split: if_splits)
qed (simp_all add: load_weight_def)

lemma load_run_short: "(load_step n ^^ j) s t \<Longrightarrow> j + load_weight t \<le> load_weight s"
proof (induction j arbitrary: t)
  case (Suc j)
  then obtain u where "(load_step n ^^ j) s u" "load_step n u t" by auto
  with Suc.IH [of u] load_weight_step [of n u t] show ?case by simp
qed simp

subsection \<open>What every run keeps\<close>

fun pc_batch :: "'e load_pc \<Rightarrow> 'e list" where
  "pc_batch (L_receive b) = b"
| "pc_batch (L_request b final) = b"
| "pc_batch _ = []"

fun pc_report :: "'e load_pc \<Rightarrow> nat" where
  "pc_report (L_report final d) = 1"
| "pc_report _ = 0"

text \<open>The size of a batch, and that the events have run out for a worker that makes its last request.\<close>

fun pc_ok :: "nat \<Rightarrow> bool \<Rightarrow> 'e load_pc \<Rightarrow> bool" where
  "pc_ok n gone (L_receive b) \<longleftrightarrow> length b < max 1 n"
| "pc_ok n gone (L_request b final) \<longleftrightarrow> b \<noteq> [] \<and> length b \<le> max 1 n \<and> (final \<longrightarrow> gone)"
| "pc_ok n gone (L_report final d) \<longleftrightarrow> (final \<longrightarrow> gone)"
| "pc_ok n gone L_done \<longleftrightarrow> gone"

definition drained_all :: "'e load_run \<Rightarrow> bool" where
  "drained_all s \<longleftrightarrow> lr_closed s \<and> lr_todo s = [] \<and> lr_jobs s = []"

definition all_events :: "'e load_run \<Rightarrow> 'e multiset" where
  "all_events s = mset (lr_todo s) + mset (lr_jobs s) + sum_list (map (mset \<circ> pc_batch) (lr_workers s)) +
     mset (concat (map fst (lr_calls s)))"

definition load_inv :: "nat \<Rightarrow> 'e list \<Rightarrow> 'e load_run \<Rightarrow> bool" where
  "load_inv n events s \<longleftrightarrow> all_events s = mset events \<and>
     lr_totalSent s = of_nat (length (sent_with True (lr_calls s))) \<and>
     lr_totalErrors s = of_nat (length (sent_with False (lr_calls s))) \<and>
     (\<forall>(b, ok) \<in> set (lr_calls s). b \<noteq> [] \<and> length b \<le> max 1 n) \<and>
     (\<forall>p \<in> set (lr_workers s). pc_ok n (drained_all s) p) \<and>
     length (lr_results s) + sum_list (map pc_report (lr_workers s)) = length (filter snd (lr_calls s)) \<and>
     (lr_closed s \<longrightarrow> lr_todo s = []) \<and> length (lr_jobs s) \<le> jobs_cap n s \<and> length (lr_results s) \<le> maxResults"

lemma sum_list_zeros: "sum_list (replicate k (0 :: 'a :: comm_monoid_add)) = 0"
  by (induction k) simp_all

lemma load_inv_start: "load_inv n events (load_start workers events)"
  by (auto simp: load_inv_def load_start_def all_events_def sent_with_def sum_list_zeros)

lemma pc_ok_mono: "pc_ok n gone p \<Longrightarrow> (gone \<Longrightarrow> gone') \<Longrightarrow> pc_ok n gone' p"
  by (cases p) auto

lemma pcs_update:
  assumes "\<forall>p \<in> set ps. pc_ok n gone p" and "pc_ok n gone' p" and "gone \<Longrightarrow> gone'"
  shows "\<forall>q \<in> set (ps[i := p]). pc_ok n gone' q"
  using assms pc_ok_mono set_update_subset_insert [of ps i p] by (metis insert_iff subsetD)

lemma sent_with_snoc: "sent_with ok (calls @ [(b, ok')]) = sent_with ok calls @ (if ok = ok' then b else [])"
  by (simp add: sent_with_def)

lemma received_pc: "pc_ok n gone (L_receive b) \<Longrightarrow> pc_ok n gone' (received n b x)" "pc_report (received n b x) = 0"
  "pc_batch (received n b x) = b @ [x]"
  by (auto simp: received_def)

lemma after_request_pc: "pc_report (after_request final) = 0" "pc_batch (after_request final) = []"
  "(final \<Longrightarrow> gone) \<Longrightarrow> pc_ok n gone (after_request final)"
  by (simp_all add: after_request_def less_max_iff_disj)

lemma at_worker_mem: "at_worker s i p \<Longrightarrow> p \<in> set (lr_workers s)"
  by (metis nth_mem)

text \<open>Only one worker changes in a step.\<close>

lemma worker_sums:
  assumes "at_worker s i q"
  shows "sum_list (map (mset \<circ> pc_batch) ((lr_workers s)[i := p])) + mset (pc_batch q) =
      sum_list (map (mset \<circ> pc_batch) (lr_workers s)) + mset (pc_batch p)"
    and "sum_list (map pc_report ((lr_workers s)[i := p])) + pc_report q = sum_list (map pc_report (lr_workers s)) + pc_report p"
  using sum_list_map_update [of i "lr_workers s" "mset \<circ> pc_batch" p] sum_list_map_update [of i "lr_workers s" pc_report p] assms
  by simp_all

lemma batch_grows:
  assumes "at_worker s i q" and "pc_batch p = pc_batch q @ [x]"
  shows "sum_list (map (mset \<circ> pc_batch) ((lr_workers s)[i := p])) = add_mset x (sum_list (map (mset \<circ> pc_batch) (lr_workers s)))"
  using worker_sums(1) [OF assms(1), of p] assms(2) by simp

lemma batch_answered:
  assumes "at_worker s i q" and "pc_batch p = []"
  shows "sum_list (map (mset \<circ> pc_batch) (lr_workers s)) = sum_list (map (mset \<circ> pc_batch) ((lr_workers s)[i := p])) + mset (pc_batch q)"
  using worker_sums(1) [OF assms(1), of p] assms(2) by simp

lemma all_events_step: "load_step n s t \<Longrightarrow> all_events t = all_events s"
proof (induction rule: load_step.induct)
  case (hand_over s x xs i b)
  then show ?case using batch_grows [OF hand_over(3), of "received n b x" x] by (simp add: all_events_def received_pc)
next
  case (receive s x xs i b)
  then show ?case using batch_grows [OF receive(2), of "received n b x" x] by (simp add: all_events_def received_pc)
next
  case (drained s i b)
  then show ?case using worker_sums(1) [OF drained(3), of "if b = [] then L_done else L_request b True"]
    by (auto simp: all_events_def split: if_splits)
next
  case (answer s i b final d)
  then show ?case using batch_answered [OF answer(1), of "L_report final d"] by (simp add: all_events_def ac_simps)
next
  case (answer_error s i b final)
  then show ?case using batch_answered [OF answer_error(1), of "after_request final"]
    by (simp add: all_events_def after_request_pc ac_simps)
next
  case (report s i final d)
  then show ?case using batch_answered [OF report(1), of "after_request final"] by (simp add: all_events_def after_request_pc ac_simps)
qed (simp_all add: all_events_def)

lemma load_inv_step:
  assumes "load_step n s t" and "load_inv n events s"
  shows "load_inv n events t"
proof -
  have "all_events t = mset events" using all_events_step [OF assms(1)] assms(2) by (simp add: load_inv_def)
  with assms show ?thesis
  proof (induction rule: load_step.induct)
    case (produce s x xs)
    then show ?case
      by (auto simp: load_inv_def drained_all_def jobs_cap_def intro: pc_ok_mono)
  next
    case (hand_over s x xs i b)
    then have ok: "\<forall>p \<in> set (lr_workers s). pc_ok n (drained_all s) p" "pc_ok n (drained_all s) (L_receive b)"
      using at_worker_mem [of i s] by (auto simp: load_inv_def)
    have "\<forall>p \<in> set ((lr_workers s)[i := received n b x]). pc_ok n False p"
      by (rule pcs_update [OF ok(1) received_pc(1) [OF ok(2)]]) (use hand_over in \<open>simp add: drained_all_def\<close>)
    with hand_over worker_sums [OF hand_over(3), of "received n b x"] show ?case
      by (auto simp: load_inv_def drained_all_def jobs_cap_def received_pc intro: pc_ok_mono)
  next
    case (close_jobs s)
    then show ?case by (auto simp: load_inv_def drained_all_def jobs_cap_def intro: pc_ok_mono)
  next
    case (receive s x xs i b)
    then have ok: "\<forall>p \<in> set (lr_workers s). pc_ok n (drained_all s) p" "pc_ok n (drained_all s) (L_receive b)"
      using at_worker_mem [of i s] by (auto simp: load_inv_def)
    have "\<forall>p \<in> set ((lr_workers s)[i := received n b x]). pc_ok n False p"
      by (rule pcs_update [OF ok(1) received_pc(1) [OF ok(2)]]) (use receive in \<open>simp add: drained_all_def\<close>)
    with receive worker_sums [OF receive(2), of "received n b x"] show ?case
      by (auto simp: load_inv_def drained_all_def jobs_cap_def received_pc intro: pc_ok_mono)
  next
    case (drained s i b)
    let ?p = "if b = [] then L_done else L_request b True"
    have ok: "\<forall>p \<in> set (lr_workers s). pc_ok n (drained_all s) p" "pc_ok n (drained_all s) (L_receive b)"
      using drained at_worker_mem [of i s] by (auto simp: load_inv_def)
    have d: "drained_all s" using drained by (simp add: drained_all_def load_inv_def)
    have "\<forall>p \<in> set ((lr_workers s)[i := ?p]). pc_ok n (drained_all s) p"
      by (rule pcs_update [OF ok(1)]) (use ok(2) d in auto)
    with drained worker_sums [OF drained(3), of ?p] show ?case
      by (auto simp: load_inv_def drained_all_def jobs_cap_def)
  next
    case (answer s i b final d)
    have ok: "\<forall>p \<in> set (lr_workers s). pc_ok n (drained_all s) p" "pc_ok n (drained_all s) (L_request b final)"
      using answer at_worker_mem [of i s] by (auto simp: load_inv_def)
    have "\<forall>p \<in> set ((lr_workers s)[i := L_report final d]). pc_ok n (drained_all s) p"
      by (rule pcs_update [OF ok(1)]) (use ok(2) in auto)
    with answer ok(2) worker_sums [OF answer(1), of "L_report final d"] show ?case
      by (auto simp: load_inv_def drained_all_def jobs_cap_def sent_with_snoc)
  next
    case (answer_error s i b final)
    have ok: "\<forall>p \<in> set (lr_workers s). pc_ok n (drained_all s) p" "pc_ok n (drained_all s) (L_request b final)"
      using answer_error at_worker_mem [of i s] by (auto simp: load_inv_def)
    have "\<forall>p \<in> set ((lr_workers s)[i := after_request final]). pc_ok n (drained_all s) p"
      by (rule pcs_update [OF ok(1) after_request_pc(3)]) (use ok(2) in auto)
    with answer_error ok(2) worker_sums [OF answer_error(1), of "after_request final"] show ?case
      by (auto simp: load_inv_def drained_all_def jobs_cap_def sent_with_snoc after_request_pc)
  next
    case (report s i final d)
    have ok: "\<forall>p \<in> set (lr_workers s). pc_ok n (drained_all s) p" "pc_ok n (drained_all s) (L_report final d)"
      using report at_worker_mem [of i s] by (auto simp: load_inv_def)
    have "\<forall>p \<in> set ((lr_workers s)[i := after_request final]). pc_ok n (drained_all s) p"
      by (rule pcs_update [OF ok(1) after_request_pc(3)]) (use ok(2) in auto)
    with report ok(2) worker_sums [OF report(1), of "after_request final"] show ?case
      by (auto simp: load_inv_def drained_all_def jobs_cap_def after_request_pc)
  qed
qed

lemma load_inv_steps: "load_steps n (load_start workers events) s \<Longrightarrow> load_inv n events s"
  by (induction rule: rtranclp_induct) (auto intro: load_inv_start load_inv_step)

lemma workers_steps: "load_steps n (load_start workers events) s \<Longrightarrow> length (lr_workers s) = workers"
  by (induction rule: rtranclp_induct) (auto simp: load_start_def dest: length_workers)

subsection \<open>No run gets stuck\<close>

lemma sent_split: "mset (sent_with True calls) + mset (sent_with False calls) = mset (concat (map fst calls))"
  by (induction calls) (auto simp: sent_with_def)

lemma count_calls: "\<forall>(b, ok) \<in> set calls. b \<noteq> [] \<Longrightarrow> length (filter snd calls) \<le> length (concat (map fst calls))"
proof (induction calls)
  case (Cons c calls)
  then show ?case by (cases "fst c") auto
qed simp

lemma load_inv_room:
  assumes "load_inv n events s" and "length events \<le> maxResults" and "at_worker s i (L_report final d)"
  shows "length (lr_results s) < maxResults"
proof -
  have "length (filter snd (lr_calls s)) \<le> length (concat (map fst (lr_calls s)))"
    using assms(1) by (intro count_calls) (auto simp: load_inv_def)
  also have "\<dots> = size (mset (concat (map fst (lr_calls s))))" by (rule size_mset [symmetric])
  also have "\<dots> \<le> size (all_events s)" unfolding all_events_def size_union by linarith
  also have "size (all_events s) = length events" using assms(1) by (simp add: load_inv_def)
  finally have "length (lr_results s) + sum_list (map pc_report (lr_workers s)) \<le> length events"
    using assms(1) by (simp add: load_inv_def)
  moreover have "1 \<le> sum_list (map pc_report (lr_workers s))"
    using assms(3) elem_le_sum_list [of i "map pc_report (lr_workers s)"] by simp
  ultimately show ?thesis using assms(2) by linarith
qed

lemma load_progress:
  assumes inv: "load_inv n events s" and few: "length events \<le> maxResults" and some: "lr_workers s \<noteq> [] \<or> events = []"
    and more: "\<not> finished s"
  shows "\<exists>t. load_step n s t"
proof (cases "set (lr_workers s) \<subseteq> {L_done}")
  case True
  with more have closed: "\<not> lr_closed s" by (simp add: finished_def)
  have "lr_todo s = []"
  proof (cases "lr_workers s")
    case Nil
    with some inv show ?thesis by (simp add: load_inv_def all_events_def)
  next
    case (Cons p ps)
    with True inv have "drained_all s" by (auto simp: load_inv_def)
    with closed show ?thesis by (simp add: drained_all_def)
  qed
  from load_step.close_jobs [OF this closed] show ?thesis by blast
next
  case False
  then obtain p where "p \<in> set (lr_workers s)" "p \<noteq> L_done" by blast
  then obtain i where i: "at_worker s i p" "p \<noteq> L_done" by (auto simp: in_set_conv_nth)
  show ?thesis
  proof (cases p)
    case (L_receive b)
    consider x xs where "lr_jobs s = x # xs" | x xs where "lr_jobs s = []" "lr_todo s = x # xs"
      | "lr_jobs s = []" "lr_closed s" | "lr_todo s = []" "\<not> lr_closed s" by (meson neq_Nil_conv)
    then show ?thesis using i(1) unfolding L_receive
      by cases (blast intro: load_step.receive load_step.hand_over load_step.drained load_step.close_jobs)+
  next
    case (L_request b final)
    with i(1) load_step.answer_error show ?thesis by blast
  next
    case (L_report final d)
    with i(1) load_step.report [of i s final d n] load_inv_room [OF inv few] show ?thesis by blast
  qed (use i(2) in simp)
qed

lemma finished_drained:
  assumes "load_inv n events s" and "finished s"
  shows "all_events s = mset (concat (map fst (lr_calls s)))" and "sum_list (map pc_report (lr_workers s)) = 0"
proof -
  have ended: "\<forall>p \<in> set (lr_workers s). p = L_done" using assms(2) by (auto simp: finished_def)
  have "lr_jobs s = []"
  proof (cases "lr_workers s")
    case Nil
    with assms(1) show ?thesis by (simp add: load_inv_def jobs_cap_def)
  next
    case (Cons p ps)
    with assms(1) ended have "drained_all s" by (auto simp: load_inv_def)
    then show ?thesis by (simp add: drained_all_def)
  qed
  moreover have "lr_todo s = []" using assms by (simp add: load_inv_def finished_def)
  moreover obtain k where "lr_workers s = replicate k L_done" using ended by (metis replicate_eqI)
  ultimately show "all_events s = mset (concat (map fst (lr_calls s)))" "sum_list (map pc_report (lr_workers s)) = 0"
    by (simp_all add: all_events_def sum_list_zeros)
qed

subsection \<open>A full channel of results\<close>

lemma load_step_results: "load_step n s t \<Longrightarrow> length (lr_results s) \<le> length (lr_results t)"
  by (induction rule: load_step.induct) simp_all

lemma reports_forever_step:
  assumes "load_step n s t" and "at_worker s i (L_report final d)" and "maxResults \<le> length (lr_results s)"
  shows "at_worker t i (L_report final d)"
  using assms by (induction rule: load_step.induct) (auto simp: nth_list_update)

lemma reports_forever:
  assumes "load_steps n s t" and "at_worker s i (L_report final d)" and "maxResults \<le> length (lr_results s)"
  shows "at_worker t i (L_report final d) \<and> maxResults \<le> length (lr_results t)"
  using assms(1)
proof (induction rule: rtranclp_induct)
  case (step u v)
  then show ?case using reports_forever_step [OF step(2)] load_step_results [OF step(2)] by auto
qed (use assms in simp)

text \<open>A run of one worker with batches of one event, in which every request succeeds.\<close>

definition one_worker :: "'e list \<Rightarrow> 'e load_pc \<Rightarrow> bool \<Rightarrow> int list \<Rightarrow> i64 \<Rightarrow> i64 \<Rightarrow> ('e list \<times> bool) list \<Rightarrow> 'e load_run" where
  "one_worker events p closed results ok bad calls = \<lparr>lr_todo = events, lr_jobs = [], lr_closed = closed, lr_workers = [p],
     lr_results = results, lr_totalSent = ok, lr_totalErrors = bad, lr_calls = calls\<rparr>"

lemma one_worker_steps:
  "load_step n (one_worker (x # xs) (L_receive b) False rs ok bad cs) (one_worker xs (received n b x) False rs ok bad cs)"
  "load_step n (one_worker xs (L_request b final) closed rs ok bad cs)
     (one_worker xs (L_report final d) closed rs (ok + of_nat (length b)) bad (cs @ [(b, True)]))"
  "load_step n (one_worker xs (L_request b final) closed rs ok bad cs)
     (one_worker xs (after_request final) closed rs ok (bad + of_nat (length b)) (cs @ [(b, False)]))"
  "length rs < maxResults \<Longrightarrow> load_step n (one_worker xs (L_report final d) closed rs ok bad cs)
     (one_worker xs (after_request final) closed (rs @ [d]) ok bad cs)"
  "load_step n (one_worker [] (L_receive b) False rs ok bad cs) (one_worker [] (L_receive b) True rs ok bad cs)"
  "load_step n (one_worker [] (L_receive b) True rs ok bad cs)
     (one_worker [] (if b = [] then L_done else L_request b True) True rs ok bad cs)"
proof -
  let ?s = "one_worker (x # xs) (L_receive b) False rs ok bad cs"
  show "load_step n ?s (one_worker xs (received n b x) False rs ok bad cs)"
    using load_step.hand_over [where s = ?s and i = 0] by (simp add: one_worker_def set_worker_def)
next
  let ?s = "one_worker xs (L_request b final) closed rs ok bad cs"
  show "load_step n ?s (one_worker xs (L_report final d) closed rs (ok + of_nat (length b)) bad (cs @ [(b, True)]))"
    using load_step.answer [where s = ?s and i = 0] by (simp add: one_worker_def set_worker_def)
  show "load_step n ?s (one_worker xs (after_request final) closed rs ok (bad + of_nat (length b)) (cs @ [(b, False)]))"
    using load_step.answer_error [where s = ?s and i = 0] by (simp add: one_worker_def set_worker_def)
next
  let ?s = "one_worker xs (L_report final d) closed rs ok bad cs"
  assume "length rs < maxResults"
  then show "load_step n ?s (one_worker xs (after_request final) closed (rs @ [d]) ok bad cs)"
    using load_step.report [where s = ?s and i = 0] by (simp add: one_worker_def set_worker_def)
next
  let ?s = "one_worker [] (L_receive b) False rs ok bad cs" and ?t = "one_worker [] (L_receive b) True rs ok bad cs"
  show "load_step n ?s ?t" using load_step.close_jobs [where s = ?s] by (simp add: one_worker_def)
  show "load_step n ?t (one_worker [] (if b = [] then L_done else L_request b True) True rs ok bad cs)"
    using load_step.drained [where s = ?t and i = 0] by (simp add: one_worker_def set_worker_def)
qed

lemma hanging_run:
  "j \<le> maxResults \<Longrightarrow> \<exists>ok. load_steps 1 (load_start 1 (replicate (j + k) e))
     (one_worker (replicate k e) (L_receive []) False (replicate j 0) ok 0 (replicate j ([e], True)))"
proof (induction j arbitrary: k)
  case 0
  show ?case by (auto simp: load_start_def one_worker_def)
next
  case (Suc j)
  from Suc.IH [of "Suc k"] Suc.prems obtain ok where
    run: "load_steps 1 (load_start 1 (replicate (j + Suc k) e))
      (one_worker (replicate (Suc k) e) (L_receive []) False (replicate j 0) ok 0 (replicate j ([e], True)))" by auto
  have r: "received (Suc 0) [] e = L_request [e] False" "after_request False = L_receive []" by (simp_all add: received_def after_request_def)
  have "load_step 1 (one_worker (replicate (Suc k) e) (L_receive []) False (replicate j 0) ok 0 (replicate j ([e], True)))
      (one_worker (replicate k e) (L_request [e] False) False (replicate j 0) ok 0 (replicate j ([e], True)))"
    using one_worker_steps(1) [of 1 e "replicate k e" "[]"] by (simp add: r)
  moreover have "load_step 1 \<dots> (one_worker (replicate k e) (L_report False 0) False (replicate j 0) (ok + 1) 0
      (replicate j ([e], True) @ [([e], True)]))"
    using one_worker_steps(2) [of 1 "replicate k e" "[e]" False False "replicate j 0" ok 0 _ 0] by simp
  moreover have "load_step 1 \<dots> (one_worker (replicate k e) (L_receive []) False (replicate j 0 @ [0]) (ok + 1) 0
      (replicate j ([e], True) @ [([e], True)]))"
    using one_worker_steps(4) [of "replicate j 0" 1 "replicate k e" False 0] Suc.prems by (simp add: r)
  ultimately have "load_steps 1 (load_start 1 (replicate (j + Suc k) e))
      (one_worker (replicate k e) (L_receive []) False (replicate j 0 @ [0]) (ok + 1) 0 (replicate j ([e], True) @ [([e], True)]))"
    using run by (meson rtranclp.rtrancl_into_rtrancl)
  then show ?case by (auto simp: replicate_append_same [symmetric] simp del: replicate_append_same)
qed

subsection \<open>The worker as a function\<close>

text \<open>What \<open>load_worker\<close> computes is a run of one worker.\<close>

definition worker_at :: "'e list \<Rightarrow> 'e load_pc \<Rightarrow> bool \<Rightarrow> int list \<Rightarrow> 'e load_worker \<Rightarrow> 'e load_run" where
  "worker_at xs p closed rs w = one_worker xs p closed rs (lw_totalSent w) (lw_totalErrors w) (lw_calls w)"

lemma request_run:
  assumes "lw_batch w \<noteq> []" and "length rs < maxResults"
  shows "\<exists>rs'. length rs' \<le> Suc (length rs) \<and> load_steps n (worker_at xs (L_request (lw_batch w) final) closed rs w)
    (worker_at xs (after_request final) closed rs' (sendBatch call w))"
proof (cases "call (length (lw_calls w)) (lw_batch w)")
  case True
  from one_worker_steps(2) [of n xs "lw_batch w" final closed rs "lw_totalSent w" "lw_totalErrors w" "lw_calls w" 0]
    one_worker_steps(4) [OF assms(2), of n xs final 0 closed "lw_totalSent w + of_nat (length (lw_batch w))" "lw_totalErrors w"
      "lw_calls w @ [(lw_batch w, True)]"]
  have "load_steps n (worker_at xs (L_request (lw_batch w) final) closed rs w)
      (worker_at xs (after_request final) closed (rs @ [0]) (sendBatch call w))"
    using True assms(1) unfolding worker_at_def by (simp add: sendBatch_def)
  then show ?thesis by (intro exI [of _ "rs @ [0]"]) simp
next
  case False
  from one_worker_steps(3) [of n xs "lw_batch w" final closed rs "lw_totalSent w" "lw_totalErrors w" "lw_calls w"]
  have "load_steps n (worker_at xs (L_request (lw_batch w) final) closed rs w)
      (worker_at xs (after_request final) closed rs (sendBatch call w))"
    using False assms(1) unfolding worker_at_def by (simp add: sendBatch_def)
  then show ?thesis by (intro exI [of _ rs]) simp
qed

lemma lw_batch_send [simp]: "lw_batch (sendBatch call w) = []"
  by (simp add: sendBatch_def Let_def)

lemma worker_loop_run:
  assumes "length rs + length jobs + (if lw_batch w = [] then 0 else 1) \<le> maxResults"
  shows "\<exists>rs'. load_steps n (worker_at jobs (L_receive (lw_batch w)) False rs w)
    (worker_at [] L_done True rs' (worker_loop n call jobs w))"
  using assms
proof (induction jobs arbitrary: w rs)
  case Nil
  let ?p = "if lw_batch w = [] then L_done else L_request (lw_batch w) True"
  have start: "load_steps n (worker_at [] (L_receive (lw_batch w)) False rs w) (worker_at [] ?p True rs w)"
    unfolding worker_at_def using one_worker_steps(5,6) [of n "lw_batch w" rs] by (meson r_into_rtranclp rtranclp.rtrancl_into_rtrancl)
  show ?case
  proof (cases "lw_batch w = []")
    case True
    with start show ?thesis by (intro exI [of _ rs]) (simp add: sendBatch_def)
  next
    case False
    with Nil request_run [of w rs n "[]" True True call] obtain rs' where
      "load_steps n (worker_at [] (L_request (lw_batch w) True) True rs w) (worker_at [] L_done True rs' (sendBatch call w))"
      by (auto simp: after_request_def)
    with start False show ?thesis by (auto intro: rtranclp_trans)
  qed
next
  case (Cons job jobs)
  let ?w = "w\<lparr>lw_batch := lw_batch w @ [job]\<rparr>"
  have "load_step n (worker_at (job # jobs) (L_receive (lw_batch w)) False rs w)
      (worker_at jobs (received n (lw_batch w) job) False rs ?w)"
    unfolding worker_at_def using one_worker_steps(1) [of n job jobs "lw_batch w"] by simp
  then have start: "load_steps n (worker_at (job # jobs) (L_receive (lw_batch w)) False rs w)
      (worker_at jobs (received n (lw_batch w) job) False rs ?w)" ..
  show ?case
  proof (cases "length (lw_batch ?w) \<ge> n")
    case True
    from request_run [of ?w rs n jobs False False call] Cons.prems obtain rs' where
      rs': "length rs' \<le> Suc (length rs)" "load_steps n (worker_at jobs (L_request (lw_batch ?w) False) False rs ?w)
        (worker_at jobs (L_receive []) False rs' (sendBatch call ?w))" by (auto simp: after_request_def)
    from Cons.IH [of rs' "sendBatch call ?w"] rs'(1) Cons.prems obtain rs'' where
      "load_steps n (worker_at jobs (L_receive []) False rs' (sendBatch call ?w))
        (worker_at [] L_done True rs'' (worker_loop n call jobs (sendBatch call ?w)))" by (auto split: if_splits)
    moreover have "load_steps n (worker_at (job # jobs) (L_receive (lw_batch w)) False rs w)
        (worker_at jobs (L_receive []) False rs' (sendBatch call ?w))"
      using start rs'(2) True by (simp add: received_def)
    ultimately show ?thesis using True by (intro exI [of _ rs'']) (simp add: Let_def)
  next
    case False
    from Cons.IH [of rs ?w] Cons.prems obtain rs' where
      "load_steps n (worker_at jobs (L_receive (lw_batch ?w)) False rs ?w) (worker_at [] L_done True rs' (worker_loop n call jobs ?w))"
      by (auto split: if_splits)
    moreover have "load_steps n (worker_at (job # jobs) (L_receive (lw_batch w)) False rs w)
        (worker_at jobs (L_receive (lw_batch ?w)) False rs ?w)"
      using start False by (simp add: received_def)
    ultimately show ?thesis using False by (intro exI [of _ rs']) (simp add: Let_def)
  qed
qed

lemma load_worker_run:
  assumes "length jobs \<le> maxResults"
  shows "\<exists>s. load_steps n (load_start 1 jobs) s \<and> finished s \<and> lr_calls s = lw_calls (load_worker n call jobs)"
proof -
  let ?w = "\<lparr>lw_batch = [], lw_totalSent = 0, lw_totalErrors = 0, lw_calls = []\<rparr>"
  from worker_loop_run [of "[]" jobs ?w n call] assms obtain rs where
    "load_steps n (worker_at jobs (L_receive []) False [] ?w) (worker_at [] L_done True rs (load_worker n call jobs))"
    by (auto simp: load_worker_def)
  moreover have "worker_at jobs (L_receive []) False [] ?w = load_start 1 jobs"
    by (simp add: worker_at_def one_worker_def load_start_def)
  ultimately show ?thesis
    by (intro exI [of _ "worker_at [] L_done True rs (load_worker n call jobs)"]) (simp add: worker_at_def one_worker_def finished_def)
qed

subsection \<open>The statistics\<close>

text \<open>They do not depend on the order in which the durations arrive, and exist when there is one.\<close>

lemma totalDuration_mset: "mset xs = mset ys \<Longrightarrow> totalDuration xs = totalDuration ys"
proof -
  have sum: "fold (\<lambda>r total. total + of_int r) xs t = t + (\<Sum>r\<in>#mset xs. of_int r)" for xs and t :: i64
    by (induction xs arbitrary: t) (simp_all add: ac_simps)
  show "mset xs = mset ys \<Longrightarrow> ?thesis" unfolding totalDuration_def sum by simp
qed

lemma latency_metrics_mset: "mset xs = mset ys \<Longrightarrow> latency_metrics xs = latency_metrics ys"
proof -
  assume "mset xs = mset ys"
  then have "totalDuration xs = totalDuration ys" "sort xs = sort ys"
    by (auto intro: totalDuration_mset properties_for_sort)
  then show ?thesis by (simp only: latency_metrics_def)
qed

lemma percentile_Some: "xs \<noteq> [] \<Longrightarrow> p < 100 \<Longrightarrow> \<exists>y \<in> set xs. percentile xs p = Some y"
proof -
  assume "xs \<noteq> []" "p < 100"
  then have "length xs * p < length xs * 100" by simp
  then have "length xs * p div 100 < length xs" by (simp add: less_mult_imp_div_less)
  then show ?thesis by (auto simp: percentile_def)
qed

lemma latency_metrics_Some: "xs \<noteq> [] \<Longrightarrow> latency_metrics xs \<noteq> None"
proof -
  assume "xs \<noteq> []"
  then have "sort xs \<noteq> []" by (metis length_0_conv length_sort)
  with percentile_Some [OF this, of 50] percentile_Some [OF this, of 95] percentile_Some [OF this, of 99] show ?thesis
    by (auto simp: latency_metrics_def Let_def neq_Nil_conv)
qed

end
