(* ===== verification/Migrate_Tool.thy ===== *)
theory Migrate_Tool
  imports Bitstar_Prelude
begin

text \<open>
  The creation of the tables (\<open>src/cmd/migrate/main.go\<close>) and the names of the fields of their rows
  (\<open>src/schema.go\<close>). The operations of the YT client are arguments: whether the table was created,
  was there already, or the creation failed, and whether the tablets were resharded. The result is
  the panic, if there is one.
\<close>

subsection \<open>Schemas\<close>

datatype column_type = TypeUint64 | TypeString | TypeTimestamp | TypeBytes

record column =
  co_Name :: string
  co_Type :: column_type
  co_Ascending :: bool
  co_Expression :: string
  co_Required :: bool

record table_schema =
  sc_UniqueKeys :: bool
  sc_Columns :: "column list"

datatype attribute = BoolAttr bool | StringAttr string

definition hash_column :: "string \<Rightarrow> column" where
  "hash_column expression =
     \<lparr>co_Name = ''hash'', co_Type = TypeUint64, co_Ascending = True, co_Expression = expression, co_Required = False\<rparr>"

definition key_column :: "string \<Rightarrow> column_type \<Rightarrow> column" where
  "key_column name typ = \<lparr>co_Name = name, co_Type = typ, co_Ascending = True, co_Expression = [], co_Required = True\<rparr>"

definition value_column :: "string \<Rightarrow> column_type \<Rightarrow> column" where
  "value_column name typ = \<lparr>co_Name = name, co_Type = typ, co_Ascending = False, co_Expression = [], co_Required = True\<rparr>"

definition events_attributes :: "(string \<times> attribute) list" where
  "events_attributes = [(''dynamic'', BoolAttr True), (''optimize_for'', StringAttr ''lookup'')]"

definition events_schema :: table_schema where
  "events_schema = \<lparr>sc_UniqueKeys = True, sc_Columns =
     [hash_column ''farm_hash(resource_type_code, resource_external_id)'',
      key_column ''resource_type_code'' TypeString, key_column ''resource_external_id'' TypeString,
      key_column ''start_time'' TypeTimestamp, key_column ''id'' TypeString, value_column ''event'' TypeBytes]\<rparr>"

definition index_attributes :: "(string \<times> attribute) list" where
  "index_attributes =
     [(''dynamic'', BoolAttr True), (''optimize_for'', StringAttr ''lookup''),
      (''in_memory_mode'', StringAttr ''uncompressed''), (''enable_lookup_hash_table'', BoolAttr True)]"

definition index_schema :: table_schema where
  "index_schema = \<lparr>sc_UniqueKeys = True, sc_Columns =
     [hash_column ''farm_hash(id)'', key_column ''id'' TypeString,
      value_column ''resource_type_code'' TypeString, value_column ''resource_external_id'' TypeString,
      value_column ''start_time'' TypeTimestamp]\<rparr>"

subsection \<open>The program\<close>

definition initialTabletCount :: nat where
  "initialTabletCount = 1024"

datatype create_result = Created | AlreadyExists | CreateFail string

record 'y admin_client =
  ad_CreateTable :: "string \<Rightarrow> (string \<times> attribute) list \<Rightarrow> table_schema \<Rightarrow> 'y \<Rightarrow> create_result \<times> 'y"
  ad_ReshardTable :: "string \<Rightarrow> nat \<Rightarrow> 'y \<Rightarrow> string option \<times> 'y"

definition migrate_table :: "'y admin_client \<Rightarrow> string \<Rightarrow> (string \<times> attribute) list \<Rightarrow> table_schema \<Rightarrow> 'y \<Rightarrow> string option \<times> 'y" where
  "migrate_table A path attrs sch y =
     (case ad_CreateTable A path attrs sch y of
        (CreateFail e, y) \<Rightarrow> (Some e, y)
      | (_, y) \<Rightarrow> ad_ReshardTable A path initialTabletCount y)"

definition migrate :: "string + 'y admin_client \<Rightarrow> 'y \<Rightarrow> string option \<times> 'y" where
  "migrate client y =
     (case client of
        Inl e \<Rightarrow> (Some e, y)
      | Inr A \<Rightarrow>
        (case migrate_table A ''//home/events'' events_attributes events_schema y of
           (Some e, y) \<Rightarrow> (Some e, y)
         | (None, y) \<Rightarrow> migrate_table A ''//home/events_id_uniq_idx'' index_attributes index_schema y))"

subsection \<open>The fields of the rows\<close>

text \<open>The \<open>yson\<close> tags.\<close>

definition EventRow_fields :: "string list" where
  "EventRow_fields = [''resource_type_code'', ''resource_external_id'', ''start_time'', ''id'', ''event'']"

definition EventRowKey_fields :: "string list" where
  "EventRowKey_fields = [''resource_type_code'', ''resource_external_id'', ''start_time'', ''id'']"

definition EventIndexRowKey_fields :: "string list" where
  "EventIndexRowKey_fields = [''id'']"

text \<open>The columns a client writes, and those it looks rows up by: not the computed ones.\<close>

definition stored_columns :: "table_schema \<Rightarrow> string list" where
  "stored_columns sch = map co_Name (filter (\<lambda>c. co_Expression c = []) (sc_Columns sch))"

definition key_columns :: "table_schema \<Rightarrow> string list" where
  "key_columns sch = map co_Name (filter (\<lambda>c. co_Expression c = [] \<and> co_Ascending c) (sc_Columns sch))"

end
