(* ===== verification/Tools_Spec.thy ===== *)
theory Tools_Spec
  imports Yt_Client Load_Run Migrate_Tool Listing_Spec
begin

text \<open>
  The properties of the client of the cluster, of the construction of an index from a table of the
  cluster, of the load generator and of the creation of the tables.
\<close>

subsection \<open>What goes over the wire\<close>

text \<open>Creating events over the wire, on a server that answers every request: the requests are, in this
  order, the start of a sticky tablet transaction, the write of the keys to the index table, the
  write of the rows to the events table, and the commit, the last three of the one transaction the
  server has started; one modification for each event.\<close>
theorem create_trace:
  assumes "bs_Send B = (\<lambda>service method req token attachments log. (Inr (rsp, []), log @ [(method, req, attachments)]))"
    and "\<And>rows. bs_Encode B rows = Inr (names rows, wire rows)" and "\<And>rows. bs_MarshalRowset B rows = Inr (bytes rows)"
    and "\<And>e. cd_marshal K e = Inr (proto e)" and "bs_NewGUIDFromProto B (rp_Id rsp) = tx"
    and "events = with_ids uuids 0 es"
  shows "wd_yt (snd (BatchCreateEvents (client_of B token) K F as_time uuids outcome (map Some es) w)) = wd_yt w @
    (let keys = map (\<lambda>e. AKey (event_row_key as_time e)) events;
         rows = map (\<lambda>e. ARow (event_row as_time e (proto e))) events;
         id = bs_NewProtoFromGUID B tx; mods = replicate (length es) RMT_WRITE
     in [(''StartTransaction'', ReqStartTransaction TT_TABLET True, []),
         (''ModifyRows'', ReqModifyRows id ''//home/events_id_uniq_idx'' mods (buildDescriptor (names keys)), [bytes (wire keys)]),
         (''ModifyRows'', ReqModifyRows id ''//home/events'' mods (buildDescriptor (names rows)), [bytes (wire rows)]),
         (''CommitTransaction'', ReqCommitTransaction id, [])])"
proof -
  have "create_loop K as_time uuids 0 (map Some es) w = (Inr (map (\<lambda>e. (e, AKey (event_row_key as_time e),
      ARow (event_row as_time e (proto e)))) events), w)"
    unfolding assms(6) by (rule create_loop_events) (simp add: assms(4))
  then show ?thesis
    by (cases outcome) (simp_all add: BatchCreateEvents_def call_then_def client_def insert_or_abort_def submit_def
        call_return_def client_of_def StartTabletTx_def InsertRows_def CommitTabletTx_def answer_def assms(1-3,5)
        comp_def eventsTable_def eventsIdUniqIndexTable_def Let_def, simp_all add: assms(6))
qed

definition sample_response :: "unit response" where
  "sample_response = \<lparr>rp_Timestamp = 7, rp_Id = None, rp_StartTimestamp = 7, rp_PrimaryCommitTimestamp = 8,
     rp_NameTableEntries = []\<rparr>"

definition sample_bus :: "((string \<times> unit request \<times> u8 list list) list, unit, unit, unit) bus" where
  "sample_bus = \<lparr>bs_Send = (\<lambda>service method req token attachments log. (Inr (sample_response, []), log @ [(method, req, attachments)])),
     bs_NewGUIDFromProto = (\<lambda>_. ()), bs_NewProtoFromGUID = (\<lambda>_. ()), bs_Encode = (\<lambda>rows. Inr ([''id''], [])),
     bs_MarshalRowset = (\<lambda>_. Inr []), bs_UnmarshalRowset = (\<lambda>_. Inr [])\<rparr>"

theorem create_trace_witness:
  "map fst (wd_yt (snd (BatchCreateEvents (client_of sample_bus ''token'')
      \<lparr>cd_marshal = (\<lambda>_. Inr []), cd_unmarshal = (\<lambda>_. Inl ''proto''), cd_key = (\<lambda>_ _. Inl ''row''), cd_row = (\<lambda>_ _. Inl ''row'')\<rparr>
      list_bloom sample_as_time (\<lambda>_. ''id'') Answered (map Some [fst sample_a]) \<lparr>wd_yt = [], wd_sent = []\<rparr>))) =
    [''StartTransaction'', ''ModifyRows'', ''ModifyRows'', ''CommitTransaction'']"
  by (subst create_trace [where rsp = sample_response and names = "\<lambda>_. [''id'']" and wire = "\<lambda>_. []" and bytes = "\<lambda>_. []" and
        proto = "\<lambda>_. []" and tx = "()", OF _ _ _ _ _ refl]) (simp_all add: sample_bus_def Let_def)

subsection \<open>An index from a table of the cluster\<close>

text \<open>C38: When every row of the table can be scanned and decoded, the index represents exactly the events
  of the table, in the order of the table, live and in version 0, with the error the reader ends
  with. So the properties of queries hold for it.\<close>
theorem from_yt_rows:
  assumes "roaring_bitmap R" and "readTable tablePath = Inr (map Inr rows, err)"
    and "map (unmarshal \<circ> er_Event) rows = map Inr events" and "length rows \<le> 2 ^ 32"
  shows "\<exists>ri. fromYt R as_time unmarshal readTable tablePath = Some (Inr (ri, err)) \<and>
    ri_rep R as_time ri (map (\<lambda>e. (e, 0, False)) events)"
proof -
  have "\<exists>ri'. load_rows R as_time unmarshal (map Inr rows) ri = Some (Inr ri') \<and>
      ri_rep R as_time ri' (old @ map (\<lambda>e. (e, 0, False)) events)"
    if "ri_rep R as_time ri old" "map (unmarshal \<circ> er_Event) rows = map Inr events" "length old + length rows \<le> 2 ^ 32"
    for ri old rows events
    using that
  proof (induction rows arbitrary: ri old events)
    case (Cons row rows)
    then obtain e es where e: "events = e # es" "unmarshal (er_Event row) = Inr e" by (cases events) auto
    from roaring_bitmap.indexEvent_rep [OF assms(1) Cons.prems(1), of e 0 False] Cons.prems(3) obtain ri' where
      "indexEvent R as_time ri (Some e) 0 False = Some ri'" "ri_rep R as_time ri' (old @ [(e, 0, False)])" by auto
    with Cons.IH [of ri' "old @ [(e, 0, False)]" es] Cons.prems(2,3) e show ?case by simp
  qed simp
  from this [OF roaring_bitmap.ri_rep_new [OF assms(1)] assms(3)] assms(2,4) show ?thesis
    by (auto simp: fromYt_def)
qed

theorem from_yt_rows_witness:
  "\<exists>ri. fromYt list_roaring sample_as_time (\<lambda>_. Inr (fst sample_a))
      (\<lambda>_. Inr ([Inr \<lparr>er_ResourceTypeCode = [], er_ResourceExternalID = [], er_StartTime = 0, er_ID = ''a'', er_Event = []\<rparr>], None))
      ''//home/events'' = Some (Inr (ri, None)) \<and> ri_rep list_roaring sample_as_time ri [(fst sample_a, 0, False)]"
  using from_yt_rows [OF list_roaring_ok, of "\<lambda>_. Inr ([Inr \<lparr>er_ResourceTypeCode = [], er_ResourceExternalID = [],
      er_StartTime = 0, er_ID = ''a'', er_Event = []\<rparr>], None)" "''//home/events''"
      "[\<lparr>er_ResourceTypeCode = [], er_ResourceExternalID = [], er_StartTime = 0, er_ID = ''a'', er_Event = []\<rparr>]" None
      "\<lambda>_. Inr (fst sample_a)" "[fst sample_a]" sample_as_time] by simp

subsection \<open>The load generator\<close>

text \<open>C39: When the load generator has ended, its workers, however they were scheduled, have sent every event
  of the reading loop exactly once, in requests that are never empty nor larger than the batch size
  (with a size of 0, one event each). The counters are the numbers of events in the requests that
  succeeded and in those that failed. There is one duration for each request that succeeded, at
  most 2,000,000 of them, and there are statistics exactly when one succeeded.\<close>
theorem load_run_counts:
  assumes "load_steps n (load_start workers events) s" and "finished s"
  shows "mset (concat (map fst (lr_calls s))) = mset events \<and>
    list_all (\<lambda>(b, ok). b \<noteq> [] \<and> length b \<le> max 1 n) (lr_calls s) \<and>
    lr_totalSent s = of_nat (length (sent_with True (lr_calls s))) \<and>
    lr_totalErrors s = of_nat (length (sent_with False (lr_calls s))) \<and>
    length (lr_results s) = length (filter snd (lr_calls s)) \<and> length (lr_results s) \<le> 2000000 \<and>
    (latency_metrics (lr_results s) = None \<longleftrightarrow> filter snd (lr_calls s) = [])"
proof -
  note inv = load_inv_steps [OF assms(1)]
  note ended = finished_drained [OF inv assms(2)]
  have len: "length (lr_results s) = length (filter snd (lr_calls s))" using inv ended(2) by (simp add: load_inv_def)
  have "latency_metrics (lr_results s) = None \<longleftrightarrow> lr_results s = []"
    using latency_metrics_Some [of "lr_results s"] by (cases "lr_results s") (simp_all add: latency_metrics_def)
  with len have "latency_metrics (lr_results s) = None \<longleftrightarrow> filter snd (lr_calls s) = []" by (metis length_0_conv)
  with inv ended(1) len show ?thesis by (auto simp: load_inv_def list_all_iff maxResults_def)
qed

theorem load_run_counts_witness:
  "\<exists>s. load_steps 2 (load_start 1 [1, 2, 3 :: nat]) s \<and> lr_calls s = [([1, 2], True), ([3], False)] \<and>
     lr_totalSent s = 2 \<and> lr_totalErrors s = 1 \<and> length (lr_results s) = 1"
proof -
  from load_worker_run [of "[1, 2, 3 :: nat]" 2 "\<lambda>i _. i = 0"] obtain s where
    s: "load_steps 2 (load_start 1 [1, 2, 3 :: nat]) s" "finished s" "lr_calls s = [([1, 2], True), ([3], False)]"
    by (auto simp: maxResults_def load_worker_def sendBatch_def Let_def)
  from load_run_counts [OF s(1,2)] s show ?thesis by (intro exI [of _ s]) (simp add: sent_with_def)
qed

text \<open>C40: The load generator ends: with at least one worker and at most 2,000,000 events, every run stops
  after a number of steps that is linear in the number of events, and it can only stop when all
  workers have ended; whatever the order of the steps, the batch size and the outcome of the
  requests.\<close>
theorem load_run_ends:
  assumes "(load_step n ^^ j) (load_start workers events) s" and "0 < workers" and "length events \<le> 2000000"
  shows "j \<le> 7 * length events + workers + 1 \<and> (finished s \<or> (\<exists>t. load_step n s t))"
proof -
  have steps: "load_steps n (load_start workers events) s" using assms(1) by (rule relpowp_imp_rtranclp)
  have "load_weight (load_start workers events) = 7 * length events + workers + 1"
    by (simp add: load_weight_def load_start_def sum_list_replicate)
  with load_run_short [OF assms(1)] have "j \<le> 7 * length events + workers + 1" by simp
  moreover have "lr_workers s \<noteq> []" using workers_steps [OF steps] assms(2) by auto
  ultimately show ?thesis
    using load_progress [OF load_inv_steps [OF steps]] assms(3) by (auto simp: maxResults_def)
qed

theorem load_run_ends_witness:
  "\<exists>t. load_step 5 ((load_start 2 [1, 2, 3 :: nat])\<lparr>lr_todo := [2, 3], lr_jobs := [1]\<rparr>) t"
proof -
  let ?s = "load_start 2 [1, 2, 3 :: nat]"
  have "load_step 5 ?s (?s\<lparr>lr_todo := [2, 3], lr_jobs := [1]\<rparr>)"
    using load_step.produce [of ?s 1 "[2, 3]" 5] by (simp add: load_start_def jobs_cap_def)
  with load_run_ends [of 1 5 2 "[1, 2, 3 :: nat]" "?s\<lparr>lr_todo := [2, 3], lr_jobs := [1]\<rparr>"] show ?thesis
    by (simp add: finished_def load_start_def eq_OO)
qed

text \<open>With more requests that succeed it does not end: the durations are only read after all workers have
  ended, and a worker waits for room in their channel, here the only one with the last of 2,000,001
  events.\<close>
lemma load_run_hangs:
  "\<exists>s. load_steps 1 (load_start 1 (replicate 2000001 e)) s \<and> (\<forall>t. load_steps 1 s t \<longrightarrow> \<not> finished t)"
proof -
  from hanging_run [of maxResults 1 e] obtain ok where
    run: "load_steps 1 (load_start 1 (replicate 2000001 e))
      (one_worker [e] (L_receive []) False (replicate maxResults 0) ok 0 (replicate maxResults ([e], True)))"
    by (auto simp: maxResults_def)
  let ?s = "one_worker [] (L_report False 0) False (replicate maxResults 0) (ok + of_nat (length [e])) 0
      (replicate maxResults ([e], True) @ [([e], True)])"
  have "received 1 [] e = L_request [e] False" by (simp add: received_def)
  with one_worker_steps(1) [of 1 e "[]" "[]" "replicate maxResults 0" ok 0 "replicate maxResults ([e], True)"]
    one_worker_steps(2) [of 1 "[]" "[e]" False False "replicate maxResults 0" ok 0 "replicate maxResults ([e], True)" 0] run
  have "load_steps 1 (load_start 1 (replicate 2000001 e)) ?s"
    by (simp only:)
  moreover have "\<not> finished t" if "load_steps 1 ?s t" for t
  proof
    assume "finished t"
    with reports_forever [OF that, of 0 False 0] at_worker_mem [of 0 t] show False
      by (auto simp: one_worker_def finished_def)
  qed
  ultimately show ?thesis by blast
qed

text \<open>A worker sends every event it takes exactly once, in order, in batches that are never empty nor
  larger than the batch size (with a size of 0, one event each). At the end nothing is left, and
  the counters are the numbers of events in the requests that succeeded and in those that failed.\<close>
lemma load_worker_sends:
  "concat (map fst (lw_calls (load_worker n call jobs))) = jobs \<and>
   list_all (\<lambda>(b, ok). b \<noteq> [] \<and> length b \<le> max 1 n) (lw_calls (load_worker n call jobs)) \<and>
   lw_totalSent (load_worker n call jobs) = of_nat (length (sent_with True (lw_calls (load_worker n call jobs)))) \<and>
   lw_totalErrors (load_worker n call jobs) = of_nat (length (sent_with False (lw_calls (load_worker n call jobs))))"
  using load_worker_ok [of n jobs call] by (auto simp: worker_ok_def list_all_iff)

text \<open>The reading loop sends, of the events before the first error, those with a service, the first of
  each id, in order and converted one by one.\<close>
theorem read_loop_events:
  assumes "read_loop new show_time {} items = Some reqs"
  shows "\<exists>evs. subseq evs (read_items items) \<and> map (mapEventToProto new show_time) evs = map Some reqs \<and>
    distinct (map le_ID evs) \<and> (\<forall>e \<in> set (read_items items). le_ServiceID e \<noteq> None \<longrightarrow> le_ID e \<in> set (map le_ID evs))"
  using read_loop_reads [OF assms] by auto

definition sample_load :: load_event where
  "sample_load = \<lparr>le_Attendees = [], le_CalendarEventID = None, le_Components = [''db''], le_CreatedAt = None, le_CreatedBy = None,
     le_Dcs = [''sas''], le_Description = None, le_EnvironmentID = None, le_FinishTime = None, le_ID = Some 5, le_InfralentaID = None,
     le_IsDeleted = None, le_Meta = None, le_ServiceID = Some 1, le_Severity = None, le_StartTime = Some 100, le_Tickets = None,
     le_Title = Some ''t'', le_Type = None, le_UpdatedAt = None, le_UpdatedBy = None, le_EntityType = ''team'', le_EntitySlug = ''s''\<rparr>"

theorem read_loop_events_witness:
  "\<exists>req. read_loop (\<lambda>t. t) (\<lambda>_. []) {} [Item sample_load, Item sample_load, DecodeError, Item sample_load] = Some [req] \<and>
     ev_Tags req = [''db'', ''dc:sas''] \<and>
     (\<exists>evs. subseq evs [sample_load, sample_load] \<and> map (mapEventToProto (\<lambda>t. t) (\<lambda>_. [])) evs = [Some req])"
proof -
  have "\<exists>req. read_loop (\<lambda>t. t) (\<lambda>_. []) {} [Item sample_load, Item sample_load, DecodeError, Item sample_load] = Some [req] \<and>
      ev_Tags req = [''db'', ''dc:sas'']"
    by (simp add: sample_load_def mapEventToProto_def resourceTypeCode_def load_tags_def)
  then obtain req where req: "read_loop (\<lambda>t. t) (\<lambda>_. []) {} [Item sample_load, Item sample_load, DecodeError, Item sample_load] = Some [req]"
    "ev_Tags req = [''db'', ''dc:sas'']" by blast
  with read_loop_events [OF req(1)] show ?thesis by (intro exI [of _ req]) auto
qed

subsection \<open>The tables\<close>

text \<open>A server that creates the tables or has them, and records what it is asked for.\<close>

definition recording_admin :: "create_result \<Rightarrow> (string \<times> table_schema option) list admin_client" where
  "recording_admin r = \<lparr>ad_CreateTable = (\<lambda>path attrs sch log. (r, log @ [(path, Some sch)])),
     ad_ReshardTable = (\<lambda>path n log. (None, log @ [(path, None)]))\<rparr>"

text \<open>The program creates the two tables the storage writes to and reshards each after it, also when they
  are there already, with the columns the rows are written with: every field of a row of the events
  table is a stored column, the fields of a key are the columns it is looked up by, and likewise
  for the index table, whose rows are the keys of events and whose key is the id.\<close>
theorem schema_matches_rows:
  "migrate (Inr (recording_admin Created)) [] = migrate (Inr (recording_admin AlreadyExists)) [] \<and>
   migrate (Inr (recording_admin Created)) [] = (None, [(eventsTable, Some events_schema), (eventsTable, None),
     (eventsIdUniqIndexTable, Some index_schema), (eventsIdUniqIndexTable, None)]) \<and>
   stored_columns events_schema = EventRow_fields \<and> key_columns events_schema = EventRowKey_fields \<and>
   set (stored_columns index_schema) = set EventRowKey_fields \<and> distinct (stored_columns index_schema) \<and>
   key_columns index_schema = EventIndexRowKey_fields"
proof -
  have "migrate (Inr (recording_admin Created)) [] = (None, [(eventsTable, Some events_schema), (eventsTable, None),
      (eventsIdUniqIndexTable, Some index_schema), (eventsIdUniqIndexTable, None)])"
    "migrate (Inr (recording_admin AlreadyExists)) [] = migrate (Inr (recording_admin Created)) []"
    by (simp_all add: migrate_def migrate_table_def recording_admin_def eventsTable_def eventsIdUniqIndexTable_def)
  then show ?thesis
    by (simp add: stored_columns_def key_columns_def events_schema_def index_schema_def hash_column_def key_column_def
        value_column_def EventRow_fields_def EventRowKey_fields_def EventIndexRowKey_fields_def) blast
qed

end
