(* ===== verification/Yt_Connect.thy ===== *)
theory Yt_Connect
  imports Yt_Client Strconv
begin

text \<open>
  The construction of the client of the cluster (\<open>NewClient\<close> of \<open>src/ytclient/ytclient.go\<close>): the token is
  read from the environment or from a file, with the white space around it cut off, then a proxy is
  looked for. What it uses of the standard library is here too: \<open>strings.TrimSpace\<close> and
  \<open>filepath.Join\<close>. The environment, the files, the HTTP client and the connection are arguments.
\<close>

subsection \<open>White space\<close>

text \<open>\<open>unicode.IsSpace\<close>\<close>

definition IsSpace :: "nat \<Rightarrow> bool" where
  "IsSpace r \<longleftrightarrow> r \<in> {9, 10, 11, 12, 13, 32, 133, 160, 5760, 8232, 8233, 8239, 8287, 12288} \<or> 8192 \<le> r \<and> r \<le> 8202"

text \<open>\<open>utf8.DecodeLastRuneInString\<close>: it goes back at most four bytes to the start of the last rune.\<close>

definition RuneStart :: "char \<Rightarrow> bool" where
  "RuneStart c \<longleftrightarrow> \<not> is_cont (of_char c)"

definition last_start :: "string \<Rightarrow> nat" where
  "last_start s =
     (let lim = length s - 4
      in case filter (\<lambda>i. RuneStart (s ! i)) (rev [lim..<length s - 1]) of i # _ \<Rightarrow> i | [] \<Rightarrow> lim - 1)"

definition DecodeLastRune :: "string \<Rightarrow> nat \<times> nat" where
  "DecodeLastRune s =
     (if s = [] then (RuneError, 0)
      else if (of_char (last s) :: nat) < 128 then (of_char (last s), 1)
      else let start = last_start s; (r, size) = DecodeRune (drop start s)
           in if start + size = length s then (r, size) else (RuneError, 1))"

lemma last_start_less:
  assumes "s \<noteq> []"
  shows "last_start s < length s"
proof (cases "filter (\<lambda>i. RuneStart (s ! i)) (rev [length s - 4..<length s - 1])")
  case (Cons i js)
  then have "i \<in> set (filter (\<lambda>i. RuneStart (s ! i)) (rev [length s - 4..<length s - 1]))" by simp
  then have "i < length s" by auto
  then show ?thesis unfolding last_start_def Let_def Cons by simp
next
  case Nil
  have "length s - 4 - 1 < length s" using assms by (cases s) auto
  then show ?thesis unfolding last_start_def Let_def Nil by simp
qed

lemma DecodeLastRune_width:
  assumes "s \<noteq> []"
  shows "0 < snd (DecodeLastRune s) \<and> snd (DecodeLastRune s) \<le> length s"
proof -
  have "drop (last_start s) s \<noteq> []" using last_start_less [OF assms] by simp
  from DecodeRune_width [OF this] assms show ?thesis
    by (cases s) (auto simp: DecodeLastRune_def Let_def split: prod.splits)
qed

subsection \<open>TrimSpace\<close>

function trim_left :: "string \<Rightarrow> string" where
  "trim_left s = (if s = [] then [] else if IsSpace (fst (DecodeRune s)) then trim_left (drop (snd (DecodeRune s)) s) else s)"
  by pat_completeness auto
termination
  by (relation "measure length") (use DecodeRune_width in auto)

function trim_right :: "string \<Rightarrow> string" where
  "trim_right s = (if s = [] then []
     else if IsSpace (fst (DecodeLastRune s)) then trim_right (take (length s - snd (DecodeLastRune s)) s) else s)"
  by pat_completeness auto
termination
  by (relation "measure length") (use DecodeLastRune_width in auto)

declare trim_left.simps [simp del] trim_right.simps [simp del]

definition TrimSpace :: "string \<Rightarrow> string" where
  "TrimSpace s = trim_right (trim_left s)"

lemma trim_left_suffix: "\<exists>a. s = a @ trim_left s"
proof (induction s rule: trim_left.induct)
  case (1 s)
  show ?case
  proof (cases "s \<noteq> [] \<and> IsSpace (fst (DecodeRune s))")
    case True
    with 1 obtain a where "drop (snd (DecodeRune s)) s = a @ trim_left (drop (snd (DecodeRune s)) s)" by blast
    moreover have "s = take (snd (DecodeRune s)) s @ drop (snd (DecodeRune s)) s" by simp
    ultimately have "s = (take (snd (DecodeRune s)) s @ a) @ trim_left (drop (snd (DecodeRune s)) s)"
      by (metis append_assoc)
    moreover have "trim_left s = trim_left (drop (snd (DecodeRune s)) s)" using True by (subst trim_left.simps) simp
    ultimately show ?thesis by metis
  qed (subst trim_left.simps, auto)
qed

lemma trim_right_prefix: "\<exists>b. s = trim_right s @ b"
proof (induction s rule: trim_right.induct)
  case (1 s)
  let ?t = "take (length s - snd (DecodeLastRune s)) s"
  show ?case
  proof (cases "s \<noteq> [] \<and> IsSpace (fst (DecodeLastRune s))")
    case True
    with 1 obtain b where "?t = trim_right ?t @ b" by blast
    moreover have "s = ?t @ drop (length s - snd (DecodeLastRune s)) s" by simp
    ultimately have "s = trim_right ?t @ b @ drop (length s - snd (DecodeLastRune s)) s" by (metis append_assoc)
    moreover have "trim_right s = trim_right ?t" using True by (subst trim_right.simps) simp
    ultimately show ?thesis by metis
  qed (subst trim_right.simps, auto)
qed

lemma trim_right_last: "trim_right s \<noteq> [] \<Longrightarrow> \<not> IsSpace (fst (DecodeLastRune (trim_right s)))"
proof (induction s rule: trim_right.induct)
  case (1 s)
  then show ?case by (cases "s \<noteq> [] \<and> IsSpace (fst (DecodeLastRune s))") (auto simp: trim_right.simps [of s])
qed

text \<open>What \<open>TrimSpace\<close> yields is a part of the string that does not end with white space; a string of
  ASCII characters loses exactly the white space around it.\<close>

lemma TrimSpace_part: "\<exists>a b. s = a @ TrimSpace s @ b"
  using trim_left_suffix [of s] trim_right_prefix [of "trim_left s"] unfolding TrimSpace_def by metis

abbreviation ascii :: "string \<Rightarrow> bool" where
  "ascii s \<equiv> \<forall>c \<in> set s. (of_char c :: nat) < 128"

abbreviation space :: "char \<Rightarrow> bool" where
  "space c \<equiv> IsSpace (of_char c)"

lemma trim_left_ascii: "ascii s \<Longrightarrow> trim_left s = dropWhile space s"
proof (induction s)
  case (Cons c s)
  then have "DecodeRune (c # s) = (of_char c, 1)" by (simp add: DecodeRune_def)
  with Cons show ?case by (simp add: trim_left.simps [of "c # s"])
qed (simp add: trim_left.simps)

lemma trim_right_ascii: "ascii s \<Longrightarrow> trim_right s = rev (dropWhile space (rev s))"
proof (induction s rule: rev_induct)
  case (snoc c s)
  then have "DecodeLastRune (s @ [c]) = (of_char c, 1)" by (simp add: DecodeLastRune_def)
  with snoc show ?case by (simp add: trim_right.simps [of "s @ [c]"])
qed (simp add: trim_right.simps)

lemma TrimSpace_ascii: "ascii s \<Longrightarrow> TrimSpace s = rev (dropWhile space (rev (dropWhile space s)))"
  unfolding TrimSpace_def by (subst trim_right_ascii) (auto simp: trim_left_ascii dest: set_dropWhileD)

subsection \<open>Paths\<close>

text \<open>\<open>filepath.Clean\<close> on Unix, by the elements of the path: the elements so far, last first.\<close>

fun clean_elements :: "bool \<Rightarrow> string list \<Rightarrow> string list \<Rightarrow> string list" where
  "clean_elements rooted out [] = rev out"
| "clean_elements rooted out (e # es) =
     (if e = [] \<or> e = ''.'' then clean_elements rooted out es
      else if e = ''..'' then
        (case out of
           p # ps \<Rightarrow> if p = ''..'' then clean_elements rooted (''..'' # out) es else clean_elements rooted ps es
         | [] \<Rightarrow> clean_elements rooted (if rooted then [] else [''..'']) es)
      else clean_elements rooted (e # out) es)"

fun split_path :: "string \<Rightarrow> string \<Rightarrow> string list" where
  "split_path e [] = [e]"
| "split_path e (c # s) = (if c = CHR ''/'' then e # split_path [] s else split_path (e @ [c]) s)"

fun join_path :: "string list \<Rightarrow> string" where
  "join_path [] = []"
| "join_path [e] = e"
| "join_path (e # es) = e @ ''/'' @ join_path es"

definition Clean :: "string \<Rightarrow> string" where
  "Clean path =
     (let rooted = (path \<noteq> [] \<and> hd path = CHR ''/'');
          out = (if rooted then ''/'' else []) @ join_path (clean_elements rooted [] (split_path [] path))
      in if out = [] then ''.'' else out)"

definition Join :: "string list \<Rightarrow> string" where
  "Join elems = (case dropWhile (\<lambda>e. e = []) elems of [] \<Rightarrow> [] | es \<Rightarrow> Clean (join_path es))"

subsection \<open>The client\<close>

record 'c Client =
  cl_conn :: 'c
  cl_token :: string
  cl_clusterHost :: string

text \<open>\<open>os.Getenv\<close> yields the empty string for an unset variable, \<open>os.UserHomeDir\<close> and \<open>os.ReadFile\<close> return what
  they have beside an error, which is dropped.\<close>

definition read_token :: "(string \<Rightarrow> string) \<Rightarrow> string \<times> string option \<Rightarrow> (string \<Rightarrow> string \<times> string option) \<Rightarrow> string" where
  "read_token getenv userHomeDir readFile =
     (let token = TrimSpace (getenv ''YT_TOKEN'')
      in if token = [] then
           (let (home, _) = userHomeDir; (raw, _) = readFile (Join [home, ''.yt'', ''token'']) in TrimSpace raw)
         else token)"

text \<open>\<open>Inl\<close> is the panic. The proxy is looked for with a configuration of the host and the token alone.\<close>

definition NewClient ::
  "(string \<Rightarrow> string) \<Rightarrow> string \<times> string option \<Rightarrow> (string \<Rightarrow> string \<times> string option) \<Rightarrow>
   (string \<Rightarrow> string \<Rightarrow> string + string \<times> string) \<Rightarrow> (string \<Rightarrow> string \<Rightarrow> string + (string \<Rightarrow> string + u8 list)) \<Rightarrow>
   (u8 list \<Rightarrow> string + string list) \<Rightarrow> (nat \<Rightarrow> nat) \<Rightarrow> (string \<Rightarrow> 'c) \<Rightarrow> string \<Rightarrow> string + 'c Client" where
  "NewClient getenv userHomeDir readFile clusterURL httpClient decode intn dial clusterHost =
     (let token = read_token getenv userHomeDir readFile
      in case discoverProxy [] (clusterURL clusterHost token) (httpClient clusterHost token) decode intn of
           Inl err \<Rightarrow> Inl (''discoverProxy: '' @ err)
         | Inr proxy \<Rightarrow> Inr \<lparr>cl_conn = dial proxy, cl_token = token, cl_clusterHost = clusterHost\<rparr>)"

text \<open>\<open>NewHTTPClient\<close>, over the constructor of the library.\<close>

definition NewHTTPClient :: "(string \<Rightarrow> string \<Rightarrow> string + 'h) \<Rightarrow> 'c Client \<Rightarrow> string + 'h" where
  "NewHTTPClient ythttp c = ythttp (cl_clusterHost c) (cl_token c)"

lemma join_token_path: "Join [''/root'', ''.yt'', ''token''] = ''/root/.yt/token''" "Join [[], ''.yt'', ''token''] = ''.yt/token''"
  "Join [''/a/../b//'', ''.yt'', ''token''] = ''/b/.yt/token''"
  by (simp_all add: Join_def Clean_def)

text \<open>The token of the environment wins unless it is blank; the file is read only then.\<close>

lemma read_token_env: "TrimSpace (getenv ''YT_TOKEN'') \<noteq> [] \<Longrightarrow>
    read_token getenv userHomeDir readFile = TrimSpace (getenv ''YT_TOKEN'')"
  by (simp add: read_token_def)

lemma discoverProxy_listed:
  assumes "discoverProxy [] url http decode intn = Inr proxy" and "\<And>n. 0 < n \<Longrightarrow> intn n < n"
  shows "\<exists>scheme address get body proxies. url = Inr (scheme, address) \<and> http = Inr get \<and>
    get (scheme @ ''://'' @ address @ ''/api/v4/discover_proxies?type=rpc'') = Inr body \<and> decode body = Inr proxies \<and> proxy \<in> set proxies"
  using assms by (auto simp: discoverProxy_def split: sum.splits if_splits)

text \<open>A client that is created is connected to one of the proxies the cluster names, and uses this token in
  every request.\<close>

lemma NewClient_connects:
  assumes "NewClient getenv userHomeDir readFile clusterURL httpClient decode intn dial host = Inr c"
    and "\<And>n. 0 < n \<Longrightarrow> intn n < n"
  shows "\<exists>proxy body proxies. cl_conn c = dial proxy \<and> decode body = Inr proxies \<and> proxy \<in> set proxies \<and>
    cl_token c = read_token getenv userHomeDir readFile \<and> cl_clusterHost c = host"
proof -
  let ?t = "read_token getenv userHomeDir readFile"
  from assms(1) obtain proxy where "discoverProxy [] (clusterURL host ?t) (httpClient host ?t) decode intn = Inr proxy"
    "c = \<lparr>cl_conn = dial proxy, cl_token = ?t, cl_clusterHost = host\<rparr>"
    by (auto simp: NewClient_def Let_def split: sum.splits)
  with discoverProxy_listed [OF this(1) assms(2)] show ?thesis by auto
qed

end
