(* ===== verification/Server_Main.thy ===== *)
theory Server_Main
  imports Yt_Connect Storage_Workers
begin

text \<open>
  The start of the service: \<open>Open\<close> of \<open>src/storage.go\<close> and \<open>main\<close> of \<open>src/cmd/grpc/main.go\<close>, with the calls it
  defers. \<open>log.Fatal\<close> ends the process without running them. The logger, the network and the server
  of gRPC are arguments; the profiler, which runs beside it, is left out.
\<close>

subsection \<open>Opening the storage\<close>

definition Open :: "('y, 'g, 'r, 'n) yt_client \<Rightarrow> (EventKey, 'v, 's) skiplist \<Rightarrow> 'y \<Rightarrow>
    (string + ('b, 's, 'w) system) \<times> 'y" where
  "Open C S y = (case yt_GenerateTimestamp C y of
       (Inl err, y) \<Rightarrow> (Inl (''generate initial timestamp: '' @ err), y)
     | (Inr ts, y) \<Rightarrow> (Inr (open_system S), y))"

subsection \<open>The main function\<close>

datatype deferred_call = SyncLogger | CancelContext | CloseClient | CloseStorage

datatype server_action =
    BuildLogger | Connect string | OpenStorage | RegisterServices | ListenTCP string | Serve | Deferred deferred_call

datatype server_outcome = Returns | Exits | Panics string

text \<open>The deferred calls run, the last one first, when \<open>main\<close> returns or panics, not when the process exits.\<close>

definition leave :: "server_action list \<Rightarrow> deferred_call list \<Rightarrow> server_outcome \<Rightarrow> server_action list \<times> server_outcome" where
  "leave actions defers outcome = (actions @ (if outcome = Exits then [] else map Deferred (rev defers)), outcome)"

definition server_main ::
  "(string \<Rightarrow> string) \<Rightarrow> (string \<Rightarrow> string + 'c) \<Rightarrow> ('c \<Rightarrow> string + 'st) \<Rightarrow> (string \<Rightarrow> string + 'l) \<Rightarrow> ('st \<Rightarrow> 'l \<Rightarrow> string option) \<Rightarrow>
   server_action list \<times> server_outcome" where
  "server_main getenv newClient openStorage listen serve =
     (let host = getenv ''YT_HOST''; acts = [BuildLogger]; defers = [SyncLogger, CancelContext] in
      if host = [] then leave acts defers Exits
      else let acts = acts @ [Connect host] in
      case newClient host of Inl err \<Rightarrow> leave acts defers (Panics err)
      | Inr yt \<Rightarrow>
        let defers = defers @ [CloseClient]; acts = acts @ [OpenStorage] in
        (case openStorage yt of Inl err \<Rightarrow> leave acts defers (Panics err)
         | Inr storage \<Rightarrow>
           let defers = defers @ [CloseStorage]; acts = acts @ [RegisterServices, ListenTCP '':11080''] in
           (case listen '':11080'' of Inl err \<Rightarrow> leave acts defers Exits
            | Inr lis \<Rightarrow>
              let acts = acts @ [Serve] in
              (case serve storage lis of Some err \<Rightarrow> leave acts defers Exits
               | None \<Rightarrow> leave acts defers Returns))))"

text \<open>The program: the client of the cluster, then the storage over it.\<close>

definition grpc_main where
  "grpc_main getenv userHomeDir readFile clusterURL httpClient decode intn dial (S :: (EventKey, 'v, 's) skiplist) y listen serve =
     server_main getenv (NewClient getenv userHomeDir readFile clusterURL httpClient decode intn dial)
       (\<lambda>yt. fst (Open (client_of (cl_conn yt) (cl_token yt)) S y)) listen serve"

subsection \<open>What is closed\<close>

lemma leave_deferred [simp]:
  "Deferred d \<in> set (fst (leave acts defers outcome)) \<longleftrightarrow> Deferred d \<in> set acts \<or> outcome \<noteq> Exits \<and> d \<in> set defers"
  "snd (leave acts defers outcome) = outcome"
  by (auto simp: leave_def)

text \<open>The storage is closed exactly when \<open>Serve\<close> returns without an error, which it only does when the server
  is stopped; nothing stops it.\<close>

lemma storage_closed: "Deferred CloseStorage \<in> set (fst (server_main getenv newClient openStorage listen serve)) \<longleftrightarrow>
    snd (server_main getenv newClient openStorage listen serve) = Returns"
  by (simp add: server_main_def Let_def split: sum.splits option.splits)

lemma served_without_close:
  assumes "getenv ''YT_HOST'' = host" and "host \<noteq> []" and "newClient host = Inr yt" and "openStorage yt = Inr storage"
    and "listen '':11080'' = Inr lis" and "serve storage lis = Some err"
  shows "server_main getenv newClient openStorage listen serve =
    ([BuildLogger, Connect host, OpenStorage, RegisterServices, ListenTCP '':11080'', Serve], Exits)"
  using assms by (simp add: server_main_def Let_def leave_def)

text \<open>A storage that does not open leaves the client closed.\<close>

lemma open_fails:
  assumes "snd (server_main getenv newClient openStorage listen serve) = Panics err" and "newClient (getenv ''YT_HOST'') = Inr yt"
  shows "openStorage yt = Inl err \<and> Deferred CloseClient \<in> set (fst (server_main getenv newClient openStorage listen serve))"
  using assms by (simp add: server_main_def Let_def split: sum.splits option.splits if_splits)

text \<open>The program opens the storage in its initial state, from which the runs of the workers start, and
  serves calls only after the cluster has answered with a timestamp.\<close>

lemma served_open:
  assumes "Serve \<in> set (fst (grpc_main getenv userHomeDir readFile clusterURL httpClient decode intn dial S y listen serve))"
  shows "\<exists>yt ts y'. NewClient getenv userHomeDir readFile clusterURL httpClient decode intn dial (getenv ''YT_HOST'') = Inr yt \<and>
    GenerateTimestamp (cl_conn yt) (cl_token yt) y = (Inr ts, y') \<and>
    Open (client_of (cl_conn yt) (cl_token yt)) S y = (Inr (open_system S), y')"
  using assms by (auto simp: grpc_main_def server_main_def Let_def leave_def Open_def client_of_def split: sum.splits option.splits if_splits prod.splits)

end
