(* ===== verification/Spec2Isabelle.thy ===== *)
theory Spec2Isabelle
  imports Bsi_Spec Rpc_Spec Write_Spec Page_Token Tools_Spec Server_Main
begin

text \<open>
  Verification of bitstar, a storage service for events (\<open>src/\<close>).

  \<^bold>\<open>The program.\<close> The service (\<open>Storage\<close> of \<open>storage.go\<close>) keeps events in two tables of a YT cluster and
  answers listings from indices in memory. A call that writes commits a transaction on the
  cluster, then hands the items to the write worker, a goroutine that puts them into the current
  mem table (\<open>memtable.go\<close>). A full table is converted to a bitmap index (\<open>index.go\<close>) and waits in a
  list. A second goroutine, the flush worker, merges the waiting indices into four levels. A
  listing loads the table, the waiting indices and the levels, filters each of them
  (\<open>filtering/filtering.go\<close>, \<open>match_memtable_item.go\<close>), walks the results with iterators
  (\<open>iterator_*.go\<close>) that are merged, and looks the events of the keys up on the cluster. The time
  spans of an index are bit sliced indices (\<open>bsi/bsi.go\<close>). Around it are the client of the cluster
  (\<open>ytclient\<close>), a load generator (\<open>cmd/load\<close>) and the creation of the tables (\<open>cmd/migrate\<close>).

  \<^bold>\<open>Conventions.\<close> A Go pointer is an option, a panic is \<open>None\<close> or a constructor of an error type, an error
  is \<open>Inl\<close>, integers have their width. Third-party code is an argument with its documented
  behaviour: bitmaps (\<open>roaring_bitmap\<close>), skip lists (\<open>skip_list\<close>), Bloom filters (\<open>bloom_filter\<close>), the
  bitmap codec (\<open>bitmap_codec\<close>), \<open>AsTime\<close> of protobuf timestamps, the protobuf and wire codecs, the
  connection to the cluster. Each of the four locales is interpreted on list implementations, on
  which the witnesses compute.

  \<^bold>\<open>Foundations.\<close>
  \<^item> \<open>Bitstar_Prelude\<close>: machine integers, fact collections, generic lemmas. \<open>Go_Time\<close>: \<open>time.Time\<close>.
    \<open>Strconv\<close>: UTF-8, \<open>strconv.Quote\<close> and \<open>Unquote\<close>, which invert each other. \<open>Roaring\<close>: bitmaps.
  \<^item> \<open>Event_Model\<close>: events, keys, and the two orders on keys (\<open>compare.go\<close>), both instances of the
    locale \<open>three_way\<close>.

  \<^bold>\<open>Bit sliced indices\<close> (\<open>bsi/bsi.go\<close>): \<open>Bsi\<close>, \<open>Bsi_Compare\<close>, \<open>Bsi_Arith\<close>, \<open>Bsi_MinMax\<close>, \<open>Bsi_Marshal\<close>.
  Every operation, stated over the abstraction that reads the value of a column; the arguments of an operation
  are other objects than its receiver. \<open>Bsi_Spec\<close> has the invariant of all reachable indices and the columns
  each operation yields, with its panics.

  \<^bold>\<open>Filters\<close> (\<open>filtering/filtering.go\<close>): \<open>Filter_AST\<close>, \<open>Filter_Lexer\<close>, \<open>Filter_Parser\<close>, \<open>Filter_Print\<close>;
  what a filter means is in \<open>Filter_Semantics\<close>. \<open>Filter_Roundtrip\<close> and \<open>Filter_Spec\<close> show that parsing
  ends on every input (the fuel of the recursion and of the loops is bounded by the length of
  the input and is never used up), what it returns, and that printing and parsing fit.

  \<^bold>\<open>Reading\<close>: \<open>Roaring_Index\<close>, \<open>Index_Query\<close> and \<open>Index_Merge\<close> (\<open>index.go\<close>), \<open>Mem_Table\<close>, \<open>Iterators\<close> (the Go
  interface is the locale \<open>iterator\<close>), \<open>Merge_Iterator\<close>. \<open>Snapshot\<close> says what a reader is meant to see.
  \<open>Listing_Spec\<close>: an index represents a list of rows, a query selects the rows the filter holds of,
  merging keeps all rows, bitmaps and row by row matching agree where the query succeeds, and what
  the iterators yield.

  \<^bold>\<open>Writing\<close>: \<open>Storage_Write\<close> has the state of the storage and the operations of the two workers,
  \<open>Storage_Workers\<close> their interleaving as the step relation \<open>step\<close>, one step for each access to shared
  state; a panic of a worker ends the process, so both stop. \<open>Storage_Invariant\<close> and \<open>Storage_Spec\<close>: no item, event
  or tombstone, is lost or duplicated until a panic, which needs a tombstone; sizes of levels, what a
  concurrent reader sees, that the flush worker is served, and where a run gets stuck. The invariant needs
  that no version is written twice and that the timer of the flush worker does not fire while a
  flushed index is being removed; \<open>late_timer_duplicates\<close> shows that the second is needed.

  \<^bold>\<open>The calls of the service\<close>: \<open>Storage_Rpc\<close> (create, update, delete) and \<open>Storage_List\<close> (list) are whole
  handlers: functions on the state of the cluster and the list of requests handed to the write
  worker. \<open>Live_Table\<close> has the walk through a mem table that grows meanwhile, \<open>Rpc_Calls\<close>, \<open>List_Keys\<close> and
  \<open>List_Run\<close> the lemmas. \<open>Write_Spec\<close>: what is written, in which order,
  what tombstones do, and that a table hides an event moved to an earlier start. \<open>Rpc_Spec\<close>: a listing that loads
  its parts in three states of a run of the workers, and walks through them while the run goes on and events are
  created, updated and deleted: it ends, each event it shows has an accepted version that matches, the events
  of a successful creation are shown, deleted ones are not, and its bounds. \<open>Page_Token\<close>
  (\<open>page_token.go\<close>): base64 and the token of the next page.

  \<^bold>\<open>Around the service\<close>: \<open>Yt_Client\<close> (\<open>ytclient.go\<close>, \<open>fromYt\<close> of \<open>index.go\<close>), \<open>Yt_Connect\<close> (\<open>NewClient\<close>),
  \<open>Server_Main\<close> (\<open>Open\<close> and \<open>cmd/grpc\<close>), \<open>Load_Tool\<close> and \<open>Load_Run\<close> (\<open>cmd/load\<close>: its workers and channels
  are a step relation, every run of which ends unless the channel of the results fills up),
  \<open>Migrate_Tool\<close>. \<open>Tools_Spec\<close> has their properties.

  \<^bold>\<open>Bounds and fuel.\<close> The parser has fuel, shown sufficient. The loops of a listing and of the carries
  of an addition are partial functions, shown to return. The limits of the storage are those of
  the code (\<open>maxMemTableSize\<close>, \<open>levelLimit\<close>), and runs of the workers have any length.

  \<^bold>\<open>Not modelled.\<close>
  \<^item> The adapter to a logger (\<open>badgerzap.go\<close>, no caller), the profiler and the logger of the server, the
    flags, the printing and the monitor of the load generator: input and output only.
  \<^item> Calls of the bit sliced index with the receiver, or its existence bitmap, as the argument (\<open>b.Add(b)\<close>).
  \<^item> \<open>Close\<close> of \<open>ytclient.go\<close>, which closes the connection, and \<open>convertStringSliceToJSON\<close>, which has no
    caller and only calls the JSON encoder.
  \<^item> Generated code (\<open>event_service.pb.go\<close>, \<open>event_service_grpc.pb.go\<close>) apart from the getters of events.
  \<^item> The offset in an error of the base64 decoder is left out. The durations that the load generator
    measures, and the outcomes of its requests, are free; its number of workers and batch size are
    natural numbers (a negative batch size panics in \<open>make\<close>).
\<close>

end
